(* ===== verification/C_Prelude.thy ===== *)
theory C_Prelude
  imports Main "HOL-Library.Word" "HOL-Library.Monad_Syntax"
begin

text \<open>
  What the C programs of the repository share: machine integers, byte buffers read and written
  through \<open>int *\<close> and \<open>char *\<close> pointers, counted \<open>for\<close> loops, and the lines a program prints.

  A buffer is the list of its bytes. An access through a pointer is an option: \<open>None\<close> is an access
  outside the buffer, so that a theorem that a program returns \<open>Some\<close> is also its memory safety.
  The host (x86) and the SSD's processor (aarch64) are both little endian.
\<close>

unbundle bit_operations_syntax

named_theorems buf_simps \<open>facts on buffers read as arrays of ints\<close>
named_theorems loop_intros \<open>rules for counted loops\<close>

section \<open>Integers and buffers\<close>

type_synonym byte = "8 word"
type_synonym cint = "32 word"
type_synonym u64 = "64 word"
type_synonym buffer = "byte list"

definition int_of_bytes :: "byte \<Rightarrow> byte \<Rightarrow> byte \<Rightarrow> byte \<Rightarrow> cint" where
  "int_of_bytes b0 b1 b2 b3 =
     ucast b0 OR push_bit 8 (ucast b1) OR push_bit 16 (ucast b2) OR push_bit 24 (ucast b3)"

definition bytes_of_int :: "cint \<Rightarrow> byte list" where
  "bytes_of_int w = [ucast w, ucast (drop_bit 8 w), ucast (drop_bit 16 w), ucast (drop_bit 24 w)]"

text \<open>The value of the \<open>i\<close>-th int of a buffer that holds it.\<close>

definition int_at :: "buffer \<Rightarrow> nat \<Rightarrow> cint" where
  "int_at bs i = int_of_bytes (bs ! (4 * i)) (bs ! (4 * i + 1)) (bs ! (4 * i + 2)) (bs ! (4 * i + 3))"

definition ld8 :: "buffer \<Rightarrow> nat \<Rightarrow> byte option" where
  "ld8 bs i = (if i < length bs then Some (bs ! i) else None)"

definition ld32 :: "buffer \<Rightarrow> nat \<Rightarrow> cint option" where
  "ld32 bs i = (if 4 * i + 4 \<le> length bs then Some (int_at bs i) else None)"

definition st32 :: "buffer \<Rightarrow> nat \<Rightarrow> cint \<Rightarrow> buffer option" where
  "st32 bs i v =
     (if 4 * i + 4 \<le> length bs then Some (take (4 * i) bs @ bytes_of_int v @ drop (4 * i + 4) bs)
      else None)"

text \<open>A buffer read as an array of ints, and the bytes of an array of ints.\<close>

definition ints_of :: "buffer \<Rightarrow> cint list" where
  "ints_of bs = map (int_at bs) [0..<length bs div 4]"

definition bytes_of :: "cint list \<Rightarrow> buffer" where
  "bytes_of ws = concat (map bytes_of_int ws)"

lemma length_bytes_of_int [simp]: "length (bytes_of_int w) = 4"
  by (simp add: bytes_of_int_def)

lemma length_bytes_of [simp]: "length (bytes_of ws) = 4 * length ws"
  by (induction ws) (simp_all add: bytes_of_def)

lemma length_ints_of [simp]: "length (ints_of bs) = length bs div 4"
  by (simp add: ints_of_def)

lemma int_of_bytes_of_int:
  "int_of_bytes (ucast w) (ucast (drop_bit 8 w)) (ucast (drop_bit 16 w)) (ucast (drop_bit 24 w)) = w"
proof -
  have "n - 16 < 8" if "bit w n" "\<not> bit w (24 + (n - 24))" for n
    using that by (cases "24 \<le> n") auto
  then show ?thesis
    unfolding int_of_bytes_def by (intro bit_word_eqI) (auto simp: bit_simps)
qed

lemma nth_ints_of [buf_simps]: "i < length bs div 4 \<Longrightarrow> ints_of bs ! i = int_at bs i"
  by (simp add: ints_of_def)

lemma ld32_ints_of [buf_simps]: "ld32 bs i = (if i < length bs div 4 then Some (ints_of bs ! i) else None)"
  by (auto simp: ld32_def nth_ints_of)

lemma st32_eq_Some: "st32 bs i v = Some bs' \<Longrightarrow> i < length bs div 4 \<and> length bs' = length bs"
  by (auto simp: st32_def split: if_splits)

lemma ints_of_eqI: "length bs = length bs' \<Longrightarrow> (\<And>i. i < length bs div 4 \<Longrightarrow> int_at bs i = int_at bs' i) \<Longrightarrow> ints_of bs = ints_of bs'"
  by (auto simp: ints_of_def)

lemma int_at_st32:
  assumes "st32 bs i v = Some bs'" "k < length bs div 4"
  shows "int_at bs' k = (if k = i then v else int_at bs k)"
proof -
  from assms(1) have i: "4 * i + 4 \<le> length bs"
    and bs': "bs' = take (4 * i) bs @ bytes_of_int v @ drop (4 * i + 4) bs"
    by (auto simp: st32_def split: if_splits)
  have k: "4 * k + 4 \<le> length bs" using assms(2) by simp
  consider "k < i" | "k = i" | "i < k" by linarith
  then show ?thesis
  proof cases
    case 1
    with i have b: "bs' ! (4 * k + j) = bs ! (4 * k + j)" if "j < 4" for j
      using that by (simp add: bs' nth_append)
    with 1 show ?thesis
      using b [of 0] b [of 1] b [of 2] b [of 3] by (simp add: int_at_def)
  next
    case 2
    with i have b: "bs' ! (4 * k + j) = bytes_of_int v ! j" if "j < 4" for j
      using that by (simp add: bs' nth_append)
    with 2 show ?thesis
      using b [of 0] b [of 1] b [of 2] b [of 3]
      by (simp add: int_at_def bytes_of_int_def int_of_bytes_of_int numeral_2_eq_2 numeral_3_eq_3)
  next
    case 3
    then have "\<not> 4 * k + j - 4 * i < 4" for j by linarith
    with 3 i k have b: "bs' ! (4 * k + j) = bs ! (4 * k + j)" if "j < 4" for j
      using that by (simp add: bs' nth_append)
    with 3 show ?thesis
      using b [of 0] b [of 1] b [of 2] b [of 3] by (simp add: int_at_def)
  qed
qed

lemma st32_ints_of [buf_simps]:
  "st32 bs i v = Some bs' \<Longrightarrow> ints_of bs' = (ints_of bs)[i := v]"
  using st32_eq_Some [of bs i v bs']
  by (auto simp: list_eq_iff_nth_eq nth_ints_of int_at_st32 nth_list_update)

lemma st32_Some: "i < length bs div 4 \<Longrightarrow> \<exists>bs'. st32 bs i v = Some bs'"
  by (auto simp: st32_def)

lemma ints_of_bytes_of [simp]: "ints_of (bytes_of ws) = ws"
proof (induction ws)
  case Nil
  show ?case by (simp add: ints_of_def bytes_of_def)
next
  case (Cons w ws)
  have b: "bytes_of (w # ws) = bytes_of_int w @ bytes_of ws"
    by (simp add: bytes_of_def)
  have z: "int_at (bytes_of_int w @ xs) 0 = w" for xs
    by (simp add: int_at_def bytes_of_int_def int_of_bytes_of_int numeral_2_eq_2 numeral_3_eq_3)
  have s: "int_at (bytes_of_int w @ xs) (Suc k) = int_at xs k" for xs k
    by (simp add: int_at_def bytes_of_int_def add.commute)
  have "ints_of (bytes_of (w # ws)) = map (int_at (bytes_of_int w @ bytes_of ws)) [0..<Suc (length ws)]"
    by (simp add: ints_of_def b)
  also have "\<dots> = w # map (int_at (bytes_of ws)) [0..<length ws]"
    unfolding upt_rec [of 0 "Suc (length ws)"] map_Suc_upt [symmetric] by (simp add: z s comp_def)
  also have "\<dots> = w # ws" using Cons.IH by (simp add: ints_of_def)
  finally show ?case .
qed

lemma byte_no_high_bit: "8 \<le> n \<Longrightarrow> \<not> bit (b :: byte) n"
  by (auto dest: bit_imp_le_length)

lemma bytes_of_int_int_of_bytes: "bytes_of_int (int_of_bytes b0 b1 b2 b3) = [b0, b1, b2, b3]"
  unfolding bytes_of_int_def int_of_bytes_def
  by (auto intro!: bit_word_eqI simp: bit_simps byte_no_high_bit)

lemma ints_of_inject:
  assumes "length a = length b" "4 dvd length a" "ints_of a = ints_of b"
  shows "a = b"
proof (rule nth_equalityI)
  show "length a = length b" by fact
next
  fix n
  assume n: "n < length a"
  define i where "i = n div 4"
  have i: "i < length a div 4" using n assms(2) by (auto simp: i_def div_less_mono)
  with assms have "int_at a i = int_at b i"
    by (metis nth_ints_of)
  then have "bytes_of_int (int_at a i) = bytes_of_int (int_at b i)" by simp
  then have "[a ! (4 * i), a ! (4 * i + 1), a ! (4 * i + 2), a ! (4 * i + 3)] =
    [b ! (4 * i), b ! (4 * i + 1), b ! (4 * i + 2), b ! (4 * i + 3)]"
    by (simp only: int_at_def bytes_of_int_int_of_bytes)
  moreover have "n = 4 * i + n mod 4" by (simp add: i_def)
  moreover have "n mod 4 = 0 \<or> n mod 4 = 1 \<or> n mod 4 = 2 \<or> n mod 4 = 3" by presburger
  ultimately show "a ! n = b ! n" by (metis add_0_right list.inject)
qed

lemma ints_of_zeros [simp]: "ints_of (replicate n 0) = replicate (n div 4) 0"
  by (rule nth_equalityI) (auto simp: nth_ints_of int_at_def int_of_bytes_def)

lemma bytes_of_ints_of: "4 dvd length bs \<Longrightarrow> bytes_of (ints_of bs) = bs"
  by (rule ints_of_inject) auto

lemma unat_of_nat_cint: "n < 4294967296 \<Longrightarrow> unat (of_nat n :: cint) = n"
  by (simp add: unat_of_nat)

lemma unat_of_nat_u64: "n < 18446744073709551616 \<Longrightarrow> unat (of_nat n :: u64) = n"
  by (simp add: unat_of_nat)

section \<open>Counted loops\<close>

text \<open>
  \<open>for (i = 0; i < n; i++) body\<close>, for a body that does not write \<open>i\<close> and does not leave the loop.
  The body may fail (a memory access out of bounds), and then the loop fails.
\<close>

primrec for_loop :: "nat \<Rightarrow> (nat \<Rightarrow> 's \<Rightarrow> 's option) \<Rightarrow> 's \<Rightarrow> 's option" where
  "for_loop 0 f s = Some s"
| "for_loop (Suc n) f s = do { s' \<leftarrow> for_loop n f s; f n s' }"

text \<open>The same loop over a body that cannot fail.\<close>

primrec for_do :: "nat \<Rightarrow> (nat \<Rightarrow> 's \<Rightarrow> 's) \<Rightarrow> 's \<Rightarrow> 's" where
  "for_do 0 f s = s"
| "for_do (Suc n) f s = f n (for_do n f s)"

text \<open>The loop over a body that may also return from the program, with \<open>Inl\<close>.\<close>

primrec for_ret :: "nat \<Rightarrow> (nat \<Rightarrow> 's \<Rightarrow> ('r + 's) option) \<Rightarrow> 's \<Rightarrow> ('r + 's) option" where
  "for_ret 0 f s = Some (Inr s)"
| "for_ret (Suc n) f s = do {
     x \<leftarrow> for_ret n f s;
     case x of Inl r \<Rightarrow> Some (Inl r) | Inr s' \<Rightarrow> f n s' }"

lemma for_ret_inv [loop_intros]:
  assumes "P 0 s" "\<And>i s. i < n \<Longrightarrow> P i s \<Longrightarrow> \<exists>s'. f i s = Some (Inr s') \<and> P (Suc i) s'"
  shows "\<exists>s'. for_ret n f s = Some (Inr s') \<and> P n s'"
  using assms(2)
proof (induction n)
  case 0
  with assms(1) show ?case by simp
next
  case (Suc n)
  then obtain s' where "for_ret n f s = Some (Inr s')" "P n s'" by fastforce
  with Suc.prems [of n s'] show ?case by auto
qed

lemma for_ret_stop:
  "for_ret i f s = Some (Inr s') \<Longrightarrow> f i s' = Some (Inl r) \<Longrightarrow> i < n \<Longrightarrow> for_ret n f s = Some (Inl r)"
proof (induction n)
  case (Suc n)
  then show ?case by (cases "i = n") auto
qed simp

lemma for_loop_inv [loop_intros]:
  assumes "P 0 s" "\<And>i s. i < n \<Longrightarrow> P i s \<Longrightarrow> \<exists>s'. f i s = Some s' \<and> P (Suc i) s'"
  shows "\<exists>s'. for_loop n f s = Some s' \<and> P n s'"
  using assms(2)
proof (induction n)
  case 0
  with assms(1) show ?case by simp
next
  case (Suc n)
  then obtain s' where "for_loop n f s = Some s'" "P n s'" by fastforce
  with Suc.prems [of n s'] show ?case by auto
qed

lemma for_do_inv [loop_intros]:
  assumes "P 0 s" "\<And>i s. i < n \<Longrightarrow> P i s \<Longrightarrow> P (Suc i) (f i s)"
  shows "P n (for_do n f s)"
  using assms by (induction n) auto

lemma for_loop_cong:
  "n = m \<Longrightarrow> s = t \<Longrightarrow> (\<And>i s. i < m \<Longrightarrow> f i s = g i s) \<Longrightarrow> for_loop n f s = for_loop m g t"
proof (induction n arbitrary: m)
  case (Suc n)
  then have "for_loop n f s = for_loop n g t" by auto
  with Suc.prems show ?case by (cases "for_loop n g t") auto
qed auto

lemma for_loop_Some: "for_loop n (\<lambda>i s. Some (f i s)) s = Some (for_do n f s)"
  by (induction n) simp_all

lemma for_do_pair_append:
  "for_do n (\<lambda>i xs. xs @ f i) xs = xs @ concat (map f [0..<n])"
  by (induction n) simp_all

lemma for_loop_fail: "for_loop n f s = None \<Longrightarrow> n \<le> m \<Longrightarrow> for_loop m f s = None"
proof (induction m)
  case (Suc m)
  then show ?case by (cases "n = Suc m") auto
qed simp

text \<open>
  Loops whose body keeps \<open>R\<close> of the rest of the state and appends \<open>L i\<close> to a list.
\<close>

lemma for_do_lines [loop_intros]:
  assumes "R e" "\<And>i e out. i < n \<Longrightarrow> R e \<Longrightarrow> \<exists>e'. f i (e, out) = (e', out @ L i) \<and> R e'"
  shows "\<exists>e'. for_do n f (e, out) = (e', out @ concat (map L [0..<n])) \<and> R e'"
  using assms
proof (induction n)
  case (Suc n)
  then obtain e' where "for_do n f (e, out) = (e', out @ concat (map L [0..<n]))" "R e'" by force
  with Suc.prems(2) [of n e' "out @ concat (map L [0..<n])"] show ?case by simp
qed simp

lemma for_loop_lines [loop_intros]:
  assumes "R 0 e b" "\<And>i e b out. i < n \<Longrightarrow> R i e b \<Longrightarrow> \<exists>e' b'. f i (e, b, out) = Some (e', b', out @ L i) \<and> R (Suc i) e' b'"
  shows "\<exists>e' b'. for_loop n f (e, b, out) = Some (e', b', out @ concat (map L [0..<n])) \<and> R n e' b'"
  using assms
proof (induction n)
  case (Suc n)
  then obtain e' b' where "for_loop n f (e, b, out) = Some (e', b', out @ concat (map L [0..<n]))" "R n e' b'"
    by (metis less_Suc_eq)
  with Suc.prems(2) [of n e' b' "out @ concat (map L [0..<n])"] show ?case by simp
qed simp

lemma concat_map_Nil [simp]: "concat (map (\<lambda>_. []) xs) = []"
  by (induction xs) simp_all

lemmas for_do_lines_Nil = for_do_lines [where out = "[]", unfolded append_Nil]
lemmas for_loop_lines_Nil = for_loop_lines [where out = "[]", unfolded append_Nil]

subsection \<open>Sums and vector sums\<close>

lemma sum_list_take_Suc: "n < length xs \<Longrightarrow> sum_list (take (Suc n) xs) = sum_list (take n xs) + (xs ! n :: 'a :: monoid_add)"
  by (simp add: take_Suc_conv_app_nth)

text \<open>A sum of small numbers does not wrap.\<close>

lemma sum_list_map_bound: "(\<And>x. x \<in> set xs \<Longrightarrow> f x \<le> (B :: nat)) \<Longrightarrow> sum_list (map f xs) \<le> length xs * B"
proof (induction xs)
  case (Cons x xs)
  then have "f x \<le> B" "sum_list (map f xs) \<le> length xs * B" by auto
  then show ?case by simp
qed simp

lemma unat_sum_list:
  "sum_list (map unat xs) < 4294967296 \<Longrightarrow> unat (sum_list xs :: cint) = sum_list (map unat xs)"
proof (induction xs)
  case (Cons x xs)
  then have "unat (sum_list xs) = sum_list (map unat xs)" by simp
  moreover have "unat (x + sum_list xs) = (unat x + unat (sum_list xs)) mod 4294967296"
    by (simp add: unat_word_ariths)
  ultimately show ?case using Cons.prems by simp
qed simp

lemma sint_cint: "unat (w :: cint) < 2147483648 \<Longrightarrow> sint w = int (unat w)"
proof -
  assume w: "unat w < 2147483648"
  have u: "int (unat w) = uint w" by (rule of_nat_unat)
  have "int (unat w) < 2 ^ 31" "- (2 ^ 31) \<le> int (unat w)" using w by (simp_all del: of_nat_unat)
  then have "signed_take_bit 31 (int (unat w)) = int (unat w)" by (intro signed_take_bit_int_eq_self)
  moreover have "sint w = signed_take_bit 31 (uint w)" by (simp add: sint_uint)
  ultimately show ?thesis using u by (simp only:)
qed

text \<open>\<open>for (i = 0; i < n; i++) sum += array[i];\<close>\<close>

definition sum_loop :: "nat \<Rightarrow> buffer \<Rightarrow> cint \<Rightarrow> cint option" where
  "sum_loop n array acc = for_loop n (\<lambda>i acc. do { v \<leftarrow> ld32 array i; Some (acc + v) }) acc"

lemma sum_loop_eq:
  "sum_loop n array a =
     (if n \<le> length array div 4 then Some (a + sum_list (take n (ints_of array))) else None)"
proof (induction n)
  case 0
  show ?case by (simp add: sum_loop_def)
next
  case (Suc n)
  have "sum_loop (Suc n) array a = do { s \<leftarrow> sum_loop n array a; v \<leftarrow> ld32 array n; Some (s + v) }"
    by (simp add: sum_loop_def)
  then show ?case
    using Suc.IH by (auto simp: ld32_ints_of sum_list_take_Suc add.assoc)
qed

text \<open>
  \<open>for (j = 0; j < m; j++) dst[doff + j] += src[soff + j];\<close>, for two buffers that do not overlap.
\<close>

definition vec_add :: "nat \<Rightarrow> buffer \<Rightarrow> nat \<Rightarrow> nat \<Rightarrow> buffer \<Rightarrow> buffer option" where
  "vec_add m src soff doff dst =
     for_loop m (\<lambda>j dst. do { x \<leftarrow> ld32 dst (doff + j); y \<leftarrow> ld32 src (soff + j); st32 dst (doff + j) (x + y) }) dst"

text \<open>What the loop computes, on arrays of ints.\<close>

definition add_at :: "nat \<Rightarrow> cint list \<Rightarrow> nat \<Rightarrow> nat \<Rightarrow> cint list \<Rightarrow> cint list" where
  "add_at m xs soff doff ys =
     map (\<lambda>k. if doff \<le> k \<and> k < doff + m then ys ! k + xs ! (soff + (k - doff)) else ys ! k) [0..<length ys]"

lemma length_add_at [simp]: "length (add_at m xs soff doff ys) = length ys"
  by (simp add: add_at_def)

lemma nth_add_at:
  "k < length ys \<Longrightarrow> add_at m xs soff doff ys ! k =
     (if doff \<le> k \<and> k < doff + m then ys ! k + xs ! (soff + (k - doff)) else ys ! k)"
  by (simp add: add_at_def)

lemma nth_add_slot:
  assumes "k < length ys" "0 < m"
  shows "add_at m xs soff (m * r) ys ! k = ys ! k + (if k div m = r then xs ! (soff + k mod m) else 0)"
proof -
  have "m * r \<le> k \<and> k < m * r + m \<longleftrightarrow> k div m = r"
    using assms(2) by (auto simp: div_nat_eqI dividend_less_times_div algebra_simps)
  moreover have "k div m = r \<Longrightarrow> k - m * r = k mod m" by (auto simp: minus_mult_div_eq_mod)
  ultimately show ?thesis using assms(1) by (auto simp: nth_add_at)
qed

lemma add_at_0 [simp]: "add_at 0 xs soff doff ys = ys"
  by (rule nth_equalityI) (auto simp: nth_add_at)

lemma add_at_Suc:
  "doff + m < length ys \<Longrightarrow>
   add_at (Suc m) xs soff doff ys = (add_at m xs soff doff ys)[doff + m := ys ! (doff + m) + xs ! (soff + m)]"
proof (rule nth_equalityI)
  fix i
  assume i: "i < length (add_at (Suc m) xs soff doff ys)" and len: "doff + m < length ys"
  show "add_at (Suc m) xs soff doff ys ! i =
    (add_at m xs soff doff ys)[doff + m := ys ! (doff + m) + xs ! (soff + m)] ! i"
  proof (cases "i = doff + m")
    case True
    with len show ?thesis by (simp add: nth_add_at)
  next
    case False
    with i have "i < Suc (doff + m) \<longleftrightarrow> i < doff + m" by linarith
    with False i show ?thesis by (simp add: nth_add_at)
  qed
qed simp

lemma vec_add_eq:
  assumes "soff + m \<le> length src div 4" "doff + m \<le> length dst div 4"
  shows "\<exists>dst'. vec_add m src soff doff dst = Some dst' \<and> length dst' = length dst \<and>
           ints_of dst' = add_at m (ints_of src) soff doff (ints_of dst)"
  using assms
proof (induction m)
  case 0
  show ?case by (simp add: vec_add_def)
next
  case (Suc m)
  then obtain r where r: "vec_add m src soff doff dst = Some r" "length r = length dst"
    "ints_of r = add_at m (ints_of src) soff doff (ints_of dst)" by auto
  let ?v = "ints_of r ! (doff + m) + ints_of src ! (soff + m)"
  from Suc.prems r obtain r' where r': "st32 r (doff + m) ?v = Some r'"
    using st32_Some [of "doff + m" r ?v] by auto
  have "vec_add (Suc m) src soff doff dst = Some r'"
    using r r' Suc.prems by (simp add: vec_add_def ld32_ints_of)
  moreover have "length r' = length dst" using st32_eq_Some [OF r'] r by simp
  moreover have "ints_of r' = add_at (Suc m) (ints_of src) soff doff (ints_of dst)"
    using st32_ints_of [OF r'] r Suc.prems by (simp add: add_at_Suc nth_add_at)
  ultimately show ?case by blast
qed

lemma for_loop_length:
  "(\<And>i s s'. f i s = Some s' \<Longrightarrow> length s' = length s) \<Longrightarrow> for_loop n f s = Some s' \<Longrightarrow> length s' = length s"
proof (induction n arbitrary: s')
  case (Suc n)
  then obtain t where "for_loop n f s = Some t" "f n t = Some s'" by (auto simp: bind_eq_Some_conv)
  with Suc show ?case by metis
qed simp

lemma vec_add_length: "vec_add m src soff doff dst = Some dst' \<Longrightarrow> length dst' = length dst"
  unfolding vec_add_def
  by (rule for_loop_length) (auto simp: bind_eq_Some_conv dest: st32_eq_Some)

lemma vec_add_fault:
  assumes "j < m" "\<not> (doff + j < length dst div 4 \<and> soff + j < length src div 4)"
  shows "vec_add m src soff doff dst = None"
proof -
  let ?f = "\<lambda>j dst. do { x \<leftarrow> ld32 dst (doff + j); y \<leftarrow> ld32 src (soff + j); st32 dst (doff + j) (x + y) }"
  have "for_loop (Suc j) ?f dst = None"
  proof (cases "for_loop j ?f dst")
    case (Some r)
    then have "vec_add j src soff doff dst = Some r" by (simp add: vec_add_def)
    from vec_add_length [OF this] Some assms(2) show ?thesis by (auto simp: ld32_ints_of bind_eq_None_conv)
  qed simp
  with assms(1) show ?thesis
    unfolding vec_add_def by (auto intro: for_loop_fail simp del: for_loop.simps)
qed

lemma vec_add_out_of_bounds: "0 < m \<Longrightarrow> length dst div 4 < doff + m \<Longrightarrow> vec_add m src soff doff dst = None"
  by (rule vec_add_fault [of "m - 1"]) auto

lemma vec_add_src_out_of_bounds: "0 < m \<Longrightarrow> length src div 4 < soff + m \<Longrightarrow> vec_add m src soff doff dst = None"
  by (rule vec_add_fault [of "m - 1"]) auto

subsection \<open>Counting loops and string matching\<close>

text \<open>\<open>for (i = 0; i < n; i++) if (test(i)) cnt++;\<close>\<close>

definition count_loop :: "nat \<Rightarrow> (nat \<Rightarrow> bool option) \<Rightarrow> cint \<Rightarrow> cint option" where
  "count_loop n test cnt =
     for_loop n (\<lambda>i cnt. do { b \<leftarrow> test i; Some (if b then cnt + 1 else cnt) }) cnt"

lemma card_less_Suc_if:
  "card {k. k < Suc n \<and> P k} = card {k. k < n \<and> P k} + (if P n then 1 else 0)"
proof (cases "P n")
  case True
  then have "{k. k < Suc n \<and> P k} = insert n {k. k < n \<and> P k}" using less_antisym by fastforce
  with True show ?thesis by simp
next
  case False
  then have "{k. k < Suc n \<and> P k} = {k. k < n \<and> P k}" using less_antisym by fastforce
  with False show ?thesis by simp
qed

lemma count_loop_eq:
  assumes "\<And>i. i < n \<Longrightarrow> test i = Some (P i)"
  shows "count_loop n test cnt = Some (cnt + of_nat (card {i. i < n \<and> P i}))"
  using assms
proof (induction n)
  case 0
  show ?case by (simp add: count_loop_def)
next
  case (Suc n)
  then have "for_loop n (\<lambda>i cnt. do { b \<leftarrow> test i; Some (if b then cnt + 1 else cnt) }) cnt =
    Some (cnt + of_nat (card {i. i < n \<and> P i}))" by (simp add: count_loop_def)
  with Suc.prems [of n] show ?case by (simp add: count_loop_def card_less_Suc_if)
qed

lemma count_loop_filter:
  assumes "n \<le> length d"
  shows "count_loop n (\<lambda>i. do { c \<leftarrow> ld8 d i; Some (P c) }) 0 = Some (of_nat (length (filter P (take n d))))"
proof -
  have "count_loop n (\<lambda>i. do { c \<leftarrow> ld8 d i; Some (P c) }) 0 = Some (0 + of_nat (card {i. i < n \<and> P (d ! i)}))"
    using assms by (intro count_loop_eq) (simp add: ld8_def)
  moreover have "{i. i < n \<and> P (d ! i)} = {i. i < length (take n d) \<and> P (take n d ! i)}"
    using assms by auto
  ultimately show ?thesis by (simp add: length_filter_conv_card)
qed

lemma count_loop_fault: "i < n \<Longrightarrow> test i = None \<Longrightarrow> count_loop n test cnt = None"
  unfolding count_loop_def
proof (rule for_loop_fail)
  show "Suc i \<le> n" if "i < n" using that by simp
  show "for_loop (Suc i) (\<lambda>i cnt. do { b \<leftarrow> test i; Some (if b then cnt + 1 else cnt) }) cnt = None"
    if "test i = None" using that by (simp add: bind_eq_None_conv)
qed

lemma all_from_Suc:
  "j < n \<Longrightarrow> (\<forall>k. j \<le> k \<and> k < n \<longrightarrow> P k) \<longleftrightarrow> P j \<and> (\<forall>k. j + 1 \<le> k \<and> k < n \<longrightarrow> P k)" for n :: nat
  by (metis Suc_eq_plus1 Suc_leI le_eq_less_or_eq Suc_le_lessD)

text \<open>The string \<open>p\<close> occurs in \<open>xs\<close> at position \<open>i\<close>.\<close>

definition matches_at :: "'a list \<Rightarrow> 'a list \<Rightarrow> nat \<Rightarrow> bool" where
  "matches_at p xs i \<longleftrightarrow> take (length p) (drop i xs) = p"

definition occurrences :: "'a list \<Rightarrow> 'a list \<Rightarrow> nat" where
  "occurrences p xs = card {i. i + length p \<le> length xs \<and> matches_at p xs i}"

lemma matches_at_nth:
  "i + length p \<le> length xs \<Longrightarrow> matches_at p xs i \<longleftrightarrow> (\<forall>j < length p. xs ! (i + j) = p ! j)"
  by (auto simp: matches_at_def list_eq_iff_nth_eq)

text \<open>
  \<open>strncmp(s + i, t, n) == 0\<close>: the comparison reads on until a difference, a NUL in both strings,
  or \<open>n\<close> characters. A read outside either buffer fails.
\<close>

fun strncmp_eq :: "buffer \<Rightarrow> nat \<Rightarrow> buffer \<Rightarrow> nat \<Rightarrow> nat \<Rightarrow> bool option" where
  "strncmp_eq s i t j 0 = Some True"
| "strncmp_eq s i t j (Suc n) = do {
     a \<leftarrow> ld8 s i;
     b \<leftarrow> ld8 t j;
     if a \<noteq> b then Some False
     else if a = 0 then Some True
     else strncmp_eq s (Suc i) t (Suc j) n }"

lemma strncmp_eq_matches:
  assumes "i + n \<le> length s" "j + n \<le> length t" "0 \<notin> set (take n (drop j t))"
  shows "strncmp_eq s i t j n = Some (\<forall>k < n. s ! (i + k) = t ! (j + k))"
  using assms
proof (induction n arbitrary: i j)
  case 0
  show ?case by simp
next
  case (Suc n)
  have d: "drop j t = t ! j # drop (Suc j) t" using Suc.prems by (simp add: Cons_nth_drop_Suc)
  have nz: "t ! j \<noteq> 0" "0 \<notin> set (take n (drop (Suc j) t))" using Suc.prems(3) by (auto simp: d)
  have "strncmp_eq s (Suc i) t (Suc j) n = Some (\<forall>k < n. s ! (Suc i + k) = t ! (Suc j + k))"
    using Suc.prems nz by (intro Suc.IH) auto
  moreover have "(\<forall>k < Suc n. s ! (i + k) = t ! (j + k)) \<longleftrightarrow>
    s ! i = t ! j \<and> (\<forall>k < n. s ! (Suc i + k) = t ! (Suc j + k))"
    by (auto simp: less_Suc_eq_0_disj)
  ultimately show ?case using Suc.prems nz by (auto simp: ld8_def)
qed

lemma strncmp_eq_target:
  assumes "i + length p \<le> length s" "0 \<notin> set p"
  shows "strncmp_eq s i (p @ xs) 0 (length p) = Some (matches_at p s i)"
proof -
  have "strncmp_eq s i (p @ xs) 0 (length p) = Some (\<forall>k < length p. s ! (i + k) = (p @ xs) ! (0 + k))"
    using assms by (intro strncmp_eq_matches) auto
  then show ?thesis using assms(1) by (simp add: matches_at_nth nth_append)
qed

text \<open>\<open>strlen(s)\<close>; without a NUL in the buffer it reads outside.\<close>

fun strlen :: "buffer \<Rightarrow> nat option" where
  "strlen [] = None"
| "strlen (c # s) = (if c = 0 then Some 0 else map_option Suc (strlen s))"

lemma strlen_eq: "0 \<notin> set p \<Longrightarrow> strlen (p @ 0 # xs) = Some (length p)"
  by (induction p) auto

subsection \<open>Occurrences in parts of a text\<close>

lemma finite_occurrences [simp]: "finite {i. i + length p \<le> length xs \<and> matches_at p xs i}"
  by (rule finite_subset [of _ "{..length xs}"]) auto

lemma occurrences_prefix:
  "occurrences p xs = card {i. i < length xs - length p + 1 \<and> matches_at p xs i}" if "length p \<le> length xs"
proof -
  have "i < length xs - length p + 1 \<longleftrightarrow> i + length p \<le> length xs" for i using that by linarith
  then show ?thesis by (simp only: occurrences_def)
qed

lemma matches_at_append1: "i + length p \<le> length xs \<Longrightarrow> matches_at p (xs @ ys) i = matches_at p xs i"
  by (simp add: matches_at_def)

lemma matches_at_append2: "matches_at p (xs @ ys) (length xs + i) = matches_at p ys i"
  by (simp add: matches_at_def)

text \<open>Occurrences in a concatenation: those in the parts, and those that straddle the boundary.\<close>

definition straddles :: "'a list \<Rightarrow> 'a list \<Rightarrow> 'a list \<Rightarrow> nat" where
  "straddles p xs ys = card {i. i < length xs \<and> length xs < i + length p \<and> i + length p \<le> length xs + length ys \<and>
     matches_at p (xs @ ys) i}"

lemma occurrences_append:
  assumes "p \<noteq> []"
  shows "occurrences p (xs @ ys) = occurrences p xs + occurrences p ys + straddles p xs ys"
proof -
  let ?M = "matches_at p (xs @ ys)"
  let ?A = "{i. i + length p \<le> length xs \<and> matches_at p xs i}"
  let ?B = "(+) (length xs) ` {i. i + length p \<le> length ys \<and> matches_at p ys i}"
  let ?C = "{i. i < length xs \<and> length xs < i + length p \<and> i + length p \<le> length xs + length ys \<and> ?M i}"
  have "{i. i + length p \<le> length (xs @ ys) \<and> ?M i} = (?A \<union> ?B) \<union> ?C"
  proof (intro equalityI subsetI)
    fix i
    assume i: "i \<in> {i. i + length p \<le> length (xs @ ys) \<and> ?M i}"
    consider "i + length p \<le> length xs" | "length xs \<le> i" | "i < length xs" "length xs < i + length p" by linarith
    then show "i \<in> (?A \<union> ?B) \<union> ?C"
    proof cases
      case 2
      then obtain j where "i = length xs + j" by (metis le_iff_add)
      with i have "j + length p \<le> length ys" "matches_at p ys j" by (simp_all add: matches_at_append2)
      with \<open>i = length xs + j\<close> show ?thesis by simp
    qed (use i in \<open>auto simp: matches_at_append1\<close>)
  next
    fix i
    assume "i \<in> (?A \<union> ?B) \<union> ?C"
    then show "i \<in> {i. i + length p \<le> length (xs @ ys) \<and> ?M i}"
      by (auto simp: matches_at_append1 matches_at_append2)
  qed
  moreover have "finite ?C" by (rule finite_subset [of _ "{..length xs}"]) auto
  moreover have "(?A \<union> ?B) \<inter> ?C = {}" "?A \<inter> ?B = {}" using assms by (auto simp: neq_Nil_conv)
  moreover have "card ?B = occurrences p ys" unfolding occurrences_def by (rule card_image) simp
  ultimately show ?thesis
    by (simp add: occurrences_def straddles_def card_Un_disjoint del: length_append)
qed

text \<open>A text cut into chunks.\<close>

fun cut_straddles :: "'a list \<Rightarrow> 'a list list \<Rightarrow> nat" where
  "cut_straddles p [] = 0"
| "cut_straddles p (c # cs) = straddles p c (concat cs) + cut_straddles p cs"

lemma occurrences_Nil [simp]: "p \<noteq> [] \<Longrightarrow> occurrences p [] = 0"
  by (simp add: occurrences_def)

lemma occurrences_concat:
  "p \<noteq> [] \<Longrightarrow> occurrences p (concat cs) = (\<Sum>c\<leftarrow>cs. occurrences p c) + cut_straddles p cs"
  by (induction cs) (simp_all add: occurrences_append)

section \<open>Output\<close>

text \<open>
  A line a program prints: the format string and its integer arguments. Arguments of type double
  (elapsed times) are left out.
\<close>

datatype event = Printf string "cint list"

end
