(* ===== verification/Ebpf_Programs.thy ===== *)
theory Ebpf_Programs
  imports C_Prelude
begin

text \<open>
  The eBPF programs of \<open>src/eBPF_program\<close> that the SSD runs on the blocks of a request: matrix sums
  (\<open>npsum.c\<close>), embedding accumulation (\<open>embedding32.c\<close>, \<open>embedding64.c\<close>), counting non-blanks
  (\<open>wc.c\<close>), counting the occurrences of a word (\<open>strfilter.c\<close>) and the constant program \<open>pass.c\<close>.

  A program gets a context with five integer parameters, the request's data and its map page. It
  returns \<open>Some (r, page)\<close>, its return value and the map page it leaves, or \<open>None\<close> when it accesses
  memory outside the data or the map page. Integer addition wraps, as the compiled programs' does.
\<close>

section \<open>The context\<close>

record ebpf_ctx =
  param0 :: cint
  param1 :: cint
  param2 :: cint
  param3 :: cint
  param4 :: cint
  ctx_data :: buffer
  ctx_map_page :: buffer

type_synonym ebpf_prog = "ebpf_ctx \<Rightarrow> (cint \<times> buffer) option"

abbreviation (input) PGSIZE :: nat where
  "PGSIZE \<equiv> 4096"

section \<open>npsum.c\<close>

abbreviation (input) AXIS0_LENGTH :: nat where
  "AXIS0_LENGTH \<equiv> 64"

abbreviation (input) AXIS1_LENGTH :: nat where
  "AXIS1_LENGTH \<equiv> 1024"

abbreviation (input) NUM_ELEMENTS :: nat where
  "NUM_ELEMENTS \<equiv> AXIS0_LENGTH * AXIS1_LENGTH"

text \<open>
  \<open>for (i = 0; i < rows; i++) for (j = 0; j < cols; j++) result[j] += array[i * cols + j];\<close>
\<close>

definition col_sums :: "nat \<Rightarrow> nat \<Rightarrow> buffer \<Rightarrow> buffer \<Rightarrow> buffer option" where
  "col_sums rows cols array result_array =
     for_loop rows (\<lambda>i res. vec_add cols array (i * cols) 0 res) result_array"

definition npsum :: ebpf_prog where
  "npsum ctx =
     (let axis = param0 ctx; array = ctx_data ctx; result_array = ctx_map_page ctx in
      if axis = 0 then do {
        result_array \<leftarrow> col_sums AXIS0_LENGTH AXIS1_LENGTH array result_array;
        Some (0, result_array) }
      else if axis = 1 then do {
        result_array \<leftarrow> col_sums AXIS1_LENGTH AXIS0_LENGTH array result_array;
        Some (0, result_array) }
      else do {
        ret \<leftarrow> sum_loop NUM_ELEMENTS array 0;
        Some (ret, result_array) })"

section \<open>embedding32.c and embedding64.c\<close>

text \<open>
  The two programs differ in the vector length and the return value. The offsets are unsigned
  32-bit products; \<open>result_id\<close> is converted to unsigned by the multiplication.
\<close>

definition embedding :: "cint \<Rightarrow> cint \<Rightarrow> ebpf_prog" where
  "embedding vector_length ret ctx =
     (let attribute_size = 4;
          off = param1 ctx mod (4096 div (attribute_size * vector_length));
          target_vector = unat (vector_length * off);
          map_ptr = unat (vector_length * param0 ctx)
      in do {
        page \<leftarrow> vec_add (unat vector_length) (ctx_data ctx) target_vector map_ptr (ctx_map_page ctx);
        Some (ret, page) })"

definition embedding32 :: ebpf_prog where
  "embedding32 = embedding 32 0"

definition embedding64 :: ebpf_prog where
  "embedding64 = embedding 64 4"

section \<open>wc.c\<close>

definition wc :: ebpf_prog where
  "wc ctx = do {
     cnt \<leftarrow> count_loop (PGSIZE * 8) (\<lambda>i. do { c \<leftarrow> ld8 (ctx_data ctx) i; Some (c \<noteq> 32) }) 0;
     Some (cnt, ctx_map_page ctx) }"

section \<open>strfilter.c\<close>

definition Lorem :: "byte list" where
  "Lorem = [76, 111, 114, 101, 109]"

text \<open>
  \<open>for (j = 0; j < len; j++) if (it[i+j] != target[j]) break;\<close>, the value of \<open>j\<close> after the loop.
\<close>

function match_loop :: "buffer \<Rightarrow> nat \<Rightarrow> byte list \<Rightarrow> nat \<Rightarrow> nat \<Rightarrow> nat option" where
  "match_loop s i target len j =
     (if j < len then do {
        c \<leftarrow> ld8 s (i + j);
        t \<leftarrow> ld8 target j;
        if c \<noteq> t then Some j else match_loop s i target len (j + 1) }
      else Some j)"
  by pat_completeness auto
termination
  by (relation "measure (\<lambda>(s, i, target, len, j). len - j)") auto

declare match_loop.simps [simp del]

definition strfilter :: ebpf_prog where
  "strfilter ctx =
     (let s = ctx_data ctx; target = Lorem @ replicate 11 0; target_len = 5
      in do {
        cnt \<leftarrow> count_loop (PGSIZE * 128 - target_len)
          (\<lambda>i. do {
             c \<leftarrow> ld8 s i;
             t \<leftarrow> ld8 target 0;
             if c = t then do {
               j \<leftarrow> match_loop s i target target_len 0;
               Some (j = target_len) }
             else Some False }) 0;
        Some (cnt, ctx_map_page ctx) })"

section \<open>pass.c\<close>

definition pass_prog :: ebpf_prog where
  "pass_prog ctx = Some (1, ctx_map_page ctx)"

section \<open>What the programs compute\<close>

subsection \<open>Matrix sums\<close>

text \<open>
  The specification of the column loops on arrays of ints: the first \<open>cols\<close> entries of the result
  gain the sums of the columns of the row-major \<open>rows * cols\<close> matrix \<open>xs\<close>.
\<close>

definition col_sum :: "nat \<Rightarrow> nat \<Rightarrow> cint list \<Rightarrow> nat \<Rightarrow> cint" where
  "col_sum rows cols xs k = (\<Sum>i<rows. xs ! (i * cols + k))"

definition add_cols :: "nat \<Rightarrow> nat \<Rightarrow> cint list \<Rightarrow> cint list \<Rightarrow> cint list" where
  "add_cols rows cols xs ys =
     map (\<lambda>k. if k < cols then ys ! k + col_sum rows cols xs k else ys ! k) [0..<length ys]"

lemma length_add_cols [simp]: "length (add_cols rows cols xs ys) = length ys"
  by (simp add: add_cols_def)

lemma nth_add_cols:
  "k < length ys \<Longrightarrow> add_cols rows cols xs ys ! k = (if k < cols then ys ! k + col_sum rows cols xs k else ys ! k)"
  by (simp add: add_cols_def)

lemma add_cols_0 [simp]: "add_cols 0 cols xs ys = ys"
  by (rule nth_equalityI) (simp_all add: nth_add_cols col_sum_def)

lemma add_cols_Suc: "add_cols (Suc rows) cols xs ys = add_at cols xs (rows * cols) 0 (add_cols rows cols xs ys)"
  by (rule nth_equalityI) (simp_all add: nth_add_cols nth_add_at col_sum_def add.assoc)

lemma col_sums_eq:
  assumes "rows * cols \<le> length array div 4" "cols \<le> length res div 4"
  shows "\<exists>res'. col_sums rows cols array res = Some res' \<and> length res' = length res \<and>
           ints_of res' = add_cols rows cols (ints_of array) (ints_of res)"
  unfolding col_sums_def
proof (rule for_loop_inv [where P = "\<lambda>i r. length r = length res \<and>
    ints_of r = add_cols i cols (ints_of array) (ints_of res)"])
  fix i r
  assume i: "i < rows" and r: "length r = length res \<and> ints_of r = add_cols i cols (ints_of array) (ints_of res)"
  from i have "i * cols + cols \<le> rows * cols"
    using mult_le_mono1 [of "Suc i" rows cols] by simp
  with assms(1) have "i * cols + cols \<le> length array div 4" by linarith
  moreover have "0 + cols \<le> length r div 4" using assms(2) r by simp
  ultimately show "\<exists>s'. vec_add cols array (i * cols) 0 r = Some s' \<and> length s' = length res \<and>
      ints_of s' = add_cols (Suc i) cols (ints_of array) (ints_of res)"
    using vec_add_eq [of "i * cols" cols array 0 r] r by (auto simp: add_cols_Suc)
qed simp

lemma col_sums_fault:
  assumes "length array div 4 < rows * cols" "0 < cols"
  shows "col_sums rows cols array res = None"
proof -
  let ?f = "\<lambda>i res. vec_add cols array (i * cols) 0 res"
  define i where "i = length array div 4 div cols"
  have i: "i < rows" using assms by (simp add: i_def less_mult_imp_div_less)
  have "length array div 4 < i * cols + cols"
    using assms(2) dividend_less_div_times [of cols "length array div 4"] by (simp add: i_def add.commute)
  then have "for_loop (Suc i) ?f res = None"
    by (cases "for_loop i ?f res") (simp_all add: assms(2) vec_add_src_out_of_bounds)
  with i show ?thesis unfolding col_sums_def by (auto intro: for_loop_fail simp del: for_loop.simps)
qed

text \<open>The column sums of a matrix add up to the sum of its entries.\<close>

lemma sum_list_take_mult:
  "sum_list (take (Suc rows * cols) xs) = sum_list (take (rows * cols) xs) + (\<Sum>k<cols. xs ! (rows * cols + k))"
  if "Suc rows * cols \<le> length xs" for xs :: "'a :: comm_monoid_add list"
proof -
  have "take (Suc rows * cols) xs = take (rows * cols) xs @ take cols (drop (rows * cols) xs)"
    by (simp add: take_add [symmetric] add.commute)
  moreover have "sum_list (take cols (drop (rows * cols) xs)) = (\<Sum>k<cols. xs ! (rows * cols + k))"
    using that by (simp add: sum_list_sum_nth atLeast0LessThan min.absorb1 add.commute)
  ultimately show ?thesis by simp
qed

lemma sum_col_sum:
  "rows * cols \<le> length xs \<Longrightarrow> (\<Sum>k<cols. col_sum rows cols xs k) = sum_list (take (rows * cols) xs)"
proof (induction rows)
  case 0
  show ?case by (simp add: col_sum_def)
next
  case (Suc rows)
  then have "(\<Sum>k<cols. col_sum rows cols xs k) = sum_list (take (rows * cols) xs)" by simp
  with sum_list_take_mult [OF Suc.prems] show ?case by (simp add: col_sum_def sum.distrib)
qed

lemma npsum_axis0_eq:
  assumes "param0 ctx = 0" "262144 \<le> length (ctx_data ctx)" "length (ctx_map_page ctx) = PGSIZE"
  shows "\<exists>page. npsum ctx = Some (0, page) \<and> length page = PGSIZE \<and>
    ints_of page = add_cols 64 1024 (ints_of (ctx_data ctx)) (ints_of (ctx_map_page ctx))"
proof -
  have "64 * 1024 \<le> length (ctx_data ctx) div 4" using assms(2) by linarith
  with assms obtain page where "col_sums 64 1024 (ctx_data ctx) (ctx_map_page ctx) = Some page" "length page = 4096"
    "ints_of page = add_cols 64 1024 (ints_of (ctx_data ctx)) (ints_of (ctx_map_page ctx))"
    using col_sums_eq [of 64 1024 "ctx_data ctx" "ctx_map_page ctx"] by auto
  with assms(1) show ?thesis by (simp add: npsum_def)
qed

lemma npsum_axis1_eq:
  assumes "param0 ctx = 1" "262144 \<le> length (ctx_data ctx)" "length (ctx_map_page ctx) = PGSIZE"
  shows "\<exists>page. npsum ctx = Some (0, page) \<and> length page = PGSIZE \<and>
    ints_of page = add_cols 1024 64 (ints_of (ctx_data ctx)) (ints_of (ctx_map_page ctx))"
proof -
  have "1024 * 64 \<le> length (ctx_data ctx) div 4" using assms(2) by linarith
  with assms obtain page where "col_sums 1024 64 (ctx_data ctx) (ctx_map_page ctx) = Some page" "length page = 4096"
    "ints_of page = add_cols 1024 64 (ints_of (ctx_data ctx)) (ints_of (ctx_map_page ctx))"
    using col_sums_eq [of 1024 64 "ctx_data ctx" "ctx_map_page ctx"] by auto
  with assms(1) show ?thesis by (simp add: npsum_def)
qed

lemma npsum_noaxis_eq:
  assumes "param0 ctx \<noteq> 0" "param0 ctx \<noteq> 1" "262144 \<le> length (ctx_data ctx)"
  shows "npsum ctx = Some (sum_list (take 65536 (ints_of (ctx_data ctx))), ctx_map_page ctx)"
  using assms by (simp add: npsum_def Let_def sum_loop_eq)

lemma npsum_short_data: "length (ctx_data ctx) < 262144 \<Longrightarrow> param0 ctx \<noteq> 0 \<Longrightarrow> param0 ctx \<noteq> 1 \<Longrightarrow> npsum ctx = None"
  by (simp add: npsum_def Let_def sum_loop_eq)

subsection \<open>Embedding accumulation\<close>

lemma unat_mod_32: "unat (w mod 32 :: cint) = unat w mod 32"
  by (simp add: unat_mod)

lemma unat_mod_16: "unat (w mod 16 :: cint) = unat w mod 16"
  by (simp add: unat_mod)

lemma embedding32_offsets:
  "unat (32 * (e mod 32) :: cint) = 32 * (unat e mod 32)"
  "unat (32 * r :: cint) = 32 * (unat r mod 134217728)"
  by (simp_all add: unat_word_ariths unat_mod_32 mult_mod_right)

lemma embedding64_offsets:
  "unat (64 * (e mod 16) :: cint) = 64 * (unat e mod 16)"
  "unat (64 * r :: cint) = 64 * (unat r mod 67108864)"
  by (simp_all add: unat_word_ariths unat_mod_16 mult_mod_right)

lemma embedding32_unfold:
  "embedding32 ctx = do {
     page \<leftarrow> vec_add 32 (ctx_data ctx) (32 * (unat (param1 ctx) mod 32))
       (32 * (unat (param0 ctx) mod 134217728)) (ctx_map_page ctx);
     Some (0, page) }"
  by (simp add: embedding32_def embedding_def Let_def embedding32_offsets unat_mod_32)

lemma embedding64_unfold:
  "embedding64 ctx = do {
     page \<leftarrow> vec_add 64 (ctx_data ctx) (64 * (unat (param1 ctx) mod 16))
       (64 * (unat (param0 ctx) mod 67108864)) (ctx_map_page ctx);
     Some (4, page) }"
  by (simp add: embedding64_def embedding_def Let_def embedding64_offsets unat_mod_16)

lemma embedding32_eq:
  assumes "PGSIZE \<le> length (ctx_data ctx)" "length (ctx_map_page ctx) = PGSIZE" "unat (param0 ctx) < 32"
  shows "\<exists>page. embedding32 ctx = Some (0, page) \<and> length page = PGSIZE \<and>
    ints_of page = add_at 32 (ints_of (ctx_data ctx)) (32 * (unat (param1 ctx) mod 32))
      (32 * unat (param0 ctx)) (ints_of (ctx_map_page ctx))"
proof -
  have "unat (param1 ctx) mod 32 < 32" "1024 \<le> length (ctx_data ctx) div 4"
    using assms(1) by simp_all
  then have "32 * (unat (param1 ctx) mod 32) + 32 \<le> length (ctx_data ctx) div 4"
    by linarith
  moreover have "32 * unat (param0 ctx) + 32 \<le> length (ctx_map_page ctx) div 4"
    using assms(2,3) by simp
  ultimately show ?thesis
    using vec_add_eq [of "32 * (unat (param1 ctx) mod 32)" 32 "ctx_data ctx"
        "32 * unat (param0 ctx)" "ctx_map_page ctx"] assms(2,3)
    by (auto simp: embedding32_unfold)
qed

lemma embedding64_eq:
  assumes "PGSIZE \<le> length (ctx_data ctx)" "length (ctx_map_page ctx) = PGSIZE" "unat (param0 ctx) < 16"
  shows "\<exists>page. embedding64 ctx = Some (4, page) \<and> length page = PGSIZE \<and>
    ints_of page = add_at 64 (ints_of (ctx_data ctx)) (64 * (unat (param1 ctx) mod 16))
      (64 * unat (param0 ctx)) (ints_of (ctx_map_page ctx))"
proof -
  have "unat (param1 ctx) mod 16 < 16" "1024 \<le> length (ctx_data ctx) div 4"
    using assms(1) by simp_all
  then have "64 * (unat (param1 ctx) mod 16) + 64 \<le> length (ctx_data ctx) div 4"
    by linarith
  moreover have "64 * unat (param0 ctx) + 64 \<le> length (ctx_map_page ctx) div 4"
    using assms(2,3) by simp
  ultimately show ?thesis
    using vec_add_eq [of "64 * (unat (param1 ctx) mod 16)" 64 "ctx_data ctx"
        "64 * unat (param0 ctx)" "ctx_map_page ctx"] assms(2,3)
    by (auto simp: embedding64_unfold)
qed

lemma embedding32_fault:
  assumes "length (ctx_map_page ctx) = PGSIZE" "32 \<le> unat (param0 ctx) mod 134217728"
  shows "embedding32 ctx = None"
proof -
  have "vec_add 32 (ctx_data ctx) (32 * (unat (param1 ctx) mod 32))
       (32 * (unat (param0 ctx) mod 134217728)) (ctx_map_page ctx) = None"
    using assms by (intro vec_add_out_of_bounds) auto
  then show ?thesis by (simp add: embedding32_unfold)
qed

lemma embedding32_mod:
  assumes "PGSIZE \<le> length (ctx_data ctx)" "length (ctx_map_page ctx) = PGSIZE" "unat (param0 ctx) mod 134217728 < 32"
  shows "embedding32 ctx \<noteq> None"
proof -
  have "unat (param1 ctx) mod 32 < 32" "1024 \<le> length (ctx_data ctx) div 4"
    using assms(1) by simp_all
  then have "32 * (unat (param1 ctx) mod 32) + 32 \<le> length (ctx_data ctx) div 4"
    by linarith
  moreover have "32 * (unat (param0 ctx) mod 134217728) + 32 \<le> length (ctx_map_page ctx) div 4"
    using assms(2,3) by simp
  ultimately show ?thesis
    using vec_add_eq [of "32 * (unat (param1 ctx) mod 32)" 32 "ctx_data ctx"
        "32 * (unat (param0 ctx) mod 134217728)" "ctx_map_page ctx"]
    by (auto simp: embedding32_unfold)
qed

subsection \<open>Counting\<close>

lemma wc_eq:
  "PGSIZE * 8 \<le> length (ctx_data ctx) \<Longrightarrow>
   wc ctx = Some (of_nat (length (filter (\<lambda>c. c \<noteq> 32) (take (PGSIZE * 8) (ctx_data ctx)))), ctx_map_page ctx)"
  unfolding wc_def by (subst count_loop_filter) simp_all

lemma length_Lorem [simp]: "length Lorem = 5"
  by (simp add: Lorem_def)

lemma match_loop_eq:
  assumes "i + len \<le> length s" "len \<le> length t" "j \<le> len"
  shows "\<exists>j'. match_loop s i t len j = Some j' \<and>
    (j' = len \<longleftrightarrow> (\<forall>k. j \<le> k \<and> k < len \<longrightarrow> s ! (i + k) = t ! k))"
  using assms
proof (induction s i t len j rule: match_loop.induct)
  case (1 s i t len j)
  show ?case
  proof (cases "j < len \<and> s ! (i + j) = t ! j")
    case True
    with "1.prems" "1.IH" [of "s ! (i + j)" "t ! j"] obtain j' where
      "match_loop s i t len (j + 1) = Some j'"
      "j' = len \<longleftrightarrow> (\<forall>k. j + 1 \<le> k \<and> k < len \<longrightarrow> s ! (i + k) = t ! k)"
      by (auto simp: ld8_def)
    moreover have "(\<forall>k. j \<le> k \<and> k < len \<longrightarrow> s ! (i + k) = t ! k) \<longleftrightarrow>
      s ! (i + j) = t ! j \<and> (\<forall>k. j + 1 \<le> k \<and> k < len \<longrightarrow> s ! (i + k) = t ! k)"
      by (rule all_from_Suc) (use True in simp)
    ultimately show ?thesis
      using True "1.prems" by (subst match_loop.simps) (simp add: ld8_def)
  next
    case False
    with "1.prems" show ?thesis
      by (subst match_loop.simps) (auto simp: ld8_def)
  qed
qed

text \<open>The test of the outer loop decides whether the word occurs at \<open>i\<close>.\<close>

lemma Lorem_prefix: "(\<forall>k<5. (s :: byte list) ! (i + k) = (Lorem @ xs) ! k) \<longleftrightarrow> matches_at Lorem s i"
  if "i + 5 \<le> length s"
  using that by (auto simp: matches_at_nth nth_append)

lemma strfilter_test:
  assumes "i + 5 \<le> length s"
  shows "do { c \<leftarrow> ld8 s i; t \<leftarrow> ld8 (Lorem @ replicate 11 0) 0;
     if c = t then do { j \<leftarrow> match_loop s i (Lorem @ replicate 11 0) 5 0; Some (j = 5) } else Some False } =
   Some (matches_at Lorem s i)"
proof -
  obtain j where j: "match_loop s i (Lorem @ replicate 11 0) 5 0 = Some j"
    "j = 5 \<longleftrightarrow> (\<forall>k<5. s ! (i + k) = (Lorem @ replicate 11 0) ! k)"
    using match_loop_eq [of i 5 s "Lorem @ replicate 11 0" 0] assms by auto
  then have "j = 5 \<longleftrightarrow> matches_at Lorem s i" using Lorem_prefix [OF assms] by blast
  moreover have "matches_at Lorem s i \<Longrightarrow> s ! i = Lorem ! 0"
    using assms matches_at_nth [of i Lorem s] by (metis add_0_right length_Lorem zero_less_numeral)
  ultimately show ?thesis using assms j(1) by (auto simp: ld8_def nth_append)
qed

lemma strfilter_count:
  assumes "n + 4 \<le> length s"
  shows "count_loop n (\<lambda>i. do { c \<leftarrow> ld8 s i; t \<leftarrow> ld8 (Lorem @ replicate 11 0) 0;
      if c = t then do { j \<leftarrow> match_loop s i (Lorem @ replicate 11 0) 5 0; Some (j = 5) } else Some False }) 0 =
    Some (of_nat (card {i. i < n \<and> matches_at Lorem s i}))"
proof -
  have "count_loop n (\<lambda>i. do { c \<leftarrow> ld8 s i; t \<leftarrow> ld8 (Lorem @ replicate 11 0) 0;
      if c = t then do { j \<leftarrow> match_loop s i (Lorem @ replicate 11 0) 5 0; Some (j = 5) } else Some False }) 0 =
    Some (0 + of_nat (card {i. i < n \<and> matches_at Lorem s i}))"
    by (rule count_loop_eq, rule strfilter_test) (use assms in linarith)
  then show ?thesis by simp
qed

lemma strfilter_eq:
  assumes "524288 \<le> length (ctx_data ctx)"
  shows "strfilter ctx =
    Some (of_nat (card {i. i < 524283 \<and> matches_at Lorem (ctx_data ctx) i}), ctx_map_page ctx)"
proof -
  have "524283 + 4 \<le> length (ctx_data ctx)" using assms by linarith
  moreover have "PGSIZE * 128 - 5 = 524283" by simp
  ultimately show ?thesis
    unfolding strfilter_def Let_def by (simp only: strfilter_count) (simp only: Option.bind.simps)
qed

lemma strfilter_short: "length (ctx_data ctx) < 524283 \<Longrightarrow> strfilter ctx = None"
proof -
  assume len: "length (ctx_data ctx) < 524283"
  have "PGSIZE * 128 - 5 = 524283" by simp
  moreover have "count_loop 524283 (\<lambda>i. do { c \<leftarrow> ld8 (ctx_data ctx) i; t \<leftarrow> ld8 (Lorem @ replicate 11 0) 0;
      if c = t then do { j \<leftarrow> match_loop (ctx_data ctx) i (Lorem @ replicate 11 0) 5 0; Some (j = 5) } else Some False }) 0 = None"
    using len by (intro count_loop_fault [of "length (ctx_data ctx)"]) (simp_all add: ld8_def)
  ultimately show ?thesis unfolding strfilter_def Let_def by (simp only: Option.bind.simps)
qed

lemma occurrences_split_last:
  assumes "length p \<le> length xs" "p \<noteq> []"
  shows "occurrences p xs = card {i. i < length xs - length p \<and> matches_at p xs i} +
    (if matches_at p xs (length xs - length p) then 1 else 0)"
proof -
  have "{i. i + length p \<le> length xs \<and> matches_at p xs i} = {i. i < Suc (length xs - length p) \<and> matches_at p xs i}"
    using assms by auto
  then show ?thesis by (simp only: occurrences_def card_less_Suc_if)
qed

section \<open>The map page keeps its length\<close>

text \<open>What the SSD relies on when it stores the map page a program leaves.\<close>

locale ebpf_program =
  fixes prog :: ebpf_prog
  assumes keeps_page: "prog ctx = Some (r, pg) \<Longrightarrow> length pg = length (ctx_map_page ctx)"

lemma col_sums_length: "col_sums rows cols array res = Some res' \<Longrightarrow> length res' = length res"
  unfolding col_sums_def by (rule for_loop_length) (auto dest: vec_add_length)

interpretation npsum: ebpf_program npsum
  by unfold_locales
    (auto simp: npsum_def Let_def bind_eq_Some_conv dest: col_sums_length split: if_splits)

interpretation emb32: ebpf_program embedding32
  by unfold_locales (auto simp: embedding32_unfold bind_eq_Some_conv dest: vec_add_length)

interpretation emb64: ebpf_program embedding64
  by unfold_locales (auto simp: embedding64_unfold bind_eq_Some_conv dest: vec_add_length)

interpretation wcprog: ebpf_program wc
  by unfold_locales (auto simp: wc_def bind_eq_Some_conv)

interpretation strf: ebpf_program strfilter
  by unfold_locales (auto simp: strfilter_def Let_def bind_eq_Some_conv)

interpretation passp: ebpf_program pass_prog
  by unfold_locales (simp add: pass_prog_def)

lemma counting_keeps_page:
  "p \<in> {wc, strfilter, pass_prog} \<Longrightarrow> p ctx = Some (r, pg) \<Longrightarrow> pg = ctx_map_page ctx"
  by (auto simp: wc_def strfilter_def pass_prog_def Let_def bind_eq_Some_conv)

section \<open>Properties\<close>

text \<open>
  C19: npsum.c on a request of one matrix. With axis 0 the map page gains the column sums of the
  64 x 1024 matrix, with axis 1 those of the same entries read as 1024 x 64, and otherwise the
  program returns the sum of all entries and leaves the page alone.
\<close>

theorem npsum_correct:
  assumes "length (ctx_data ctx) = 262144" "length (ctx_map_page ctx) = PGSIZE"
  shows "\<exists>ret page. npsum ctx = Some (ret, page) \<and> length page = PGSIZE \<and>
    (if param0 ctx = 0 then ret = 0 \<and>
       ints_of page = add_cols 64 1024 (ints_of (ctx_data ctx)) (ints_of (ctx_map_page ctx))
     else if param0 ctx = 1 then ret = 0 \<and>
       ints_of page = add_cols 1024 64 (ints_of (ctx_data ctx)) (ints_of (ctx_map_page ctx))
     else ret = sum_list (ints_of (ctx_data ctx)) \<and> page = ctx_map_page ctx)"
  using npsum_axis0_eq [of ctx] npsum_axis1_eq [of ctx] npsum_noaxis_eq [of ctx] assms by auto

theorem npsum_correct_witness:
  "\<exists>ret page. npsum \<lparr>param0 = 0, param1 = 0, param2 = 0, param3 = 0, param4 = 0,
      ctx_data = replicate 262144 1, ctx_map_page = replicate 4096 0\<rparr> = Some (ret, page) \<and> length page = 4096 \<and> ret = 0 \<and>
    ints_of page = add_cols 64 1024 (ints_of (replicate 262144 1)) (ints_of (replicate 4096 0))"
  using npsum_correct [of "\<lparr>param0 = 0, param1 = 0, param2 = 0, param3 = 0, param4 = 0,
      ctx_data = replicate 262144 1, ctx_map_page = replicate 4096 0\<rparr>"] by simp

text \<open>
  The three modes of npsum.c agree: starting from a clear map page, the sums along axis 0 and
  the sums along axis 1 each add up to the sum of all entries, modulo 2 to the 32.
\<close>

lemma npsum_modes_agree:
  assumes "length array = 262144"
    and "npsum \<lparr>param0 = 0, param1 = p1, param2 = p2, param3 = p3, param4 = p4, ctx_data = array, ctx_map_page = replicate 4096 0\<rparr> = Some (r0, page0)"
    and "npsum \<lparr>param0 = 1, param1 = p1, param2 = p2, param3 = p3, param4 = p4, ctx_data = array, ctx_map_page = replicate 4096 0\<rparr> = Some (r1, page1)"
    and "npsum \<lparr>param0 = 3, param1 = p1, param2 = p2, param3 = p3, param4 = p4, ctx_data = array, ctx_map_page = replicate 4096 0\<rparr> = Some (r3, page3)"
  shows "(\<Sum>k<1024. ints_of page0 ! k) = r3 \<and> (\<Sum>k<64. ints_of page1 ! k) = r3"
proof -
  have len: "length (ints_of array) = 65536" using assms(1) by simp
  have 0: "ints_of page0 = add_cols 64 1024 (ints_of array) (replicate 1024 0)"
    using npsum_axis0_eq [of "\<lparr>param0 = 0, param1 = p1, param2 = p2, param3 = p3, param4 = p4, ctx_data = array, ctx_map_page = replicate 4096 0\<rparr>"]
      assms(1,2) by auto
  have 1: "ints_of page1 = add_cols 1024 64 (ints_of array) (replicate 1024 0)"
    using npsum_axis1_eq [of "\<lparr>param0 = 1, param1 = p1, param2 = p2, param3 = p3, param4 = p4, ctx_data = array, ctx_map_page = replicate 4096 0\<rparr>"]
      assms(1,3) by auto
  have 3: "r3 = sum_list (ints_of array)"
    using npsum_noaxis_eq [of "\<lparr>param0 = 3, param1 = p1, param2 = p2, param3 = p3, param4 = p4, ctx_data = array, ctx_map_page = replicate 4096 0\<rparr>"]
      assms(1,4) by auto
  have "(\<Sum>k<1024. ints_of page0 ! k) = (\<Sum>k<1024. col_sum 64 1024 (ints_of array) k)"
    by (rule sum.cong) (simp_all add: 0 nth_add_cols)
  moreover have "(\<Sum>k<64. ints_of page1 ! k) = (\<Sum>k<64. col_sum 1024 64 (ints_of array) k)"
    by (rule sum.cong) (simp_all add: 1 nth_add_cols)
  ultimately show ?thesis
    using sum_col_sum [of 64 1024 "ints_of array"] sum_col_sum [of 1024 64 "ints_of array"] len 3 by simp
qed

text \<open>
  npsum.c stays inside its buffers exactly when the request covers a whole matrix of 256 KB,
  in every mode.
\<close>

lemma npsum_safe_iff:
  assumes "length (ctx_map_page ctx) = PGSIZE"
  shows "npsum ctx \<noteq> None \<longleftrightarrow> 262144 \<le> length (ctx_data ctx)"
proof (cases "262144 \<le> length (ctx_data ctx)")
  case True
  with npsum_axis0_eq [of ctx] npsum_axis1_eq [of ctx] npsum_noaxis_eq [of ctx] assms show ?thesis by auto
next
  case False
  then have "length (ctx_data ctx) div 4 < 64 * 1024" "length (ctx_data ctx) div 4 < 1024 * 64" by linarith+
  then have "col_sums 64 1024 (ctx_data ctx) page = None" "col_sums 1024 64 (ctx_data ctx) page = None" for page
    by (simp_all add: col_sums_fault)
  with False npsum_short_data [of ctx] show ?thesis by (auto simp: npsum_def Let_def)
qed

text \<open>
  C30: embedding32.c writes inside the map page exactly when the result id, taken modulo 2 to the 27,
  is below 32, and then adds the 32 entries of the embedding the second parameter selects to that
  slot and changes nothing else.
\<close>

theorem embedding32_safe_iff:
  assumes "PGSIZE \<le> length (ctx_data ctx)" "length (ctx_map_page ctx) = PGSIZE"
  shows "(embedding32 ctx \<noteq> None \<longleftrightarrow> unat (param0 ctx) mod 2 ^ 27 < 32) \<and>
    (unat (param0 ctx) < 32 \<longrightarrow> (\<exists>page. embedding32 ctx = Some (0, page) \<and> length page = PGSIZE \<and>
       (\<forall>k<1024. ints_of page ! k = ints_of (ctx_map_page ctx) ! k +
          (if k div 32 = unat (param0 ctx) then ints_of (ctx_data ctx) ! (32 * (unat (param1 ctx) mod 32) + k mod 32) else 0))))"
proof -
  have "embedding32 ctx \<noteq> None \<longleftrightarrow> unat (param0 ctx) mod 134217728 < 32"
    using embedding32_mod [OF assms] embedding32_fault [OF assms(2)] by (meson not_less)
  moreover have "\<exists>page. embedding32 ctx = Some (0, page) \<and> length page = PGSIZE \<and>
       (\<forall>k<1024. ints_of page ! k = ints_of (ctx_map_page ctx) ! k +
          (if k div 32 = unat (param0 ctx) then ints_of (ctx_data ctx) ! (32 * (unat (param1 ctx) mod 32) + k mod 32) else 0))"
    if r: "unat (param0 ctx) < 32"
    using embedding32_eq [OF assms r] assms(2) nth_add_slot [of _ "ints_of (ctx_map_page ctx)" 32 "ints_of (ctx_data ctx)"]
    by auto
  ultimately show ?thesis by simp
qed

theorem embedding32_safe_iff_witness:
  "embedding32 \<lparr>param0 = 32, param1 = 0, param2 = 0, param3 = 0, param4 = 0,
     ctx_data = replicate 4096 1, ctx_map_page = replicate 4096 0\<rparr> = None"
  using embedding32_safe_iff [of "\<lparr>param0 = 32, param1 = 0, param2 = 0, param3 = 0, param4 = 0,
     ctx_data = replicate 4096 1, ctx_map_page = replicate 4096 0\<rparr>"] by (simp del: not_None_eq)

text \<open>
  strfilter.c counts the occurrences of the word in its 128 pages, all but one that ends at the
  last byte: the count it returns is that of the occurrences, less one when the word stands at the
  very end of the data.
\<close>

lemma strfilter_misses_last_window:
  assumes "length (ctx_data ctx) = 524288"
  shows "\<exists>cnt. strfilter ctx = Some (of_nat cnt, ctx_map_page ctx) \<and>
    occurrences Lorem (ctx_data ctx) = cnt + (if drop 524283 (ctx_data ctx) = Lorem then 1 else 0)"
proof -
  have "matches_at Lorem (ctx_data ctx) 524283 \<longleftrightarrow> drop 524283 (ctx_data ctx) = Lorem"
    using assms by (simp add: matches_at_def)
  moreover have "524288 - 5 = (524283 :: nat)" by simp
  ultimately show ?thesis
    using occurrences_split_last [of Lorem "ctx_data ctx"] strfilter_eq [of ctx] assms
    by (intro exI conjI) (simp_all only: length_Lorem, auto simp: Lorem_def)
qed

text \<open>
  wc.c returns the number of bytes other than blanks in the first eight pages of its data, and
  faults when it is given less.
\<close>

lemma wc_correct:
  "wc ctx = (if 32768 \<le> length (ctx_data ctx)
     then Some (of_nat (length (filter (\<lambda>c. c \<noteq> 32) (take 32768 (ctx_data ctx)))), ctx_map_page ctx) else None)"
proof (cases "32768 \<le> length (ctx_data ctx)")
  case True
  with wc_eq [of ctx] show ?thesis by simp
next
  case False
  then have "count_loop (PGSIZE * 8) (\<lambda>i. do { c \<leftarrow> ld8 (ctx_data ctx) i; Some (c \<noteq> 32) }) 0 = None"
    by (intro count_loop_fault [of "length (ctx_data ctx)"]) (simp_all add: ld8_def)
  with False show ?thesis by (simp add: wc_def)
qed



end
