(* ===== verification/Nvme_Ioctl.thy ===== *)
theory Nvme_Ioctl
  imports Ebpf_Programs
begin

text \<open>
  The interface between the host programs and the SSD: the two request structures of
  \<open>linux/nvme_ioctl.h\<close> that the programs fill in, the kernel calls they are submitted with, and the
  contract of the in-storage processing SSD.

  The kernel and the SSD are not part of the repository. They are a parameter \<open>K\<close> of every host
  program: a record of functions over an unknown device state. A call gets the request, the user
  buffer its address points to and the device state, and gives the return value, the buffer and the
  device state afterwards. A failed \<open>open\<close> is a \<open>K\<close> whose every call returns an error.
\<close>

section \<open>Requests and kernel calls\<close>

record nvme_passthru_cmd =
  opcode :: byte
  flags :: byte
  rsvd1 :: "16 word"
  nsid :: cint
  cdw2 :: cint
  cdw3 :: cint
  metadata :: u64
  addr :: u64
  metadata_len :: cint
  data_len :: cint
  cdw10 :: cint
  cdw11 :: cint
  cdw12 :: cint
  cdw13 :: cint
  cdw14 :: cint
  cdw15 :: cint
  timeout_ms :: cint
  result :: cint

record nvme_user_io =
  io_opcode :: byte
  io_flags :: byte
  control :: "16 word"
  nblocks :: "16 word"
  rsvd :: "16 word"
  io_metadata :: u64
  io_addr :: u64
  io_slba :: u64
  dsmgmt :: cint
  reftag :: cint
  appmask :: "16 word"
  apptag :: "16 word"

text \<open>
  \<open>ioctl(fd, NVME_IOCTL_IO_CMD, cmd)\<close> also gives the value of \<open>cmd.result\<close> afterwards.
  \<open>pread(fd, buf, count, offset)\<close> returns the number of bytes read.
\<close>

record 'd kernel =
  ioctl_io_cmd :: "nvme_passthru_cmd \<Rightarrow> buffer \<Rightarrow> 'd \<Rightarrow> cint \<times> cint \<times> buffer \<times> 'd"
  ioctl_submit_io :: "nvme_user_io \<Rightarrow> buffer \<Rightarrow> 'd \<Rightarrow> cint \<times> buffer \<times> 'd"
  sys_pread :: "nat \<Rightarrow> cint \<Rightarrow> buffer \<Rightarrow> 'd \<Rightarrow> cint \<times> buffer \<times> 'd"

text \<open>
  Two global commands many of the programs declare with the same initialisers: read and clear the
  statistics of the SSD.
\<close>

definition cmd_stats :: nvme_passthru_cmd where
  "cmd_stats = \<lparr>opcode = 0x86, flags = 0, rsvd1 = 0, nsid = 1, cdw2 = 0, cdw3 = 0, metadata = 0,
     addr = 0, metadata_len = 0, data_len = 0, cdw10 = 0, cdw11 = 0, cdw12 = 0, cdw13 = 0,
     cdw14 = 0, cdw15 = 0, timeout_ms = 0, result = -1\<rparr>"

definition cmd_stats_clear :: nvme_passthru_cmd where
  "cmd_stats_clear = \<lparr>opcode = 0x87, flags = 0, rsvd1 = 0, nsid = 1, cdw2 = 0, cdw3 = 0, metadata = 0,
     addr = 0, metadata_len = 0, data_len = 0, cdw10 = 0, cdw11 = 0, cdw12 = 0, cdw13 = 0,
     cdw14 = 0, cdw15 = 0, timeout_ms = 0, result = -1\<rparr>"

text \<open>A call whose result is dropped: only the device changes.\<close>

definition run_cmd :: "'d kernel \<Rightarrow> nvme_passthru_cmd \<Rightarrow> 'd \<Rightarrow> 'd" where
  "run_cmd K c d = (case ioctl_io_cmd K c [] d of (err, res, buf, d') \<Rightarrow> d')"

section \<open>Blocks and extents\<close>

definition extent :: "(nat \<Rightarrow> buffer) \<Rightarrow> nat \<Rightarrow> nat \<Rightarrow> buffer" where
  "extent f s n = concat (map f [s..<s + n])"

definition slba_of :: "nvme_passthru_cmd \<Rightarrow> nat" where
  "slba_of c = unat (cdw11 c) * 2 ^ 32 + unat (cdw10 c)"

definition nlb_of :: "nvme_passthru_cmd \<Rightarrow> nat" where
  "nlb_of c = unat (cdw12 c) + 1"

definition ctx_of :: "(nat \<Rightarrow> buffer) \<Rightarrow> (nat \<Rightarrow> buffer) \<Rightarrow> cint \<times> cint \<times> cint \<Rightarrow> nvme_passthru_cmd \<Rightarrow> ebpf_ctx" where
  "ctx_of f g r c = \<lparr>param0 = cdw2 c, param1 = cdw3 c, param2 = fst r, param3 = fst (snd r),
     param4 = snd (snd r), ctx_data = extent f (slba_of c) (nlb_of c),
     ctx_map_page = g (unat (cdw15 c))\<rparr>"

definition write_blocks :: "(nat \<Rightarrow> buffer) \<Rightarrow> nat \<Rightarrow> nat \<Rightarrow> buffer \<Rightarrow> nat \<Rightarrow> buffer" where
  "write_blocks f s n buf b = (if s \<le> b \<and> b < s + n then take 4096 (drop (4096 * (b - s)) buf) else f b)"

lemma length_extent: "(\<And>b. length (f b) = 4096) \<Longrightarrow> length (extent f s n) = 4096 * n"
  by (induction n) (simp_all add: extent_def)

lemma extent_0 [simp]: "extent f s 0 = []"
  by (simp add: extent_def)

lemma extent_1 [simp]: "extent f s (Suc 0) = f s"
  by (simp add: extent_def)

lemma extent_add: "extent f s (m + n) = extent f s m @ extent f (s + m) n"
  using upt_add_eq_append [of s "s + m" n] by (simp add: extent_def add.assoc)

lemma extent_Suc: "extent f s (Suc n) = extent f s n @ f (s + n)"
  by (simp add: extent_def)

lemma extent_cong: "(\<And>b. s \<le> b \<Longrightarrow> b < s + n \<Longrightarrow> f b = g b) \<Longrightarrow> extent f s n = extent g s n"
  by (auto simp: extent_def intro!: arg_cong [where f = concat])

text \<open>Reading back what was written.\<close>

lemma extent_write_blocks:
  "4096 * n \<le> length buf \<Longrightarrow> extent (write_blocks f s n buf) s n = take (4096 * n) buf"
proof -
  assume len: "4096 * n \<le> length buf"
  have "k \<le> n \<Longrightarrow> extent (write_blocks f s n buf) s k = take (4096 * k) buf" for k
  proof (induction k)
    case (Suc k)
    then show ?case
      using len by (simp add: extent_Suc write_blocks_def take_add [symmetric] add.commute)
  qed simp
  then show ?thesis by simp
qed

lemma extent_write_blocks_disjoint:
  "t + m \<le> s \<or> s + n \<le> t \<Longrightarrow> extent (write_blocks f s n buf) t m = extent f t m"
  by (rule extent_cong) (auto simp: write_blocks_def)

section \<open>The contract of the SSD\<close>

text \<open>
  What the host programs rely on. \<open>blk d b\<close> is the content of the logical block \<open>b\<close> (4 KB),
  \<open>page d q\<close> the map page of queue \<open>q\<close>, \<open>prog\<close> the inserted eBPF program and \<open>rest c\<close> the parameters
  of the context beyond the first two. The opcodes are those of the README (0x82 run the program on
  the request's blocks, 0x84 read the map page) and of the programs (0x85 clear the map page, 0x86 and
  0x87 statistics, 0x01 and 0x02 the standard write and read). A command that fails leaves blocks and
  map pages as they are, and no command changes the length of the user's buffer.
\<close>

locale isp_ssd =
  fixes K :: "'d kernel"
    and ok :: "'d \<Rightarrow> bool"
    and blk :: "'d \<Rightarrow> nat \<Rightarrow> buffer"
    and page :: "'d \<Rightarrow> nat \<Rightarrow> buffer"
    and prog :: ebpf_prog
    and rest :: "nvme_passthru_cmd \<Rightarrow> cint \<times> cint \<times> cint"
  assumes blk_length: "ok d \<Longrightarrow> length (blk d b) = 4096"
    and page_length: "ok d \<Longrightarrow> length (page d q) = 4096"
    and cmd_frame: "ok d \<Longrightarrow> ioctl_io_cmd K c buf d = (err, res, buf', d') \<Longrightarrow>
      ok d' \<and> blk d' = blk d \<and> length buf' = length buf \<and> (err \<noteq> 0 \<longrightarrow> page d' = page d)"
    and isp_read: "ok d \<Longrightarrow> ioctl_io_cmd K c buf d = (0, res, buf', d') \<Longrightarrow> opcode c = 0x82 \<Longrightarrow>
      \<exists>pg. prog (ctx_of (blk d) (page d) (rest c) c) = Some (res, pg) \<and>
        page d' = (page d)(unat (cdw15 c) := pg)"
    and map_page_read: "ok d \<Longrightarrow> ioctl_io_cmd K c buf d = (0, res, buf', d') \<Longrightarrow> opcode c = 0x84 \<Longrightarrow>
      data_len c = 4096 \<Longrightarrow> 4096 \<le> length buf \<Longrightarrow>
      buf' = page d (unat (cdw15 c)) @ drop 4096 buf \<and> page d' = page d"
    and map_page_clear: "ok d \<Longrightarrow> ioctl_io_cmd K c buf d = (0, res, buf', d') \<Longrightarrow> opcode c = 0x85 \<Longrightarrow>
      page d' = (page d)(unat (cdw15 c) := replicate 4096 0)"
    and stats: "ok d \<Longrightarrow> ioctl_io_cmd K c buf d = (0, res, buf', d') \<Longrightarrow> opcode c \<in> {0x86, 0x87} \<Longrightarrow>
      page d' = page d"
    and io_frame: "ok d \<Longrightarrow> ioctl_submit_io K u buf d = (err, buf', d') \<Longrightarrow>
      ok d' \<and> page d' = page d \<and> length buf' = length buf \<and> (err \<noteq> 0 \<longrightarrow> blk d' = blk d)"
    and io_write: "ok d \<Longrightarrow> ioctl_submit_io K u buf d = (0, buf', d') \<Longrightarrow> io_opcode u = 0x01 \<Longrightarrow>
      4096 * (unat (nblocks u) + 1) \<le> length buf \<Longrightarrow>
      buf' = buf \<and> blk d' = write_blocks (blk d) (unat (io_slba u)) (unat (nblocks u) + 1) buf"
    and io_read: "ok d \<Longrightarrow> ioctl_submit_io K u buf d = (0, buf', d') \<Longrightarrow> io_opcode u = 0x02 \<Longrightarrow>
      4096 * (unat (nblocks u) + 1) \<le> length buf \<Longrightarrow>
      blk d' = blk d \<and>
      buf' = extent (blk d) (unat (io_slba u)) (unat (nblocks u) + 1) @ drop (4096 * (unat (nblocks u) + 1)) buf"
    and pread_frame: "ok d \<Longrightarrow> sys_pread K n off buf d = (ret, buf', d') \<Longrightarrow>
      ok d' \<and> blk d' = blk d \<and> page d' = page d \<and> length buf' = length buf"
    and pread_read: "ok d \<Longrightarrow> sys_pread K (4096 * n) off buf d = (ret, buf', d') \<Longrightarrow> ret = of_nat (4096 * n) \<Longrightarrow>
      unat off = 4096 * s \<Longrightarrow> 4096 * n \<le> length buf \<Longrightarrow>
      buf' = extent (blk d) s n @ drop (4096 * n) buf"
begin

lemmas cmd_ok = cmd_frame [THEN conjunct1]
lemmas io_ok = io_frame [THEN conjunct1]

text \<open>\<open>same d e\<close>: the device is usable in state \<open>e\<close> and holds what it held in \<open>d\<close>.\<close>

definition same :: "'d \<Rightarrow> 'd \<Rightarrow> bool" where
  "same d e \<longleftrightarrow> ok e \<and> blk e = blk d \<and> page e = page d"

lemma same_refl: "ok d \<Longrightarrow> same d d"
  by (simp add: same_def)

lemma length_extent_blk: "ok d \<Longrightarrow> length (extent (blk d) s n) = 4096 * n"
  by (rule length_extent) (rule blk_length)

lemma stats_run_cmd:
  assumes "same d e" "opcode c \<in> {0x86, 0x87}"
  shows "same d (run_cmd K c e)"
proof -
  from assms(1) have ok: "ok e" by (simp add: same_def)
  obtain err res buf' d' where c: "ioctl_io_cmd K c [] e = (err, res, buf', d')"
    by (metis prod_cases4)
  have "page d' = page e"
  proof (cases "err = 0")
    case True
    with c have "ioctl_io_cmd K c [] e = (0, res, buf', d')" by simp
    then show ?thesis using stats ok assms(2) by blast
  next
    case False
    with cmd_frame [OF ok c] show ?thesis by blast
  qed
  with cmd_frame [OF ok c] c assms(1) show ?thesis by (simp add: run_cmd_def same_def)
qed

end

text \<open>
  An SSD of \<open>cap\<close> blocks that does not fail: every command on blocks it has succeeds, unless the
  eBPF program accesses memory out of bounds.
\<close>

locale reliable_ssd = isp_ssd +
  fixes cap :: nat
  assumes isp_succeeds: "ok d \<Longrightarrow> opcode c = 0x82 \<Longrightarrow> slba_of c + nlb_of c \<le> cap \<Longrightarrow>
      prog (ctx_of (blk d) (page d) (rest c) c) \<noteq> None \<Longrightarrow> fst (ioctl_io_cmd K c buf d) = 0"
    and map_succeeds: "ok d \<Longrightarrow> opcode c \<in> {0x84, 0x85, 0x86, 0x87} \<Longrightarrow> fst (ioctl_io_cmd K c buf d) = 0"
    and io_succeeds: "ok d \<Longrightarrow> io_opcode u \<in> {0x01, 0x02} \<Longrightarrow> unat (io_slba u) + unat (nblocks u) + 1 \<le> cap \<Longrightarrow>
      4096 * (unat (nblocks u) + 1) \<le> length buf \<Longrightarrow> fst (ioctl_submit_io K u buf d) = 0"
    and pread_succeeds: "ok d \<Longrightarrow> unat off = 4096 * s \<Longrightarrow> s + n \<le> cap \<Longrightarrow> 4096 * n \<le> length buf \<Longrightarrow>
      fst (sys_pread K (4096 * n) off buf d) = of_nat (4096 * n)"
begin

text \<open>The outcome of a program run whose result is known.\<close>

lemma isp_run:
  assumes "ok d" "opcode c = 0x82" "slba_of c + nlb_of c \<le> cap"
    and "prog (ctx_of (blk d) (page d) (rest c) c) = Some (res, pg)"
  obtains buf' d' where "ioctl_io_cmd K c buf d = (0, res, buf', d')" "ok d'" "blk d' = blk d"
    "page d' = (page d)(unat (cdw15 c) := pg)" "length buf' = length buf"
proof -
  obtain err res' buf' d' where c: "ioctl_io_cmd K c buf d = (err, res', buf', d')"
    by (metis prod_cases4)
  with isp_succeeds [OF assms(1,2,3), of buf] assms(4) have err: "err = 0" by simp
  with c have c0: "ioctl_io_cmd K c buf d = (0, res', buf', d')" by simp
  from isp_read [OF assms(1) c0 assms(2)] assms(4) have "res' = res"
    "page d' = (page d)(unat (cdw15 c) := pg)" by simp_all
  with c0 cmd_frame [OF assms(1) c0] that [of buf' d'] show thesis by simp
qed

lemma map_read_run:
  assumes "ok d" "opcode c = 0x84" "data_len c = 4096" "length buf = 4096"
  obtains res d' where "ioctl_io_cmd K c buf d = (0, res, page d (unat (cdw15 c)), d')" "ok d'"
    "blk d' = blk d" "page d' = page d"
proof -
  obtain err res buf' d' where c: "ioctl_io_cmd K c buf d = (err, res, buf', d')"
    by (metis prod_cases4)
  with map_succeeds [OF assms(1), of c buf] assms(2) have err: "err = 0" by simp
  with c have c0: "ioctl_io_cmd K c buf d = (0, res, buf', d')" by simp
  from map_page_read [OF assms(1) c0 assms(2,3)] assms(4) have "buf' = page d (unat (cdw15 c))" "page d' = page d"
    by simp_all
  with c0 cmd_frame [OF assms(1) c0] that [of res d'] show thesis by simp
qed

lemma map_clear_run:
  assumes "ok d" "opcode c = 0x85"
  obtains res buf' d' where "ioctl_io_cmd K c buf d = (0, res, buf', d')" "ok d'"
    "blk d' = blk d" "page d' = (page d)(unat (cdw15 c) := replicate 4096 0)" "length buf' = length buf"
proof -
  obtain err res buf' d' where c: "ioctl_io_cmd K c buf d = (err, res, buf', d')"
    by (metis prod_cases4)
  with map_succeeds [OF assms(1), of c buf] assms(2) have err: "err = 0" by simp
  with c have c0: "ioctl_io_cmd K c buf d = (0, res, buf', d')" by simp
  from c0 cmd_frame [OF assms(1) c0] map_page_clear [OF assms(1) c0 assms(2)] that [of res buf' d']
  show thesis by simp
qed

lemma io_read_run:
  assumes "ok d" "io_opcode u = 0x02" "unat (io_slba u) + unat (nblocks u) + 1 \<le> cap"
    and "length buf = 4096 * (unat (nblocks u) + 1)"
  obtains d' where "ioctl_submit_io K u buf d = (0, extent (blk d) (unat (io_slba u)) (unat (nblocks u) + 1), d')"
    "ok d'" "blk d' = blk d" "page d' = page d"
proof -
  obtain err buf' d' where c: "ioctl_submit_io K u buf d = (err, buf', d')"
    by (metis prod_cases3)
  with io_succeeds [OF assms(1) _ assms(3), of buf] assms(2,4) have err: "err = 0" by simp
  with c have c0: "ioctl_submit_io K u buf d = (0, buf', d')" by simp
  from io_read [OF assms(1) c0 assms(2)] assms(4) have
    "buf' = extent (blk d) (unat (io_slba u)) (unat (nblocks u) + 1)" "blk d' = blk d" by simp_all
  with c0 io_frame [OF assms(1) c0] that [of d'] show thesis by simp
qed

lemma io_write_run:
  assumes "ok d" "io_opcode u = 0x01" "unat (io_slba u) + unat (nblocks u) + 1 \<le> cap"
    and "length buf = 4096 * (unat (nblocks u) + 1)"
  obtains d' where "ioctl_submit_io K u buf d = (0, buf, d')" "ok d'" "page d' = page d"
    "blk d' = write_blocks (blk d) (unat (io_slba u)) (unat (nblocks u) + 1) buf"
proof -
  obtain err buf' d' where c: "ioctl_submit_io K u buf d = (err, buf', d')"
    by (metis prod_cases3)
  with io_succeeds [OF assms(1) _ assms(3), of buf] assms(2,4) have err: "err = 0" by simp
  with c have c0: "ioctl_submit_io K u buf d = (0, buf', d')" by simp
  from io_write [OF assms(1) c0 assms(2)] assms(4) have
    "buf' = buf" "blk d' = write_blocks (blk d) (unat (io_slba u)) (unat (nblocks u) + 1) buf" by simp_all
  with c0 io_frame [OF assms(1) c0] that [of d'] show thesis by simp
qed

lemma pread_run:
  assumes "ok d" "unat off = 4096 * s" "s + n \<le> cap" "4096 * n \<le> length buf"
  obtains d' where "sys_pread K (4096 * n) off buf d =
      (of_nat (4096 * n), extent (blk d) s n @ drop (4096 * n) buf, d')"
    "ok d'" "blk d' = blk d" "page d' = page d"
proof -
  obtain ret buf' d' where c: "sys_pread K (4096 * n) off buf d = (ret, buf', d')"
    by (metis prod_cases3)
  with pread_succeeds [OF assms] have ret: "ret = of_nat (4096 * n)" by simp
  from c ret pread_read [OF assms(1) c ret assms(2,4)] pread_frame [OF assms(1) c] that [of d']
  show thesis by simp
qed

end

end
