(* ===== verification/Reference_Ssd.thy ===== *)
theory Reference_Ssd
  imports Nvme_Ioctl
begin

text \<open>
  An executable SSD that satisfies the contract of theory Nvme-Ioctl: blocks and map pages are
  functions, and a program request runs one of the modelled eBPF programs. It shows that the
  contract can be met by each program of \<open>src/eBPF_program\<close>, and it is the device at which the
  properties of the host programs are instantiated. It stands for no file of the repository.
\<close>

record ssd =
  ssd_blk :: "nat \<Rightarrow> buffer"
  ssd_page :: "nat \<Rightarrow> buffer"

definition ssd_ok :: "ssd \<Rightarrow> bool" where
  "ssd_ok d \<longleftrightarrow> (\<forall>b. length (ssd_blk d b) = 4096) \<and> (\<forall>q. length (ssd_page d q) = 4096)"

definition ssd_rest :: "nvme_passthru_cmd \<Rightarrow> cint \<times> cint \<times> cint" where
  "ssd_rest c = (ucast (drop_bit 32 (metadata c)), ucast (metadata c), 0)"

definition ssd_io_cmd ::
  "nat \<Rightarrow> ebpf_prog \<Rightarrow> nvme_passthru_cmd \<Rightarrow> buffer \<Rightarrow> ssd \<Rightarrow> cint \<times> cint \<times> buffer \<times> ssd" where
  "ssd_io_cmd cap prog c buf d =
     (let q = unat (cdw15 c) in
      if opcode c = 0x82 then
        (if slba_of c + nlb_of c \<le> cap then
           (case prog (ctx_of (ssd_blk d) (ssd_page d) (ssd_rest c) c) of
              None \<Rightarrow> (1, result c, buf, d)
            | Some (r, pg) \<Rightarrow> (0, r, buf, d\<lparr>ssd_page := (ssd_page d)(q := pg)\<rparr>))
         else (1, result c, buf, d))
      else if opcode c = 0x84 then
        (0, 0, (if 4096 \<le> length buf then ssd_page d q @ drop 4096 buf else buf), d)
      else if opcode c = 0x85 then (0, 0, buf, d\<lparr>ssd_page := (ssd_page d)(q := replicate 4096 0)\<rparr>)
      else if opcode c \<in> {0x86, 0x87} then (0, 0, buf, d)
      else (1, result c, buf, d))"

definition ssd_submit_io :: "nat \<Rightarrow> nvme_user_io \<Rightarrow> buffer \<Rightarrow> ssd \<Rightarrow> cint \<times> buffer \<times> ssd" where
  "ssd_submit_io cap u buf d =
     (let s = unat (io_slba u); n = unat (nblocks u) + 1 in
      if s + n \<le> cap \<and> 4096 * n \<le> length buf then
        (if io_opcode u = 0x01 then (0, buf, d\<lparr>ssd_blk := write_blocks (ssd_blk d) s n buf\<rparr>)
         else if io_opcode u = 0x02 then (0, extent (ssd_blk d) s n @ drop (4096 * n) buf, d)
         else (1, buf, d))
      else (1, buf, d))"

definition ssd_pread :: "nat \<Rightarrow> nat \<Rightarrow> cint \<Rightarrow> buffer \<Rightarrow> ssd \<Rightarrow> cint \<times> buffer \<times> ssd" where
  "ssd_pread cap n off buf d =
     (if n mod 4096 = 0 \<and> unat off mod 4096 = 0 \<and> unat off div 4096 + n div 4096 \<le> cap \<and> n \<le> length buf
      then (of_nat n, extent (ssd_blk d) (unat off div 4096) (n div 4096) @ drop n buf, d)
      else (-1, buf, d))"

definition ssd_kernel :: "nat \<Rightarrow> ebpf_prog \<Rightarrow> ssd kernel" where
  "ssd_kernel cap prog = \<lparr>ioctl_io_cmd = ssd_io_cmd cap prog, ioctl_submit_io = ssd_submit_io cap,
     sys_pread = ssd_pread cap\<rparr>"

lemma minus_one_neq_even: "(- 1 :: cint) \<noteq> 4096 * of_nat n"
proof
  assume "(- 1 :: cint) = 4096 * of_nat n"
  then have "odd (4096 * of_nat n :: cint)" by (metis even_minus odd_one)
  then show False by simp
qed

lemma ssd_submit_io_ok:
  "ssd_ok d \<Longrightarrow> ssd_submit_io cap u buf d = (err, buf', d') \<Longrightarrow>
   ssd_ok d' \<and> ssd_page d' = ssd_page d \<and> length buf' = length buf \<and> (err \<noteq> 0 \<longrightarrow> ssd_blk d' = ssd_blk d)"
  by (auto simp: ssd_submit_io_def ssd_ok_def Let_def write_blocks_def length_extent split: if_splits)

context ebpf_program
begin

lemma ssd_io_cmd_ok:
  "ssd_ok d \<Longrightarrow> ssd_io_cmd cap prog c buf d = (err, res, buf', d') \<Longrightarrow>
   ssd_ok d' \<and> ssd_blk d' = ssd_blk d \<and> length buf' = length buf \<and> (err \<noteq> 0 \<longrightarrow> ssd_page d' = ssd_page d)"
  by (auto simp: ssd_io_cmd_def ssd_ok_def Let_def ctx_of_def dest!: keeps_page
      split: if_splits option.splits)

lemma ssd_reliable:
  "reliable_ssd (ssd_kernel cap prog) ssd_ok ssd_blk ssd_page prog ssd_rest cap"
proof (unfold_locales, goal_cases)
  case (3 d c buf err res buf' d')
  then show ?case using ssd_io_cmd_ok by (simp add: ssd_kernel_def)
next
  case (8 d u buf err buf' d')
  then show ?case using ssd_submit_io_ok by (simp add: ssd_kernel_def)
next
  case (12 d n off buf ret buf' d' s)
  then show ?case by (auto simp: ssd_kernel_def ssd_pread_def minus_one_neq_even split: if_splits)
qed (auto simp: ssd_kernel_def ssd_io_cmd_def ssd_submit_io_def ssd_pread_def Let_def ssd_ok_def length_extent
    split: if_splits option.splits)

end

section \<open>The contract holds for every program\<close>

interpretation ssd_npsum: reliable_ssd "ssd_kernel cap npsum" ssd_ok ssd_blk ssd_page npsum ssd_rest cap for cap
  by (rule npsum.ssd_reliable)

interpretation ssd_emb32: reliable_ssd "ssd_kernel cap embedding32" ssd_ok ssd_blk ssd_page embedding32 ssd_rest cap for cap
  by (rule emb32.ssd_reliable)

interpretation ssd_emb64: reliable_ssd "ssd_kernel cap embedding64" ssd_ok ssd_blk ssd_page embedding64 ssd_rest cap for cap
  by (rule emb64.ssd_reliable)

interpretation ssd_wc: reliable_ssd "ssd_kernel cap wc" ssd_ok ssd_blk ssd_page wc ssd_rest cap for cap
  by (rule wcprog.ssd_reliable)

interpretation ssd_strf: reliable_ssd "ssd_kernel cap strfilter" ssd_ok ssd_blk ssd_page strfilter ssd_rest cap for cap
  by (rule strf.ssd_reliable)

text \<open>An SSD whose blocks hold ones and whose map pages are clear.\<close>

definition ones_ssd :: ssd where
  "ones_ssd = \<lparr>ssd_blk = (\<lambda>_. replicate 4096 1), ssd_page = (\<lambda>_. replicate 4096 0)\<rparr>"

lemma ssd_ok_ones [simp]: "ssd_ok ones_ssd"
  by (simp add: ssd_ok_def ones_ssd_def)

lemma ssd_page_ones [simp]: "ssd_page ones_ssd q = replicate 4096 0"
  by (simp add: ones_ssd_def)

end
