(* ===== verification/Npsum_Isp.thy ===== *)
theory Npsum_Isp
  imports Reference_Ssd
begin

text \<open>
  The programs of \<open>src/npsum\<close> that let the SSD sum matrices: \<open>ISP_noaxis.c\<close>, \<open>ISP_debug.c\<close> and
  \<open>ISP_test.c\<close> (the sum of all entries), \<open>ISP_axis0.c\<close>, \<open>ISP_axis1.c\<close>, \<open>ISP_debug_axis0.c\<close> and
  \<open>ISP_debug_axis1.c\<close> (sums along an axis, fetched from the map page). The variants share their
  loop bodies and differ in constants and in what they print.

  A program's state is the device, the buffers it allocated and the lines it printed. The address
  and the initial content of a buffer from \<open>malloc\<close> are arguments. Clock readings, and the
  \<open>sleep\<close> between two rounds, are left out.
\<close>

abbreviation (input) MATRIX_SIZE :: nat where
  "MATRIX_SIZE \<equiv> 256 * 1024"

abbreviation (input) MATRIX_ELEMENTS :: nat where
  "MATRIX_ELEMENTS \<equiv> MATRIX_SIZE div 4"

abbreviation (input) NUM_MATRIX :: nat where
  "NUM_MATRIX \<equiv> 1024"

section \<open>Sums of all entries\<close>

definition isp_noaxis_cmd :: "cint \<Rightarrow> cint \<Rightarrow> nvme_passthru_cmd" where
  "isp_noaxis_cmd nlb slba = \<lparr>opcode = 0x82, flags = 0, rsvd1 = 0, nsid = 1, cdw2 = 3, cdw3 = 0,
     metadata = 0, addr = 0, metadata_len = 0, data_len = of_nat MATRIX_SIZE, cdw10 = slba,
     cdw11 = 0, cdw12 = nlb - 1, cdw13 = 0, cdw14 = 0, cdw15 = 0, timeout_ms = 0, result = -1\<rparr>"

definition sum_warning :: "int \<Rightarrow> int \<Rightarrow> cint \<Rightarrow> event list" where
  "sum_warning lo hi s =
     (if sint s < lo \<or> sint s > hi then [Printf ''Warning: sum out of range: %d\<newline>'' [s]] else [])"

definition isp_noaxis_body ::
  "'d kernel \<Rightarrow> cint \<Rightarrow> bool \<Rightarrow> nat \<Rightarrow> 'd \<times> event list \<Rightarrow> 'd \<times> event list" where
  "isp_noaxis_body K nlb debug i st =
     (let (d, out) = st;
          (err, res, buf, d) = ioctl_io_cmd K (isp_noaxis_cmd nlb (1024 + of_nat i * 64)) [] d
      in if err \<noteq> 0 then (d, out @ [Printf ''iteration %d: err %d\<newline>'' [of_nat i, err]])
         else (d, out @ sum_warning 30000000 40000000 res @
                 (if debug then [Printf ''%d\<newline>'' [res]] else [])))"

definition isp_noaxis_round :: "'d kernel \<Rightarrow> cint \<Rightarrow> bool \<Rightarrow> 'd \<times> event list \<Rightarrow> 'd \<times> event list" where
  "isp_noaxis_round K nlb debug st =
     (let (d, out) = for_do NUM_MATRIX (isp_noaxis_body K nlb debug) st
      in (run_cmd K cmd_stats_clear (run_cmd K cmd_stats d), out))"

definition test_end :: "event list" where
  "test_end = [Printf ''---- Test end ----\<newline>'' [], Printf ''Average time : %.2f ms\<newline>'' []]"

definition ISP_noaxis_main :: "'d kernel \<Rightarrow> 'd \<Rightarrow> 'd \<times> event list" where
  "ISP_noaxis_main K d =
     (let (d, out) = for_do 32 (\<lambda>t. isp_noaxis_round K 64 False) (run_cmd K cmd_stats_clear d, [])
      in (d, out @ test_end))"

definition ISP_debug_main :: "'d kernel \<Rightarrow> 'd \<Rightarrow> 'd \<times> event list" where
  "ISP_debug_main K d = for_do 1 (\<lambda>t. isp_noaxis_round K 64 True) (run_cmd K cmd_stats_clear d, [])"

definition ISP_test_main :: "'d kernel \<Rightarrow> 'd \<Rightarrow> 'd \<times> event list" where
  "ISP_test_main K d =
     (let (d, out) = for_do 1 (\<lambda>t. isp_noaxis_round K 32 False) (run_cmd K cmd_stats_clear d, [])
      in (d, out @ test_end))"

section \<open>Sums along an axis\<close>

definition isp_axis_cmd :: "cint \<Rightarrow> cint \<Rightarrow> nvme_passthru_cmd" where
  "isp_axis_cmd axis slba = \<lparr>opcode = 0x82, flags = 0, rsvd1 = 0, nsid = 1, cdw2 = axis, cdw3 = 0,
     metadata = 0, addr = 0, metadata_len = 0, data_len = 0, cdw10 = slba,
     cdw11 = 0, cdw12 = 64 - 1, cdw13 = 0, cdw14 = 0, cdw15 = 0, timeout_ms = 0, result = -1\<rparr>"

definition page_read_cmd :: "u64 \<Rightarrow> nvme_passthru_cmd" where
  "page_read_cmd map_page = \<lparr>opcode = 0x84, flags = 0, rsvd1 = 0, nsid = 1, cdw2 = 0, cdw3 = 0,
     metadata = 0, addr = map_page, metadata_len = 0, data_len = 4096, cdw10 = 0,
     cdw11 = 0, cdw12 = 0, cdw13 = 0, cdw14 = 0, cdw15 = 0, timeout_ms = 0, result = -1\<rparr>"

definition page_clear_cmd :: nvme_passthru_cmd where
  "page_clear_cmd = \<lparr>opcode = 0x85, flags = 0, rsvd1 = 0, nsid = 1, cdw2 = 0, cdw3 = 0,
     metadata = 0, addr = 0, metadata_len = 0, data_len = 0, cdw10 = 0,
     cdw11 = 0, cdw12 = 0, cdw13 = 0, cdw14 = 0, cdw15 = 0, timeout_ms = 0, result = -1\<rparr>"

text \<open>\<open>for (idx = 0; idx < n; idx++) printf("%d ", buf[idx]); printf("\n");\<close>\<close>

definition print_ints :: "nat \<Rightarrow> buffer \<Rightarrow> event list option" where
  "print_ints n buf = do {
     out \<leftarrow> for_loop n (\<lambda>idx out. do { v \<leftarrow> ld32 buf idx; Some (out @ [Printf ''%d '' [v]]) }) [];
     Some (out @ [Printf ''\<newline>'' []]) }"

definition isp_axis_body ::
  "'d kernel \<Rightarrow> cint \<Rightarrow> u64 \<Rightarrow> bool \<Rightarrow> nat \<Rightarrow> 'd \<times> buffer \<times> event list \<Rightarrow> ('d \<times> buffer \<times> event list) option" where
  "isp_axis_body K axis a debug i st =
     (let (d, map_page, out) = st;
          (err, res, buf, d) = ioctl_io_cmd K (isp_axis_cmd axis (1024 + of_nat i * 64)) [] d
      in if err \<noteq> 0 then Some (d, map_page, out @ [Printf ''ISP request: err %d\<newline>'' [err]])
      else let (err, res, map_page, d) = ioctl_io_cmd K (page_read_cmd a) map_page d
      in if err \<noteq> 0 then Some (d, map_page, out @ [Printf ''Map page read: err %d\<newline>'' [err]])
      else do {
        lines \<leftarrow> (if debug then print_ints 64 map_page else Some []);
        let (err, res, buf, d) = ioctl_io_cmd K page_clear_cmd [] d
        in Some (d, map_page, out @ lines @
             (if err \<noteq> 0 then [Printf ''Map page clear: err %d\<newline>'' [err]] else [])) })"

text \<open>\<open>memset(map_page, 0, 4096)\<close> on a buffer of 4096 bytes.\<close>

definition isp_axis_round ::
  "'d kernel \<Rightarrow> cint \<Rightarrow> u64 \<Rightarrow> bool \<Rightarrow> 'd \<times> buffer \<times> event list \<Rightarrow> ('d \<times> buffer \<times> event list) option" where
  "isp_axis_round K axis a debug st =
     (let (d, map_page, out) = st in do {
        (d, map_page, out) \<leftarrow> for_loop NUM_MATRIX (isp_axis_body K axis a debug) (d, replicate 4096 0, out);
        Some (run_cmd K cmd_stats_clear (run_cmd K cmd_stats d), map_page, out) })"

definition isp_axis_main ::
  "nat \<Rightarrow> bool \<Rightarrow> cint \<Rightarrow> 'd kernel \<Rightarrow> u64 \<Rightarrow> buffer \<Rightarrow> 'd \<Rightarrow> ('d \<times> buffer \<times> event list) option" where
  "isp_axis_main it_time debug axis K a map_page d =
     for_loop it_time (\<lambda>t. isp_axis_round K axis a debug) (run_cmd K cmd_stats_clear d, map_page, [])"

definition ISP_axis0_main :: "'d kernel \<Rightarrow> u64 \<Rightarrow> buffer \<Rightarrow> 'd \<Rightarrow> ('d \<times> buffer \<times> event list) option" where
  "ISP_axis0_main K a map_page d = do {
     (d, map_page, out) \<leftarrow> isp_axis_main 32 False 0 K a map_page d;
     Some (d, map_page, out @ test_end) }"

definition ISP_axis1_main :: "'d kernel \<Rightarrow> u64 \<Rightarrow> buffer \<Rightarrow> 'd \<Rightarrow> ('d \<times> buffer \<times> event list) option" where
  "ISP_axis1_main K a map_page d = do {
     (d, map_page, out) \<leftarrow> isp_axis_main 32 False 1 K a map_page d;
     Some (d, map_page, out @ test_end) }"

definition ISP_debug_axis0_main :: "'d kernel \<Rightarrow> u64 \<Rightarrow> buffer \<Rightarrow> 'd \<Rightarrow> ('d \<times> buffer \<times> event list) option" where
  "ISP_debug_axis0_main = isp_axis_main 1 True 0"

definition ISP_debug_axis1_main :: "'d kernel \<Rightarrow> u64 \<Rightarrow> buffer \<Rightarrow> 'd \<Rightarrow> ('d \<times> buffer \<times> event list) option" where
  "ISP_debug_axis1_main = isp_axis_main 1 True 1"

section \<open>Matrices on the SSD\<close>

definition matrix :: "(nat \<Rightarrow> buffer) \<Rightarrow> nat \<Rightarrow> buffer" where
  "matrix f i = extent f (1024 + i * 64) 64"

definition matrix_sum :: "(nat \<Rightarrow> buffer) \<Rightarrow> nat \<Rightarrow> cint" where
  "matrix_sum f i = sum_list (ints_of (matrix f i))"

lemma slba_nat: "i < 1024 \<Longrightarrow> unat (1024 + of_nat i * 64 :: cint) = 1024 + i * 64"
  using unat_of_nat_cint [of "1024 + i * 64"] by (simp add: mult.commute)

lemma noaxis_cmd_simps:
  "opcode (isp_noaxis_cmd nlb s) = 0x82" "cdw2 (isp_noaxis_cmd nlb s) = 3" "cdw15 (isp_noaxis_cmd nlb s) = 0"
  "slba_of (isp_noaxis_cmd nlb s) = unat s" "nlb_of (isp_noaxis_cmd nlb s) = unat (nlb - 1) + 1"
  by (simp_all add: isp_noaxis_cmd_def slba_of_def nlb_of_def)

lemma axis_cmd_simps:
  "opcode (isp_axis_cmd axis s) = 0x82" "cdw2 (isp_axis_cmd axis s) = axis" "cdw15 (isp_axis_cmd axis s) = 0"
  "slba_of (isp_axis_cmd axis s) = unat s" "nlb_of (isp_axis_cmd axis s) = 64"
  by (simp_all add: isp_axis_cmd_def slba_of_def nlb_of_def)

lemma stats_opcodes: "opcode cmd_stats \<in> {0x86, 0x87}" "opcode cmd_stats_clear \<in> {0x86, 0x87}"
  by (simp_all add: cmd_stats_def cmd_stats_clear_def)

lemma page_cmd_simps:
  "opcode (page_read_cmd a) = 0x84" "data_len (page_read_cmd a) = 4096" "cdw15 (page_read_cmd a) = 0"
  "opcode page_clear_cmd = 0x85" "cdw15 page_clear_cmd = 0"
  by (simp_all add: page_read_cmd_def page_clear_cmd_def)

section \<open>Runs on an SSD with npsum inserted\<close>

text \<open>The lines printed for matrix \<open>i\<close> when the request succeeds.\<close>

definition sum_lines :: "int \<Rightarrow> int \<Rightarrow> bool \<Rightarrow> (nat \<Rightarrow> buffer) \<Rightarrow> nat \<Rightarrow> event list" where
  "sum_lines lo hi debug f i = sum_warning lo hi (matrix_sum f i) @
     (if debug then [Printf ''%d\<newline>'' [matrix_sum f i]] else [])"

text \<open>The sums along an axis as the SSD leaves them in a map page that was clear, and their lines.\<close>

definition axis_sums :: "cint \<Rightarrow> cint list \<Rightarrow> cint list" where
  "axis_sums axis xs =
     (if axis = 0 then add_cols 64 1024 xs (replicate 1024 0) else add_cols 1024 64 xs (replicate 1024 0))"

definition int_lines :: "nat \<Rightarrow> cint list \<Rightarrow> event list" where
  "int_lines n xs = map (\<lambda>k. Printf ''%d '' [xs ! k]) [0..<n] @ [Printf ''\<newline>'' []]"

definition axis_lines :: "cint \<Rightarrow> bool \<Rightarrow> (nat \<Rightarrow> buffer) \<Rightarrow> nat \<Rightarrow> event list" where
  "axis_lines axis debug f i = (if debug then int_lines 64 (axis_sums axis (ints_of (matrix f i))) else [])"

lemma length_axis_sums [simp]: "length (axis_sums axis xs) = 1024"
  by (simp add: axis_sums_def)

lemma print_ints_eq:
  assumes "n \<le> length buf div 4"
  shows "print_ints n buf = Some (int_lines n (ints_of buf))"
proof -
  have "m \<le> n \<Longrightarrow> for_loop m (\<lambda>idx out. do { v \<leftarrow> ld32 buf idx; Some (out @ [Printf ''%d '' [v]]) }) [] =
    Some (map (\<lambda>k. Printf ''%d '' [ints_of buf ! k]) [0..<m])" for m
    using assms by (induction m) (simp_all add: ld32_ints_of)
  then show ?thesis by (simp add: print_ints_def int_lines_def)
qed

lemma npsum_axis_eq:
  assumes "param0 ctx = axis" "axis \<in> {0, 1}" "262144 \<le> length (ctx_data ctx)" "ctx_map_page ctx = replicate 4096 0"
  shows "npsum ctx = Some (0, bytes_of (axis_sums axis (ints_of (ctx_data ctx))))"
proof -
  have len: "length (ctx_map_page ctx) = 4096" using assms(4) by simp
  obtain pg where pg: "npsum ctx = Some (0, pg)" "length pg = 4096" "ints_of pg = axis_sums axis (ints_of (ctx_data ctx))"
    using npsum_axis0_eq [OF _ assms(3) len] npsum_axis1_eq [OF _ assms(3) len] assms
    by (auto simp: axis_sums_def)
  have "pg = bytes_of (axis_sums axis (ints_of (ctx_data ctx)))"
    by (rule ints_of_inject) (simp_all add: pg)
  with pg(1) show ?thesis by simp
qed

locale matrix_ssd = reliable_ssd +
  assumes capacity: "66560 \<le> cap"
begin

lemma length_matrix: "ok d \<Longrightarrow> length (matrix (blk d) i) = 262144"
  by (simp add: matrix_def length_extent_blk)

end

locale npsum_ssd = matrix_ssd K ok blk page npsum rest cap
  for K :: "'d kernel" and ok :: "'d \<Rightarrow> bool" and blk :: "'d \<Rightarrow> nat \<Rightarrow> buffer"
    and page :: "'d \<Rightarrow> nat \<Rightarrow> buffer" and rest :: "nvme_passthru_cmd \<Rightarrow> cint \<times> cint \<times> cint" and cap :: nat
begin

lemma npsum_noaxis_matrix:
  assumes "ok d" "i < 1024"
  shows "npsum (ctx_of (blk d) (page d) r (isp_noaxis_cmd 64 (1024 + of_nat i * 64))) =
    Some (matrix_sum (blk d) i, page d 0)"
proof -
  let ?ctx = "ctx_of (blk d) (page d) r (isp_noaxis_cmd 64 (1024 + of_nat i * 64))"
  have data: "ctx_data ?ctx = matrix (blk d) i"
    using assms(2) by (simp add: ctx_of_def matrix_def noaxis_cmd_simps slba_nat)
  have "param0 ?ctx = 3" "ctx_map_page ?ctx = page d 0"
    by (simp_all add: ctx_of_def noaxis_cmd_simps)
  then have "npsum ?ctx = Some (sum_list (take 65536 (ints_of (matrix (blk d) i))), page d 0)"
    using npsum_noaxis_eq [of ?ctx] length_matrix [OF assms(1)] data by simp
  then show ?thesis using length_matrix [OF assms(1)] by (simp add: matrix_sum_def)
qed

lemma noaxis_request:
  assumes "same d e" "i < 1024"
  obtains buf' e' where "ioctl_io_cmd K (isp_noaxis_cmd 64 (1024 + of_nat i * 64)) [] e = (0, matrix_sum (blk d) i, buf', e')"
    "same d e'"
proof -
  let ?c = "isp_noaxis_cmd 64 (1024 + of_nat i * 64)"
  from assms(1) have ok: "ok e" and e: "blk e = blk d" "page e = page d" by (simp_all add: same_def)
  have "slba_of ?c + nlb_of ?c \<le> cap"
    using assms(2) capacity by (simp add: noaxis_cmd_simps slba_nat)
  then obtain buf' e' where "ioctl_io_cmd K ?c [] e = (0, matrix_sum (blk e) i, buf', e')"
    "ok e'" "blk e' = blk e" "page e' = (page e)(unat (cdw15 ?c) := page e 0)"
    by (rule isp_run [OF ok noaxis_cmd_simps(1) _ npsum_noaxis_matrix [OF ok assms(2)]])
  with e that [of buf' e'] show thesis by (simp add: same_def noaxis_cmd_simps)
qed

lemma noaxis_body:
  assumes "same d e" "i < 1024"
  shows "\<exists>e'. isp_noaxis_body K 64 debug i (e, out) = (e', out @ sum_lines 30000000 40000000 debug (blk d) i) \<and> same d e'"
proof -
  from noaxis_request [OF assms] obtain buf' e' where
    "ioctl_io_cmd K (isp_noaxis_cmd 64 (1024 + of_nat i * 64)) [] e = (0, matrix_sum (blk d) i, buf', e')" "same d e'" .
  then show ?thesis by (simp add: isp_noaxis_body_def sum_lines_def)
qed

lemma noaxis_round:
  assumes "same d e"
  shows "\<exists>e'. isp_noaxis_round K 64 debug (e, out) =
    (e', out @ concat (map (sum_lines 30000000 40000000 debug (blk d)) [0..<1024])) \<and> same d e'"
proof -
  have "\<exists>e'. for_do 1024 (isp_noaxis_body K 64 debug) (e, out) =
      (e', out @ concat (map (sum_lines 30000000 40000000 debug (blk d)) [0..<1024])) \<and> same d e'"
    using assms by (rule for_do_lines) (rule noaxis_body)
  then show ?thesis
    using stats_run_cmd [OF stats_run_cmd [OF _ stats_opcodes(1)] stats_opcodes(2)]
    by (auto simp: isp_noaxis_round_def)
qed

lemma noaxis_rounds:
  assumes "ok d"
  shows "\<exists>e'. for_do n (\<lambda>t. isp_noaxis_round K 64 debug) (run_cmd K cmd_stats_clear d, []) =
    (e', concat (map (\<lambda>t. concat (map (sum_lines 30000000 40000000 debug (blk d)) [0..<1024])) [0..<n])) \<and> same d e'"
  by (rule for_do_lines_Nil, rule stats_run_cmd [OF same_refl [OF assms] stats_opcodes(2)], rule noaxis_round)

lemma noaxis_test_body:
  assumes "same d e" "i < 1024"
  shows "\<exists>e' err. isp_noaxis_body K 32 debug i (e, out) =
    (e', out @ [Printf ''iteration %d: err %d\<newline>'' [of_nat i, err]]) \<and> err \<noteq> 0 \<and> same d e'"
proof -
  let ?c = "isp_noaxis_cmd 32 (1024 + of_nat i * 64)"
  from assms(1) have ok: "ok e" and e: "blk e = blk d" "page e = page d" by (simp_all add: same_def)
  obtain err res buf' e' where c: "ioctl_io_cmd K ?c [] e = (err, res, buf', e')" by (metis prod_cases4)
  have "length (ctx_data (ctx_of (blk e) (page e) r ?c)) < 262144" for r
    by (simp add: ctx_of_def length_extent_blk [OF ok] noaxis_cmd_simps)
  then have "npsum (ctx_of (blk e) (page e) r ?c) = None" for r
    by (rule npsum_short_data) (simp_all add: ctx_of_def noaxis_cmd_simps)
  then have "err \<noteq> 0" using isp_read [OF ok _ noaxis_cmd_simps(1), of 32 "1024 + of_nat i * 64"] c by auto
  with c cmd_frame [OF ok c] e show ?thesis by (simp add: isp_noaxis_body_def same_def)
qed

lemma ISP_test_loop:
  assumes "same d e"
  shows "n \<le> 1024 \<Longrightarrow> \<exists>e' errs. for_do n (isp_noaxis_body K 32 debug) (e, out) =
    (e', out @ map (\<lambda>i. Printf ''iteration %d: err %d\<newline>'' [of_nat i, errs i]) [0..<n]) \<and>
    (\<forall>i. errs i \<noteq> 0) \<and> same d e'"
proof (induction n)
  case 0
  show ?case using assms by (intro exI [of _ e] exI [of _ "\<lambda>_. 1"]) simp
next
  case (Suc n)
  then obtain e' errs where e': "for_do n (isp_noaxis_body K 32 debug) (e, out) =
      (e', out @ map (\<lambda>i. Printf ''iteration %d: err %d\<newline>'' [of_nat i, errs i]) [0..<n])"
    "\<forall>i. errs i \<noteq> 0" "same d e'" by auto
  with noaxis_test_body [OF e'(3), of n debug "out @ map (\<lambda>i. Printf ''iteration %d: err %d\<newline>'' [of_nat i, errs i]) [0..<n]"] Suc.prems
  obtain e2 err where "isp_noaxis_body K 32 debug n (for_do n (isp_noaxis_body K 32 debug) (e, out)) =
      (e2, (out @ map (\<lambda>i. Printf ''iteration %d: err %d\<newline>'' [of_nat i, errs i]) [0..<n]) @
        [Printf ''iteration %d: err %d\<newline>'' [of_nat n, err]])" "err \<noteq> 0" "same d e2" by auto
  with e'(2) show ?case by (intro exI [of _ e2] exI [of _ "errs(n := err)"]) simp
qed

lemma ISP_test_run:
  assumes "ok d"
  shows "\<exists>e errs. ISP_test_main K d =
      (e, map (\<lambda>i. Printf ''iteration %d: err %d\<newline>'' [of_nat i, errs i]) [0..<1024] @ test_end) \<and>
    (\<forall>i. errs i \<noteq> 0) \<and> blk e = blk d \<and> page e = page d"
proof -
  from ISP_test_loop [OF stats_run_cmd [OF same_refl [OF assms] stats_opcodes(2)], of 1024 False "[]"]
  obtain e errs where e: "for_do 1024 (isp_noaxis_body K 32 False) (run_cmd K cmd_stats_clear d, []) =
      (e, map (\<lambda>i. Printf ''iteration %d: err %d\<newline>'' [of_nat i, errs i]) [0..<1024])"
    "\<forall>i. errs i \<noteq> 0" "same d e" by auto
  then have "same d (run_cmd K cmd_stats_clear (run_cmd K cmd_stats e))"
    using stats_run_cmd stats_opcodes by simp
  with e show ?thesis by (auto simp: ISP_test_main_def isp_noaxis_round_def same_def)
qed

lemma axis_body:
  assumes "same d e" "i < 1024" "axis \<in> {0, 1}" "page d 0 = replicate 4096 0" "length b = 4096"
  shows "\<exists>e'. isp_axis_body K axis a debug i (e, b, out) =
    Some (e', bytes_of (axis_sums axis (ints_of (matrix (blk d) i))), out @ axis_lines axis debug (blk d) i) \<and> same d e'"
proof -
  let ?c = "isp_axis_cmd axis (1024 + of_nat i * 64)" and ?pg = "bytes_of (axis_sums axis (ints_of (matrix (blk d) i)))"
  from assms(1) have ok: "ok e" and e: "blk e = blk d" "page e = page d" by (simp_all add: same_def)
  have data: "ctx_data (ctx_of (blk e) (page e) r ?c) = matrix (blk d) i" for r
    using assms(2) e by (simp add: ctx_of_def matrix_def axis_cmd_simps slba_nat)
  have p: "npsum (ctx_of (blk e) (page e) (rest ?c) ?c) = Some (0, ?pg)"
    using npsum_axis_eq [of "ctx_of (blk e) (page e) (rest ?c) ?c" axis] data assms(3,4) length_matrix [OF ok, of i] e
    by (simp add: ctx_of_def axis_cmd_simps)
  have "slba_of ?c + nlb_of ?c \<le> cap" using assms(2) capacity by (simp add: axis_cmd_simps slba_nat)
  from isp_run [OF ok axis_cmd_simps(1) this p] obtain buf1 e1 where 1: "ioctl_io_cmd K ?c [] e = (0, 0, buf1, e1)"
    "ok e1" "blk e1 = blk e" "page e1 = (page e)(unat (cdw15 ?c) := ?pg)" by metis
  from map_read_run [OF 1(2) page_cmd_simps(1,2) assms(5)] obtain res e2 where
    2: "ioctl_io_cmd K (page_read_cmd a) b e1 = (0, res, page e1 (unat (cdw15 (page_read_cmd a))), e2)"
    "ok e2" "blk e2 = blk e1" "page e2 = page e1" by metis
  from map_clear_run [OF 2(2) page_cmd_simps(4)] obtain res3 buf3 e3 where
    3: "ioctl_io_cmd K page_clear_cmd [] e2 = (0, res3, buf3, e3)"
    "ok e3" "blk e3 = blk e2" "page e3 = (page e2)(unat (cdw15 page_clear_cmd) := replicate 4096 0)" by metis
  have pg: "page e1 0 = ?pg" using 1(4) by (simp add: axis_cmd_simps)
  have "page e3 = page d"
    using 1(4) 2(4) 3(4) e assms(4) by (auto simp: axis_cmd_simps page_cmd_simps fun_eq_iff)
  then have "same d e3" using 1 2 3 e by (simp add: same_def)
  moreover have "isp_axis_body K axis a debug i (e, b, out) = Some (e3, ?pg, out @ axis_lines axis debug (blk d) i)"
    using 1(1) 2(1) 3(1) pg
    by (simp add: isp_axis_body_def page_cmd_simps print_ints_eq axis_lines_def)
  ultimately show ?thesis by blast
qed

lemma axis_round:
  assumes "same d e" "axis \<in> {0, 1}" "page d 0 = replicate 4096 0"
  shows "\<exists>e'. isp_axis_round K axis a debug (e, b, out) =
    Some (e', bytes_of (axis_sums axis (ints_of (matrix (blk d) 1023))),
      out @ concat (map (axis_lines axis debug (blk d)) [0..<1024])) \<and> same d e'"
proof -
  define R where "R i e b \<longleftrightarrow> same d e \<and> length b = 4096 \<and>
    (0 < i \<longrightarrow> b = bytes_of (axis_sums axis (ints_of (matrix (blk d) (i - 1)))))" for i e b
  have "\<exists>e' b'. for_loop 1024 (isp_axis_body K axis a debug) (e, replicate 4096 0, out) =
      Some (e', b', out @ concat (map (axis_lines axis debug (blk d)) [0..<1024])) \<and> R 1024 e' b'"
  proof (rule for_loop_lines)
    show "R 0 e (replicate 4096 0)" using assms(1) by (simp add: R_def)
  next
    fix i e b out
    assume i: "i < 1024" and r: "R i e b"
    have "length b = 4096" "same d e" using r by (simp_all add: R_def)
    from axis_body [OF this(2) i assms(2,3) this(1)] show "\<exists>e' b'. isp_axis_body K axis a debug i (e, b, out) =
      Some (e', b', out @ axis_lines axis debug (blk d) i) \<and> R (Suc i) e' b'" by (auto simp: R_def)
  qed
  then obtain e' b' where "for_loop 1024 (isp_axis_body K axis a debug) (e, replicate 4096 0, out) =
      Some (e', b', out @ concat (map (axis_lines axis debug (blk d)) [0..<1024]))" "R 1024 e' b'" by blast
  moreover from this(2) have "same d (run_cmd K cmd_stats_clear (run_cmd K cmd_stats e'))"
    using stats_run_cmd stats_opcodes by (simp add: R_def)
  ultimately show ?thesis by (simp add: isp_axis_round_def R_def)
qed

lemma axis_main:
  assumes "ok d" "axis \<in> {0, 1}" "page d 0 = replicate 4096 0"
  shows "\<exists>e' b'. isp_axis_main n debug axis K a b d =
    Some (e', b', concat (map (\<lambda>t. concat (map (axis_lines axis debug (blk d)) [0..<1024])) [0..<n])) \<and> same d e' \<and>
    (0 < n \<longrightarrow> b' = bytes_of (axis_sums axis (ints_of (matrix (blk d) 1023))))"
  unfolding isp_axis_main_def
proof (rule for_loop_lines_Nil)
  show "same d (run_cmd K cmd_stats_clear d) \<and> (0 < (0::nat) \<longrightarrow> b = bytes_of (axis_sums axis (ints_of (matrix (blk d) 1023))))"
    using stats_run_cmd [OF same_refl [OF assms(1)] stats_opcodes(2)] by simp
next
  fix i e b out
  assume "same d e \<and> (0 < (i::nat) \<longrightarrow> b = bytes_of (axis_sums axis (ints_of (matrix (blk d) 1023))))"
  with axis_round [OF _ assms(2,3)] show "\<exists>e' b'. isp_axis_round K axis a debug (e, b, out) =
    Some (e', b', out @ concat (map (axis_lines axis debug (blk d)) [0..<1024])) \<and>
    same d e' \<and> (0 < Suc i \<longrightarrow> b' = bytes_of (axis_sums axis (ints_of (matrix (blk d) 1023))))" by simp
qed

lemma ISP_axis_run:
  assumes "ok d" "axis \<in> {0, 1}" "page d 0 = replicate 4096 0"
  shows "\<exists>e. isp_axis_main 32 False axis K a b d =
    Some (e, bytes_of (axis_sums axis (ints_of (matrix (blk d) 1023))), []) \<and> blk e = blk d \<and> page e = page d"
  using axis_main [OF assms, of 32 False a b] by (auto simp: axis_lines_def same_def)

end

interpretation ssd_np: npsum_ssd "ssd_kernel (66560 + n) npsum" ssd_ok ssd_blk ssd_page ssd_rest "66560 + n" for n
  by unfold_locales simp

lemma ssd_np_ref: "npsum_ssd (ssd_kernel 66560 npsum) ssd_ok ssd_blk ssd_page ssd_rest 66560"
  using ssd_np.npsum_ssd_axioms [of 0] by simp

section \<open>Properties\<close>

text \<open>
  C23: ISP-axis0 and ISP-axis1 on an SSD with npsum inserted and a clear map page: the program
  returns, reports no error, leaves the sums of the last matrix in its buffer, and leaves blocks and
  map pages of the SSD as they were, so that the next run starts from a clear page again.
\<close>

theorem ISP_axis_runs_clean:
  assumes "npsum_ssd K ok blk page rest cap" "ok d" "page d 0 = replicate 4096 0"
  shows "(\<exists>e. ISP_axis0_main K a buf d = Some (e, bytes_of (axis_sums 0 (ints_of (matrix (blk d) 1023))), test_end) \<and>
      blk e = blk d \<and> page e = page d) \<and>
    (\<exists>e. ISP_axis1_main K a buf d = Some (e, bytes_of (axis_sums 1 (ints_of (matrix (blk d) 1023))), test_end) \<and>
      blk e = blk d \<and> page e = page d)"
  using npsum_ssd.ISP_axis_run [OF assms(1,2) _ assms(3), of 0 a buf] npsum_ssd.ISP_axis_run [OF assms(1,2) _ assms(3), of 1 a buf]
  by (auto simp: ISP_axis0_main_def ISP_axis1_main_def)

theorem ISP_axis_runs_clean_witness:
  "(\<exists>e. ISP_axis0_main (ssd_kernel 66560 npsum) 8192 (replicate 4096 7) ones_ssd =
      Some (e, bytes_of (axis_sums 0 (ints_of (matrix (ssd_blk ones_ssd) 1023))), test_end) \<and>
      ssd_blk e = ssd_blk ones_ssd \<and> ssd_page e = ssd_page ones_ssd) \<and>
   (\<exists>e. ISP_axis1_main (ssd_kernel 66560 npsum) 8192 (replicate 4096 7) ones_ssd =
      Some (e, bytes_of (axis_sums 1 (ints_of (matrix (ssd_blk ones_ssd) 1023))), test_end) \<and>
      ssd_blk e = ssd_blk ones_ssd \<and> ssd_page e = ssd_page ones_ssd)"
  by (rule ISP_axis_runs_clean [OF ssd_np_ref ssd_ok_ones ssd_page_ones])

text \<open>
  ISP-test asks the SSD for half a matrix (32 blocks) while the inserted program reads a whole
  one. On an SSD that runs npsum.c and reports a run out of bounds as an error, every request fails:
  the program prints 1024 error lines and no sum, whatever the matrices are.
\<close>

lemma ISP_test_all_requests_fail:
  assumes "npsum_ssd K ok blk page rest cap" "ok d"
  shows "\<exists>e errs. ISP_test_main K d =
      (e, map (\<lambda>i. Printf ''iteration %d: err %d\<newline>'' [of_nat i, errs i]) [0..<1024] @ test_end) \<and>
    (\<forall>i. errs i \<noteq> 0) \<and> blk e = blk d \<and> page e = page d"
  by (rule npsum_ssd.ISP_test_run [OF assms])

end
