(* ===== verification/Npsum_Host.thy ===== *)
theory Npsum_Host
  imports Npsum_Isp
begin

text \<open>
  The programs of \<open>src/npsum\<close> that read the matrices and sum them on the host: \<open>host_noaxis.c\<close>,
  \<open>host_debug.c\<close>, \<open>host_axis0.c\<close>, \<open>host_axis1.c\<close>, \<open>host_debug_axis0.c\<close>, the reference answer
  \<open>ans/axis0.c\<close>, and \<open>generate_random_matrix.c\<close>, which writes the matrices. Their state is the
  device, the allocated buffers and the printed lines; the times they print are left out.
\<close>

section \<open>Sums of all entries\<close>

definition host_read_io :: "u64 \<Rightarrow> u64 \<Rightarrow> nvme_user_io" where
  "host_read_io buf slba = \<lparr>io_opcode = 0x02, io_flags = 0, control = 0, nblocks = 64 - 1, rsvd = 0,
     io_metadata = 0, io_addr = buf, io_slba = slba, dsmgmt = 0, reftag = 0, appmask = 0, apptag = 0\<rparr>"

definition host_noaxis_body ::
  "'d kernel \<Rightarrow> u64 \<Rightarrow> bool \<Rightarrow> nat \<Rightarrow> 'd \<times> buffer \<times> event list \<Rightarrow> ('d \<times> buffer \<times> event list) option" where
  "host_noaxis_body K a debug i st =
     (let (d, buf, out) = st;
          (err, buf, d) = ioctl_submit_io K (host_read_io a (1024 + of_nat i * 64)) buf d
      in if err \<noteq> 0 then Some (d, buf, out @ [Printf ''iteration %d: err %d\<newline>'' [of_nat i, err]])
         else do {
           s \<leftarrow> sum_loop MATRIX_ELEMENTS buf 0;
           Some (d, buf, out @ sum_warning 33000000 34000000 s @
             (if debug then [Printf ''%d\<newline>'' [s]] else [])) })"

definition host_end :: "event list" where
  "host_end = [Printf ''---- Test end ----\<newline>'' [], Printf ''Average time : %.2f ms\<newline>'' [],
     Printf ''Average read time : %.2f ms\<newline>'' [], Printf ''Average comp time : %.2f ms\<newline>'' []]"

definition host_noaxis_main :: "'d kernel \<Rightarrow> u64 \<Rightarrow> buffer \<Rightarrow> 'd \<Rightarrow> ('d \<times> buffer \<times> event list) option" where
  "host_noaxis_main K a buf d = do {
     (d, buf, out) \<leftarrow> for_loop 16 (\<lambda>t. for_loop NUM_MATRIX (host_noaxis_body K a False)) (d, buf, []);
     Some (d, buf, out @ host_end) }"

definition host_debug_main :: "'d kernel \<Rightarrow> u64 \<Rightarrow> buffer \<Rightarrow> 'd \<Rightarrow> ('d \<times> buffer \<times> event list) option" where
  "host_debug_main K a buf d = for_loop 1 (\<lambda>t. for_loop NUM_MATRIX (host_noaxis_body K a True)) (d, buf, [])"

section \<open>Sums along an axis\<close>

text \<open>
  The state holds the read buffer and the result array. \<open>host_axis0.c\<close> and \<open>host_axis1.c\<close> never
  set the result array to zero; \<open>host_debug_axis0.c\<close> does so before every matrix.
\<close>

definition host_axis_body ::
  "'d kernel \<Rightarrow> u64 \<Rightarrow> nat \<Rightarrow> nat \<Rightarrow> bool \<Rightarrow> nat \<Rightarrow>
   'd \<times> (buffer \<times> buffer) \<times> event list \<Rightarrow> ('d \<times> (buffer \<times> buffer) \<times> event list) option" where
  "host_axis_body K a rows cols debug i st =
     (let (d, (buf, res), out) = st;
          res = (if debug then replicate 4096 0 else res);
          (err, buf, d) = ioctl_submit_io K (host_read_io a (1024 + of_nat i * 64)) buf d
      in if err \<noteq> 0 then Some (d, (buf, res), out @ [Printf ''iteration %d: err %d\<newline>'' [of_nat i, err]])
         else do {
           res \<leftarrow> col_sums rows cols buf res;
           lines \<leftarrow> (if debug then print_ints 64 res else Some []);
           Some (d, (buf, res), out @ lines) })"

definition host_axis_main ::
  "nat \<Rightarrow> nat \<Rightarrow> 'd kernel \<Rightarrow> u64 \<Rightarrow> buffer \<Rightarrow> buffer \<Rightarrow> 'd \<Rightarrow> ('d \<times> (buffer \<times> buffer) \<times> event list) option" where
  "host_axis_main rows cols K a buf res d = do {
     (d, bufs, out) \<leftarrow> for_loop 32 (\<lambda>t. for_loop NUM_MATRIX (host_axis_body K a rows cols False)) (d, (buf, res), []);
     Some (d, bufs, out @ host_end) }"

definition host_axis0_main ::
  "'d kernel \<Rightarrow> u64 \<Rightarrow> buffer \<Rightarrow> buffer \<Rightarrow> 'd \<Rightarrow> ('d \<times> (buffer \<times> buffer) \<times> event list) option" where
  "host_axis0_main = host_axis_main 64 1024"

definition host_axis1_main ::
  "'d kernel \<Rightarrow> u64 \<Rightarrow> buffer \<Rightarrow> buffer \<Rightarrow> 'd \<Rightarrow> ('d \<times> (buffer \<times> buffer) \<times> event list) option" where
  "host_axis1_main = host_axis_main 1024 64"

definition host_debug_axis0_main ::
  "'d kernel \<Rightarrow> u64 \<Rightarrow> buffer \<Rightarrow> 'd \<Rightarrow> ('d \<times> (buffer \<times> buffer) \<times> event list) option" where
  "host_debug_axis0_main K a buf d =
     for_loop 1 (\<lambda>t. for_loop NUM_MATRIX (host_axis_body K a 64 1024 True)) (d, (buf, replicate 4096 0), [])"

text \<open>
  \<open>ans/axis0.c\<close> reads a matrix from its standard input; \<open>buf\<close> is the buffer after \<open>read\<close>.
\<close>

definition ans_axis0_main :: "buffer \<Rightarrow> event list option" where
  "ans_axis0_main buf = do {
     res \<leftarrow> col_sums 64 1024 buf (replicate 4096 0);
     print_ints 64 res }"

section \<open>Generating the matrices\<close>

fun decimal :: "nat \<Rightarrow> string" where
  "decimal n = (if n < 10 then [char_of (48 + n)] else decimal (n div 10) @ [char_of (48 + n mod 10)])"

declare decimal.simps [simp del]

text \<open>
  \<open>rnd k\<close> is the value of the \<open>k\<close>-th call of \<open>rand\<close>; the remainder is that of C, of non-negative
  numbers. The state holds the device, the buffer with the files written, and the printed lines.
\<close>

definition fill_matrix :: "(nat \<Rightarrow> cint) \<Rightarrow> nat \<Rightarrow> buffer \<Rightarrow> (buffer \<times> cint) option" where
  "fill_matrix rnd it buf = for_loop MATRIX_ELEMENTS
     (\<lambda>i (buf, s). do {
        buf \<leftarrow> st32 buf i (rnd (it * MATRIX_ELEMENTS + i) mod 1024);
        v \<leftarrow> ld32 buf i;
        Some (buf, s + v) }) (buf, 0)"

definition host_write_io :: "u64 \<Rightarrow> u64 \<Rightarrow> nvme_user_io" where
  "host_write_io buf slba = \<lparr>io_opcode = 0x01, io_flags = 0, control = 0, nblocks = 63, rsvd = 0,
     io_metadata = 0, io_addr = buf, io_slba = slba, dsmgmt = 0, reftag = 0, appmask = 0, apptag = 0\<rparr>"

definition generate_body ::
  "'d kernel \<Rightarrow> u64 \<Rightarrow> (nat \<Rightarrow> cint) \<Rightarrow> nat \<Rightarrow> 'd \<times> (buffer \<times> (string \<times> buffer) list) \<times> event list \<Rightarrow>
   ('d \<times> (buffer \<times> (string \<times> buffer) list) \<times> event list) option" where
  "generate_body K a rnd it st =
     (let (d, (buf, files), out) = st in do {
        (buf, s) \<leftarrow> fill_matrix rnd it buf;
        let files = files @ [(''./matrices/matrix'' @ decimal it @ ''.txt'', buf)];
            (err, buf, d) = ioctl_submit_io K (host_write_io a (1024 + 64 * of_nat it)) buf d
        in Some (d, (buf, files), out @
             (if err \<noteq> 0 then [Printf ''error %d occured while writing matrix %d\<newline>'' [err, of_nat it]] else [])) })"

definition generate_main ::
  "'d kernel \<Rightarrow> u64 \<Rightarrow> (nat \<Rightarrow> cint) \<Rightarrow> buffer \<Rightarrow> 'd \<Rightarrow>
   ('d \<times> (buffer \<times> (string \<times> buffer) list) \<times> event list) option" where
  "generate_main K a rnd buf d = for_loop NUM_MATRIX (generate_body K a rnd) (d, (buf, []), [])"

section \<open>Runs on an SSD that holds the matrices\<close>

lemma host_read_simps:
  "io_opcode (host_read_io a s) = 0x02" "unat (nblocks (host_read_io a s)) = 63" "io_slba (host_read_io a s) = s"
  by (simp_all add: host_read_io_def)

lemma host_write_simps:
  "io_opcode (host_write_io a s) = 0x01" "unat (nblocks (host_write_io a s)) = 63" "io_slba (host_write_io a s) = s"
  by (simp_all add: host_write_io_def)

lemma slba_u64: "i < 1024 \<Longrightarrow> unat (1024 + of_nat i * 64 :: u64) = 1024 + i * 64"
  using unat_of_nat_u64 [of "1024 + i * 64"] by (simp add: mult.commute)

text \<open>The result array of the programs that do not clear it, after \<open>n\<close> matrices.\<close>

definition acc_cols :: "nat \<Rightarrow> nat \<Rightarrow> (nat \<Rightarrow> buffer) \<Rightarrow> nat \<Rightarrow> cint list \<Rightarrow> cint list" where
  "acc_cols rows cols f n ys = map (\<lambda>k. if k < cols
     then ys ! k + (\<Sum>m<n. col_sum rows cols (ints_of (matrix f m)) k) else ys ! k) [0..<length ys]"

lemma length_acc_cols [simp]: "length (acc_cols rows cols f n ys) = length ys"
  by (simp add: acc_cols_def)

lemma nth_acc_cols:
  "k < length ys \<Longrightarrow> acc_cols rows cols f n ys ! k = (if k < cols
     then ys ! k + (\<Sum>m<n. col_sum rows cols (ints_of (matrix f m)) k) else ys ! k)"
  by (simp add: acc_cols_def)

lemma acc_cols_0 [simp]: "acc_cols rows cols f 0 ys = ys"
  by (rule nth_equalityI) (simp_all add: nth_acc_cols)

lemma acc_cols_Suc:
  "acc_cols rows cols f (Suc n) ys = add_cols rows cols (ints_of (matrix f n)) (acc_cols rows cols f n ys)"
  by (rule nth_equalityI) (simp_all add: nth_acc_cols nth_add_cols add.assoc)

context matrix_ssd
begin

lemma host_read:
  assumes "same d e" "i < 1024" "length b = 262144"
  obtains e' where "ioctl_submit_io K (host_read_io a (1024 + of_nat i * 64)) b e = (0, matrix (blk d) i, e')" "same d e'"
proof -
  let ?u = "host_read_io a (1024 + of_nat i * 64)"
  from assms(1) have ok: "ok e" and e: "blk e = blk d" "page e = page d" by (simp_all add: same_def)
  have c: "unat (io_slba ?u) + unat (nblocks ?u) + 1 \<le> cap" "length b = 4096 * (unat (nblocks ?u) + 1)"
    using assms(2,3) capacity by (simp_all add: host_read_simps slba_u64)
  from io_read_run [OF ok host_read_simps(1) c] obtain e' where
    "ioctl_submit_io K ?u b e = (0, extent (blk e) (unat (io_slba ?u)) (unat (nblocks ?u) + 1), e')"
    "ok e'" "blk e' = blk e" "page e' = page e" .
  with e assms(2) that [of e'] show thesis by (simp add: host_read_simps slba_u64 matrix_def same_def)
qed

lemma host_noaxis_body:
  assumes "same d e" "i < 1024" "length b = 262144"
  shows "\<exists>e'. Npsum_Host.host_noaxis_body K a debug i (e, b, out) =
    Some (e', matrix (blk d) i, out @ sum_lines 33000000 34000000 debug (blk d) i) \<and> same d e'"
proof -
  from host_read [OF assms, of a] obtain e' where
    e': "ioctl_submit_io K (host_read_io a (1024 + of_nat i * 64)) b e = (0, matrix (blk d) i, e')" "same d e'" .
  then have "ok e'" "blk e' = blk d" by (simp_all add: same_def)
  with length_matrix [of e' i] have "length (matrix (blk d) i) = 262144" by simp
  then have "sum_loop 65536 (matrix (blk d) i) 0 = Some (matrix_sum (blk d) i)"
    by (simp add: sum_loop_eq matrix_sum_def)
  with e' show ?thesis by (simp add: Npsum_Host.host_noaxis_body_def sum_lines_def)
qed

lemma host_noaxis_loop:
  assumes "same d e" "length b = 262144"
  shows "\<exists>e' b'. for_loop 1024 (Npsum_Host.host_noaxis_body K a debug) (e, b, out) =
    Some (e', b', out @ concat (map (sum_lines 33000000 34000000 debug (blk d)) [0..<1024])) \<and> same d e' \<and> length b' = 262144"
proof (rule for_loop_lines [where R = "\<lambda>_ e b. same d e \<and> length b = 262144"])
  fix i :: nat and e out and b :: buffer
  assume i: "i < 1024" and r: "same d e \<and> length b = 262144"
  from r have "ok e" "blk e = blk d" by (simp_all add: same_def)
  with length_matrix [of e i] have "length (matrix (blk d) i) = 262144" by simp
  with host_noaxis_body [of d e i b a debug out] i r show "\<exists>e' b'. Npsum_Host.host_noaxis_body K a debug i (e, b, out) =
    Some (e', b', out @ sum_lines 33000000 34000000 debug (blk d) i) \<and> same d e' \<and> length b' = 262144" by auto
qed (use assms in simp)

lemma host_noaxis_rounds:
  assumes "same d e" "length b = 262144"
  shows "\<exists>e' b'. for_loop n (\<lambda>t. for_loop 1024 (Npsum_Host.host_noaxis_body K a debug)) (e, b, []) =
    Some (e', b', concat (map (\<lambda>t. concat (map (sum_lines 33000000 34000000 debug (blk d)) [0..<1024])) [0..<n])) \<and>
    same d e' \<and> length b' = 262144"
  by (rule for_loop_lines_Nil [where R = "\<lambda>_ e b. same d e \<and> length b = 262144"])
    (use assms host_noaxis_loop in auto)

lemma host_axis_step:
  assumes "same d e" "i < 1024" "length b = 262144" "length r = 4096" "rows * cols = 65536" "cols \<le> 1024"
  shows "\<exists>e' r'. host_axis_body K a rows cols debug i (e, (b, r), out) =
    Some (e', (matrix (blk d) i, r'), out @ (if debug then int_lines 64 (ints_of r') else [])) \<and> same d e' \<and> length r' = 4096 \<and>
    ints_of r' = add_cols rows cols (ints_of (matrix (blk d) i)) (if debug then replicate 1024 0 else ints_of r)"
proof -
  from host_read [OF assms(1-3), of a] obtain e' where
    e': "ioctl_submit_io K (host_read_io a (1024 + of_nat i * 64)) b e = (0, matrix (blk d) i, e')" "same d e'" .
  then have "ok e'" "blk e' = blk d" by (simp_all add: same_def)
  with length_matrix [of e' i] have len: "length (matrix (blk d) i) = 262144" by simp
  define s where "s = (if debug then replicate 4096 0 else r)"
  have s: "length s = 4096" "ints_of s = (if debug then replicate 1024 0 else ints_of r)"
    using assms(4) by (simp_all add: s_def)
  obtain r' where r': "col_sums rows cols (matrix (blk d) i) s = Some r'" "length r' = 4096"
    "ints_of r' = add_cols rows cols (ints_of (matrix (blk d) i)) (ints_of s)"
    using col_sums_eq [of rows cols "matrix (blk d) i" s] len s assms(5,6) by auto
  have "print_ints 64 r' = Some (int_lines 64 (ints_of r'))" using r'(2) by (simp add: print_ints_eq)
  with e' r' s(2) s_def show ?thesis by (simp add: host_axis_body_def Let_def)
qed

lemma host_debug_axis_loop:
  assumes "same d e" "length b = 262144" "length r = 4096"
  shows "\<exists>e' br. for_loop 1024 (host_axis_body K a 64 1024 True) (e, (b, r), out) =
    Some (e', br, out @ concat (map (axis_lines 0 True (blk d)) [0..<1024])) \<and> same d e' \<and>
    length (fst br) = 262144 \<and> length (snd br) = 4096"
proof (rule for_loop_lines [where R = "\<lambda>_ e br. same d e \<and> length (fst br) = 262144 \<and> length (snd br) = 4096"])
  fix i :: nat and e out and br :: "buffer \<times> buffer"
  assume i: "i < 1024" and r: "same d e \<and> length (fst br) = 262144 \<and> length (snd br) = 4096"
  from r have "ok e" "blk e = blk d" by (simp_all add: same_def)
  with length_matrix [of e i] have "length (matrix (blk d) i) = 262144" by simp
  with host_axis_step [of d e i "fst br" "snd br" 64 1024 a True out] i r
  show "\<exists>e' b'. host_axis_body K a 64 1024 True i (e, br, out) =
    Some (e', b', out @ axis_lines 0 True (blk d) i) \<and> same d e' \<and> length (fst b') = 262144 \<and> length (snd b') = 4096"
    by (auto simp: axis_lines_def axis_sums_def)
qed (use assms in simp)

lemma host_axis_acc_loop:
  assumes "same d e" "length b = 262144" "length r = 4096" "rows * cols = 65536" "cols \<le> 1024"
  shows "\<exists>e' br. for_loop 1024 (host_axis_body K a rows cols False) (e, (b, r), out) = Some (e', br, out) \<and> same d e' \<and>
    length (fst br) = 262144 \<and> length (snd br) = 4096 \<and>
    ints_of (snd br) = acc_cols rows cols (blk d) 1024 (ints_of r)"
proof -
  have "\<exists>e' br. for_loop 1024 (host_axis_body K a rows cols False) (e, (b, r), out) =
    Some (e', br, out @ concat (map (\<lambda>_. []) [0..<1024])) \<and> (same d e' \<and>
    length (fst br) = 262144 \<and> length (snd br) = 4096 \<and>
    ints_of (snd br) = acc_cols rows cols (blk d) 1024 (ints_of r))"
  proof (rule for_loop_lines [where R = "\<lambda>i e br. same d e \<and> length (fst br) = 262144 \<and> length (snd br) = 4096 \<and>
      ints_of (snd br) = acc_cols rows cols (blk d) i (ints_of r)"])
    fix i :: nat and e out and br :: "buffer \<times> buffer"
    assume i: "i < 1024" and r: "same d e \<and> length (fst br) = 262144 \<and> length (snd br) = 4096 \<and>
      ints_of (snd br) = acc_cols rows cols (blk d) i (ints_of r)"
    from r have "ok e" "blk e = blk d" by (simp_all add: same_def)
    with length_matrix [of e i] have "length (matrix (blk d) i) = 262144" by simp
    with host_axis_step [of d e i "fst br" "snd br" rows cols a False out] i r assms(4,5)
    show "\<exists>e' b'. host_axis_body K a rows cols False i (e, br, out) = Some (e', b', out @ []) \<and> same d e' \<and>
      length (fst b') = 262144 \<and> length (snd b') = 4096 \<and>
      ints_of (snd b') = acc_cols rows cols (blk d) (Suc i) (ints_of r)"
      by (auto simp: acc_cols_Suc)
  qed (use assms in simp)
  then show ?thesis by simp
qed

lemma host_axis_rounds:
  assumes "same d e" "length b = 262144" "length r = 4096" "rows * cols = 65536" "cols \<le> 1024"
  shows "\<exists>e' br. for_loop n (\<lambda>t. for_loop 1024 (host_axis_body K a rows cols False)) (e, (b, r), []) = Some (e', br, []) \<and>
    same d e' \<and> length (fst br) = 262144 \<and> length (snd br) = 4096 \<and>
    ints_of (snd br) = (acc_cols rows cols (blk d) 1024 ^^ n) (ints_of r)"
proof -
  have "\<exists>e' br. for_loop n (\<lambda>t. for_loop 1024 (host_axis_body K a rows cols False)) (e, (b, r), []) =
      Some (e', br, concat (map (\<lambda>_. []) [0..<n])) \<and>
    (same d e' \<and> length (fst br) = 262144 \<and> length (snd br) = 4096 \<and>
    ints_of (snd br) = (acc_cols rows cols (blk d) 1024 ^^ n) (ints_of r))"
  proof (rule for_loop_lines_Nil [where R = "\<lambda>i e br. same d e \<and> length (fst br) = 262144 \<and> length (snd br) = 4096 \<and>
      ints_of (snd br) = (acc_cols rows cols (blk d) 1024 ^^ i) (ints_of r)"])
    fix i :: nat and e out and br :: "buffer \<times> buffer"
    assume r: "same d e \<and> length (fst br) = 262144 \<and> length (snd br) = 4096 \<and>
      ints_of (snd br) = (acc_cols rows cols (blk d) 1024 ^^ i) (ints_of r)"
    with host_axis_acc_loop [of d e "fst br" "snd br" rows cols a out] assms(4,5)
    show "\<exists>e' b'. for_loop 1024 (host_axis_body K a rows cols False) (e, br, out) = Some (e', b', out @ []) \<and> same d e' \<and>
      length (fst b') = 262144 \<and> length (snd b') = 4096 \<and>
      ints_of (snd b') = (acc_cols rows cols (blk d) 1024 ^^ Suc i) (ints_of r)"
      by auto
  qed (use assms in simp)
  then show ?thesis by simp
qed

end

lemma nth_acc_cols_pow:
  "k < cols \<Longrightarrow> k < length ys \<Longrightarrow> (acc_cols rows cols f m ^^ n) ys ! k =
     ys ! k + of_nat n * (\<Sum>j<m. col_sum rows cols (ints_of (matrix f j)) k)"
proof (induction n)
  case (Suc n)
  have "length ((acc_cols rows cols f m ^^ n) ys) = length ys" by (induction n) simp_all
  with Suc show ?case by (simp add: nth_acc_cols algebra_simps)
qed simp

section \<open>The generated matrices\<close>

definition gen_matrix :: "(nat \<Rightarrow> cint) \<Rightarrow> nat \<Rightarrow> cint list" where
  "gen_matrix rnd it = map (\<lambda>i. rnd (it * 65536 + i) mod 1024) [0..<65536]"

lemma elements: "256 * 1024 div 4 = (65536 :: nat)"
  by simp

lemma fill_matrix_eq:
  assumes "length buf = 262144"
  shows "\<exists>s. fill_matrix rnd it buf = Some (bytes_of (gen_matrix rnd it), s) \<and> s = sum_list (gen_matrix rnd it)"
proof -
  let ?v = "\<lambda>i. rnd (it * 65536 + i) mod 1024"
  define P where "P = (\<lambda>n (b :: buffer, s). length b = 262144 \<and>
    take n (ints_of b) = map ?v [0..<n] \<and> s = sum_list (map ?v [0..<n]))"
  have "\<exists>st. fill_matrix rnd it buf = Some st \<and> P 65536 st"
    unfolding fill_matrix_def elements
  proof (rule for_loop_inv [where P = P])
    show "P 0 (buf, 0)" using assms by (simp add: P_def)
  next
    fix i st
    assume i: "i < 65536" and "P i st"
    then obtain b s where st: "st = (b, s)" and "P i (b, s)" by (cases st) simp
    then have b: "length b = 262144" "take i (ints_of b) = map ?v [0..<i]" "s = sum_list (map ?v [0..<i])"
      by (simp_all add: P_def)
    obtain b' where b': "st32 b i (?v i) = Some b'" using st32_Some [of i b "?v i"] i b(1) by auto
    have ints: "ints_of b' = (ints_of b)[i := ?v i]" and len: "length b' = 262144"
      using st32_ints_of [OF b'] st32_eq_Some [OF b'] b(1) by simp_all
    have "ld32 b' i = Some (?v i)" using i b(1) len by (simp add: ld32_ints_of ints)
    moreover have "take (Suc i) (ints_of b') = map ?v [0..<Suc i]"
      using i b by (simp add: ints take_Suc_conv_app_nth)
    ultimately show "\<exists>st'. (case st of (buf, s) \<Rightarrow> do { buf \<leftarrow> st32 buf i (?v i); v \<leftarrow> ld32 buf i; Some (buf, s + v) }) =
        Some st' \<and> P (Suc i) st'"
      using st b' b(3) len by (simp add: P_def)
  qed
  then obtain b s where fm: "fill_matrix rnd it buf = Some (b, s)" and p: "P 65536 (b, s)" by auto
  from p have len: "length b = 262144" by (simp add: P_def)
  then have "take 65536 (ints_of b) = ints_of b" by simp
  with p have "ints_of b = gen_matrix rnd it" "s = sum_list (gen_matrix rnd it)"
    by (simp_all add: P_def gen_matrix_def)
  moreover from this(1) have "b = bytes_of (gen_matrix rnd it)" using bytes_of_ints_of [of b] len by simp
  ultimately show ?thesis using fm by simp
qed

text \<open>The entries are below 1024, so that the sum of a matrix is the sum of its entries as integers.\<close>

lemma length_gen_matrix [simp]: "length (gen_matrix rnd it) = 65536"
  by (simp add: gen_matrix_def)

lemma unat_mod_1024: "unat (w mod 1024 :: cint) = unat w mod 1024"
  by (simp add: unat_mod)

lemma gen_matrix_entry: "x \<in> set (gen_matrix rnd it) \<Longrightarrow> unat x \<le> 1023"
proof -
  assume "x \<in> set (gen_matrix rnd it)"
  then obtain w where "x = w mod 1024" by (auto simp: gen_matrix_def)
  then have "unat x = unat w mod 1024" by (simp add: unat_mod_1024)
  also have "\<dots> < 1024" by simp
  finally show ?thesis by simp
qed

lemma gen_matrix_sum_bound: "sum_list (map unat (gen_matrix rnd it)) \<le> 67043328"
  using sum_list_map_bound [of "gen_matrix rnd it" unat 1023, OF gen_matrix_entry] by simp

lemma sint_gen_matrix: "sint (sum_list (gen_matrix rnd it)) = int (sum_list (map unat (gen_matrix rnd it)))"
proof -
  have u: "unat (sum_list (gen_matrix rnd it)) = sum_list (map unat (gen_matrix rnd it))"
    using gen_matrix_sum_bound [of rnd it] by (intro unat_sum_list) linarith
  then have "unat (sum_list (gen_matrix rnd it)) < 2147483648"
    using gen_matrix_sum_bound [of rnd it] by linarith
  with u show ?thesis by (simp add: sint_cint)
qed

definition matrix_file :: "(nat \<Rightarrow> cint) \<Rightarrow> nat \<Rightarrow> string \<times> buffer" where
  "matrix_file rnd m = (''./matrices/matrix'' @ decimal m @ ''.txt'', bytes_of (gen_matrix rnd m))"

context matrix_ssd
begin

definition generated :: "'a \<Rightarrow> (nat \<Rightarrow> cint) \<Rightarrow> nat \<Rightarrow> 'a \<Rightarrow> bool" where
  "generated d rnd i e \<longleftrightarrow> ok e \<and> page e = page d \<and> (\<forall>m<i. matrix (blk e) m = bytes_of (gen_matrix rnd m)) \<and>
     (\<forall>b. b < 1024 \<or> 1024 + 64 * i \<le> b \<longrightarrow> blk e b = blk d b)"

lemma generate_step:
  assumes "generated d rnd i e" "i < 1024" "length b = 262144"
  shows "\<exists>e'. generate_body K a rnd i (e, (b, files), out) =
    Some (e', (bytes_of (gen_matrix rnd i), files @ [matrix_file rnd i]), out @ []) \<and> generated d rnd (Suc i) e'"
proof -
  let ?u = "host_write_io a (1024 + 64 * of_nat i)" and ?g = "bytes_of (gen_matrix rnd i)"
  have fm: "fill_matrix rnd i b = Some (?g, sum_list (gen_matrix rnd i))" using fill_matrix_eq [OF assms(3)] by blast
  have s: "unat (io_slba ?u) = 1024 + i * 64"
    using slba_u64 [OF assms(2)] by (simp add: host_write_simps mult.commute)
  from assms(1) have ok: "ok e" by (simp add: generated_def)
  have "unat (io_slba ?u) + unat (nblocks ?u) + 1 \<le> cap" "length ?g = 4096 * (unat (nblocks ?u) + 1)"
    using s assms(2) capacity by (simp_all add: host_write_simps)
  from io_write_run [OF ok host_write_simps(1) this] obtain e' where
    e': "ioctl_submit_io K ?u ?g e = (0, ?g, e')" "ok e'" "page e' = page e"
    "blk e' = write_blocks (blk e) (unat (io_slba ?u)) (unat (nblocks ?u) + 1) ?g" .
  have blk: "blk e' = write_blocks (blk e) (1024 + i * 64) 64 ?g"
    using e'(4) unfolding s by (simp add: host_write_simps)
  have "matrix (blk e') m = bytes_of (gen_matrix rnd m)" if "m < Suc i" for m
  proof (cases "m = i")
    case True
    then show ?thesis by (simp add: blk matrix_def extent_write_blocks)
  next
    case False
    with that have "m < i" by simp
    then have "matrix (blk e') m = matrix (blk e) m"
      unfolding blk matrix_def by (intro extent_write_blocks_disjoint) simp
    with \<open>m < i\<close> assms(1) show ?thesis by (simp add: generated_def)
  qed
  moreover have "blk e' b = blk d b" if "b < 1024 \<or> 1024 + 64 * Suc i \<le> b" for b
    using that assms(1) by (auto simp: blk write_blocks_def generated_def)
  ultimately have "generated d rnd (Suc i) e'" using e' assms(1) by (simp add: generated_def)
  then show ?thesis using fm e'(1) by (simp add: generate_body_def matrix_file_def)
qed

lemma generate_run:
  assumes "ok d" "length b = 262144"
  shows "\<exists>e'. generate_main K a rnd b d =
    Some (e', (bytes_of (gen_matrix rnd 1023), map (matrix_file rnd) [0..<1024]), []) \<and> generated d rnd 1024 e'"
proof -
  let ?R = "\<lambda>i e bf. generated d rnd i e \<and> length (fst bf) = 262144 \<and> snd bf = map (matrix_file rnd) [0..<i] \<and>
    (0 < i \<longrightarrow> fst bf = bytes_of (gen_matrix rnd (i - 1)))"
  have "\<exists>e' bf. generate_main K a rnd b d = Some (e', bf, concat (map (\<lambda>_. []) [0..<1024])) \<and> ?R 1024 e' bf"
    unfolding generate_main_def
  proof (rule for_loop_lines_Nil [where R = ?R])
    show "?R 0 d (b, [])" using assms by (simp add: generated_def)
  next
    fix i e out and bf :: "buffer \<times> (string \<times> buffer) list"
    assume "i < 1024" "?R i e bf"
    with generate_step [of d rnd i e "fst bf" a "snd bf" out]
    show "\<exists>e' bf'. generate_body K a rnd i (e, bf, out) = Some (e', bf', out @ []) \<and> ?R (Suc i) e' bf'"
      by (cases bf) auto
  qed
  then obtain e' bf where "generate_main K a rnd b d = Some (e', bf, [])" "?R 1024 e' bf" by auto
  moreover from this(2) have "bf = (bytes_of (gen_matrix rnd 1023), map (matrix_file rnd) [0..<1024])"
    by (simp add: prod_eq_iff)
  ultimately show ?thesis by blast
qed

end

lemma for_loop_1: "for_loop 1 f s = f 0 s"
  by (cases "f 0 s") simp_all

lemma concat_map_upt_1: "concat (map (\<lambda>t. xs) [0..<1]) = xs"
  by simp

lemma int_sum_list_unat: "int (sum_list (map unat xs)) = (\<Sum>x\<leftarrow>xs. int (unat x))"
  by (induction xs) (simp_all del: of_nat_unat)

fun is_sum_line :: "event \<Rightarrow> bool" where
  "is_sum_line (Printf f args) = (f = ''%d\<newline>'')"

lemma filter_sum_lines:
  "filter is_sum_line (concat (map (sum_lines lo hi True f) xs)) = map (\<lambda>i. Printf ''%d\<newline>'' [matrix_sum f i]) xs"
  by (induction xs) (auto simp: sum_lines_def sum_warning_def)

context npsum_ssd
begin

lemma ISP_debug_run:
  assumes "ok d"
  shows "\<exists>e. ISP_debug_main K d = (e, concat (map (sum_lines 30000000 40000000 True (blk d)) [0..<1024]))"
  using noaxis_rounds [OF assms, of 1 True] unfolding concat_map_upt_1 ISP_debug_main_def by blast

lemma host_debug_run:
  assumes "ok d" "length buf = 262144"
  shows "\<exists>e b. host_debug_main K a buf d =
    Some (e, b, concat (map (sum_lines 33000000 34000000 True (blk d)) [0..<1024]))"
  using host_noaxis_rounds [OF same_refl [OF assms(1)] assms(2), of 1 a True]
  unfolding concat_map_upt_1 host_debug_main_def by blast

lemma host_debug_axis0_run:
  assumes "ok d" "length buf = 262144"
  shows "\<exists>e br. host_debug_axis0_main K a buf d =
      Some (e, br, concat (map (axis_lines 0 True (blk d)) [0..<1024]))"
  using host_debug_axis_loop [OF same_refl [OF assms(1)] assms(2), of "replicate 4096 0" a "[]"]
  unfolding host_debug_axis0_main_def append_Nil for_loop_1 length_replicate by blast

lemma ISP_debug_axis0_run:
  assumes "ok d" "page d 0 = replicate 4096 0"
  shows "\<exists>e b. ISP_debug_axis0_main K a m d = Some (e, b, concat (map (axis_lines 0 True (blk d)) [0..<1024]))"
  using axis_main [OF assms(1) _ assms(2), of 0 1 True a m]
  unfolding concat_map_upt_1 ISP_debug_axis0_main_def by blast

lemma generate_then_debug:
  assumes "ok d" "length buf = 262144"
  shows "\<exists>e bufs. generate_main K a rnd buf d = Some (e, bufs, []) \<and>
    filter is_sum_line (snd (ISP_debug_main K e)) = map (\<lambda>i. Printf ''%d\<newline>'' [sum_list (gen_matrix rnd i)]) [0..<1024]"
proof -
  from generate_run [OF assms, of a rnd] obtain e bufs where e: "generate_main K a rnd buf d = Some (e, bufs, [])"
    "generated d rnd 1024 e" by blast
  from e(2) have "ok e" by (simp add: generated_def)
  from ISP_debug_run [OF this] obtain e' where
    e': "ISP_debug_main K e = (e', concat (map (sum_lines 30000000 40000000 True (blk e)) [0..<1024]))" by blast
  have "matrix_sum (blk e) i = sum_list (gen_matrix rnd i)" if "i < 1024" for i
    using e(2) that by (simp add: generated_def matrix_sum_def)
  then have "map (\<lambda>i. Printf ''%d\<newline>'' [matrix_sum (blk e) i]) [0..<1024] =
      map (\<lambda>i. Printf ''%d\<newline>'' [sum_list (gen_matrix rnd i)]) [0..<1024]"
    by (intro map_cong refl) (simp only: set_upt atLeastLessThan_iff)
  then have "filter is_sum_line (snd (ISP_debug_main K e)) = map (\<lambda>i. Printf ''%d\<newline>'' [sum_list (gen_matrix rnd i)]) [0..<1024]"
    by (simp only: e' snd_conv filter_sum_lines)
  with e(1) show ?thesis by (intro exI conjI)
qed

end

section \<open>Properties\<close>

text \<open>
  C2: The host and the SSD agree. On an SSD that runs npsum.c and holds the 1024 matrices, the sums
  host-debug computes from the blocks it reads are, line by line, the results ISP-debug gets from the
  SSD, and each is the sum of the entries of that matrix.
\<close>

theorem ISP_debug_agrees_with_host_debug:
  assumes "npsum_ssd K ok blk page rest cap" "ok d" "length buf = 262144"
  shows "\<exists>e b out. host_debug_main K a buf d = Some (e, b, out) \<and>
    filter is_sum_line out = filter is_sum_line (snd (ISP_debug_main K d)) \<and>
    filter is_sum_line out = map (\<lambda>i. Printf ''%d\<newline>'' [matrix_sum (blk d) i]) [0..<1024]"
proof -
  from npsum_ssd.host_debug_run [OF assms, of a] npsum_ssd.ISP_debug_run [OF assms(1,2)] obtain e b e' where
    "host_debug_main K a buf d = Some (e, b, concat (map (sum_lines 33000000 34000000 True (blk d)) [0..<1024]))"
    "ISP_debug_main K d = (e', concat (map (sum_lines 30000000 40000000 True (blk d)) [0..<1024]))" by blast
  then show ?thesis by (simp only: filter_sum_lines snd_conv) (intro exI conjI, rule refl, simp_all only: filter_sum_lines)
qed

theorem ISP_debug_agrees_with_host_debug_witness:
  "\<exists>e b out. host_debug_main (ssd_kernel 66560 npsum) 8192 (replicate 262144 0) ones_ssd = Some (e, b, out) \<and>
    filter is_sum_line out = filter is_sum_line (snd (ISP_debug_main (ssd_kernel 66560 npsum) ones_ssd)) \<and>
    filter is_sum_line out = map (\<lambda>i. Printf ''%d\<newline>'' [matrix_sum (ssd_blk ones_ssd) i]) [0..<1024]"
  by (rule ISP_debug_agrees_with_host_debug [OF ssd_np_ref ssd_ok_ones]) simp

text \<open>
  C12: The same for sums along axis 0. When the map page is clear at the start, ISP-debug-axis0
  prints exactly what host-debug-axis0 prints: for each matrix its first 64 column sums.
\<close>

theorem ISP_debug_axis0_agrees_with_host:
  assumes "npsum_ssd K ok blk page rest cap" "ok d" "length buf = 262144" "page d 0 = replicate 4096 0"
  shows "\<exists>e br e' m' out. host_debug_axis0_main K a buf d = Some (e, br, out) \<and>
    ISP_debug_axis0_main K a' m d = Some (e', m', out) \<and>
    out = concat (map (\<lambda>i. map (\<lambda>k. Printf ''%d '' [col_sum 64 1024 (ints_of (matrix (blk d) i)) k]) [0..<64] @
      [Printf ''\<newline>'' []]) [0..<1024])"
proof -
  have "axis_lines 0 True (blk d) = (\<lambda>i. map (\<lambda>k. Printf ''%d '' [col_sum 64 1024 (ints_of (matrix (blk d) i)) k]) [0..<64] @
      [Printf ''\<newline>'' []])"
    by (auto simp: axis_lines_def int_lines_def axis_sums_def nth_add_cols fun_eq_iff)
  with npsum_ssd.host_debug_axis0_run [OF assms(1-3), of a] npsum_ssd.ISP_debug_axis0_run [OF assms(1,2,4), of a' m]
  show ?thesis by metis
qed

theorem ISP_debug_axis0_agrees_with_host_witness:
  "\<exists>e br e' m' out. host_debug_axis0_main (ssd_kernel 66560 npsum) 8192 (replicate 262144 0) ones_ssd = Some (e, br, out) \<and>
    ISP_debug_axis0_main (ssd_kernel 66560 npsum) 8192 (replicate 4096 7) ones_ssd = Some (e', m', out) \<and>
    out = concat (map (\<lambda>i. map (\<lambda>k. Printf ''%d '' [col_sum 64 1024 (ints_of (matrix (ssd_blk ones_ssd) i)) k]) [0..<64] @
      [Printf ''\<newline>'' []]) [0..<1024])"
  by (rule ISP_debug_axis0_agrees_with_host [OF ssd_np_ref ssd_ok_ones _ ssd_page_ones]) simp

text \<open>
  C1: The matrices that generate-random-matrix writes come back as written, and their sums do not
  overflow. After the generator has run, without an error, ISP-debug prints for each matrix the sum
  of its generated entries, and that value is the sum over the integers, at most 67043328.
\<close>

theorem generated_matrices_sum_exactly:
  assumes "npsum_ssd K ok blk page rest cap" "ok d" "length buf = 262144"
  shows "(\<exists>e bufs. generate_main K a rnd buf d = Some (e, bufs, []) \<and>
      filter is_sum_line (snd (ISP_debug_main K e)) =
        map (\<lambda>i. Printf ''%d\<newline>'' [sum_list (gen_matrix rnd i)]) [0..<1024]) \<and>
    sint (sum_list (gen_matrix rnd i)) = (\<Sum>x\<leftarrow>gen_matrix rnd i. int (unat x)) \<and>
    sint (sum_list (gen_matrix rnd i)) \<le> 67043328"
proof (intro conjI)
  from npsum_ssd.generate_then_debug [OF assms, of a rnd] obtain e bufs where
    e: "generate_main K a rnd buf d = Some (e, bufs, [])"
      "filter is_sum_line (snd (ISP_debug_main K e)) = map (\<lambda>i. Printf ''%d\<newline>'' [sum_list (gen_matrix rnd i)]) [0..<1024]"
    by blast
  then show "\<exists>e bufs. generate_main K a rnd buf d = Some (e, bufs, []) \<and>
      filter is_sum_line (snd (ISP_debug_main K e)) =
        map (\<lambda>i. Printf ''%d\<newline>'' [sum_list (gen_matrix rnd i)]) [0..<1024]" by (intro exI conjI)
  show "sint (sum_list (gen_matrix rnd i)) = (\<Sum>x\<leftarrow>gen_matrix rnd i. int (unat x))"
    unfolding sint_gen_matrix by (rule int_sum_list_unat)
  show "sint (sum_list (gen_matrix rnd i)) \<le> 67043328"
    unfolding sint_gen_matrix using gen_matrix_sum_bound [of rnd i] by linarith
qed

theorem generated_matrices_sum_exactly_witness:
  "(\<exists>e bufs. generate_main (ssd_kernel 66560 npsum) 8192 (\<lambda>k. of_nat (3 * k + 5)) (replicate 262144 0) ones_ssd = Some (e, bufs, []) \<and>
      filter is_sum_line (snd (ISP_debug_main (ssd_kernel 66560 npsum) e)) =
        map (\<lambda>i. Printf ''%d\<newline>'' [sum_list (gen_matrix (\<lambda>k. of_nat (3 * k + 5)) i)]) [0..<1024]) \<and>
   sint (sum_list (gen_matrix (\<lambda>k. of_nat (3 * k + 5)) 2)) = (\<Sum>x\<leftarrow>gen_matrix (\<lambda>k. of_nat (3 * k + 5)) 2. int (unat x)) \<and>
   sint (sum_list (gen_matrix (\<lambda>k. of_nat (3 * k + 5)) 2)) \<le> 67043328"
  by (rule generated_matrices_sum_exactly [OF ssd_np_ref ssd_ok_ones]) simp

text \<open>
  host-axis0 never clears its result array. From any initial content of the allocated array, the
  array ends as that content plus 32 times the column sums of all 1024 matrices together: it is no
  matrix's sum, and it depends on uninitialised memory.
\<close>

lemma host_axis0_accumulates:
  assumes "matrix_ssd K ok blk page prog rest cap" "ok d" "length buf = 262144" "length res = 4096"
  shows "\<exists>e b r. host_axis0_main K a buf res d = Some (e, (b, r), host_end) \<and>
    (\<forall>k<1024. ints_of r ! k = ints_of res ! k + 32 * (\<Sum>m<1024. col_sum 64 1024 (ints_of (matrix (blk d) m)) k))"
proof -
  have ssd: "isp_ssd K ok blk page prog rest" using assms(1) by (simp add: matrix_ssd_def reliable_ssd_def)
  from matrix_ssd.host_axis_rounds [OF assms(1) isp_ssd.same_refl [OF ssd assms(2)] assms(3,4), of 64 1024 32 a]
  obtain e br where e: "for_loop 32 (\<lambda>t. for_loop 1024 (host_axis_body K a 64 1024 False)) (d, (buf, res), []) = Some (e, br, [])"
    "ints_of (snd br) = (acc_cols 64 1024 (blk d) 1024 ^^ 32) (ints_of res)"
    by auto
  have "k < 1024 \<Longrightarrow> ints_of (snd br) ! k = ints_of res ! k + 32 * (\<Sum>m<1024. col_sum 64 1024 (ints_of (matrix (blk d) m)) k)" for k
    using assms(4) e(2) by (simp add: nth_acc_cols_pow)
  with e(1) show ?thesis
    by (cases br) (simp add: host_axis0_main_def host_axis_main_def)
qed

end
