(* ===== verification/Fork_Model.thy ===== *)
theory Fork_Model
  imports C_Prelude
begin

text \<open>
  Programs that fork one child per worker, let the children share the device, and wait for all of
  them: \<open>ISP_noaxis_mt.c\<close> and \<open>host_noaxis_mt.c\<close> of \<open>src/npsum\<close> and \<open>submit_op_fork.c\<close> of
  \<open>src/ioctl\<close>. The children run in any interleaving. A child has a private copy of the program's
  memory and prints to its own stream; the order in which the lines of different children reach the
  terminal is left out. A failing \<open>fork\<close> is left out.
\<close>

section \<open>Interleavings\<close>

text \<open>
  A state holds the device and, for each child, the number of loop iterations it has done and its
  private state. In a step one child runs the body of its loop once. A child whose body faults makes
  no step.
\<close>

type_synonym ('d, 'c) fork_state = "'d \<times> (nat \<times> 'c) list"

inductive fork_step ::
  "(nat \<Rightarrow> nat \<Rightarrow> 'd \<times> 'c \<Rightarrow> ('d \<times> 'c) option) \<Rightarrow> nat \<Rightarrow> ('d, 'c) fork_state \<Rightarrow> ('d, 'c) fork_state \<Rightarrow> bool"
  for body iters where
  child: "t < length cs \<Longrightarrow> cs ! t = (i, c) \<Longrightarrow> i < iters \<Longrightarrow> body t i (d, c) = Some (d', c') \<Longrightarrow>
    fork_step body iters (d, cs) (d', cs[t := (Suc i, c')])"

inductive_cases fork_stepE: "fork_step body iters (d, cs) st"

text \<open>The state after the last \<open>fork\<close>, and the state in which \<open>wait\<close> has returned for every child.\<close>

definition forked :: "nat \<Rightarrow> 'c \<Rightarrow> 'd \<Rightarrow> ('d, 'c) fork_state" where
  "forked n c d = (d, replicate n (0, c))"

definition all_exited :: "nat \<Rightarrow> ('d, 'c) fork_state \<Rightarrow> bool" where
  "all_exited iters st \<longleftrightarrow> (\<forall>x \<in> set (snd st). fst x = iters)"

text \<open>
  \<open>r\<close> rounds of forking \<open>n\<close> children and waiting for them: the device before and after, and for each
  round the final private states of its children.
\<close>

inductive fork_rounds ::
  "(nat \<Rightarrow> nat \<Rightarrow> 'd \<times> 'c \<Rightarrow> ('d \<times> 'c) option) \<Rightarrow> nat \<Rightarrow> nat \<Rightarrow> 'c \<Rightarrow> nat \<Rightarrow> 'd \<Rightarrow> 'd \<Rightarrow> 'c list list \<Rightarrow> bool"
  for body iters n c where
  no_round: "fork_rounds body iters n c 0 d d []"
| round: "fork_rounds body iters n c r d d1 css \<Longrightarrow> (fork_step body iters)\<^sup>*\<^sup>* (forked n c d1) (d2, cs) \<Longrightarrow>
    all_exited iters (d2, cs) \<Longrightarrow> fork_rounds body iters n c (Suc r) d d2 (css @ [map snd cs])"

text \<open>The iterations still to be done.\<close>

definition work_left :: "nat \<Rightarrow> ('d, 'c) fork_state \<Rightarrow> nat" where
  "work_left iters st = sum_list (map (\<lambda>x. iters - fst x) (snd st))"

lemma sum_list_update_less:
  "k < length xs \<Longrightarrow> f (y :: 'a) < f (xs ! k) \<Longrightarrow> sum_list (map f (xs[k := y])) < (sum_list (map f xs) :: nat)"
proof (induction xs arbitrary: k)
  case (Cons x xs)
  then show ?case by (cases k) auto
qed simp

lemma fork_step_work: "fork_step body iters st st' \<Longrightarrow> work_left iters st' < work_left iters st"
proof (induction rule: fork_step.induct)
  case (child t cs i c d d' c')
  then show ?case
    unfolding work_left_def snd_conv by (intro sum_list_update_less) simp_all
qed

lemma fork_steps_work:
  "(fork_step body iters ^^ k) st st' \<Longrightarrow> work_left iters st' + k \<le> work_left iters st"
proof (induction k arbitrary: st')
  case (Suc k)
  then obtain st1 where "(fork_step body iters ^^ k) st st1" "fork_step body iters st1 st'" by auto
  with Suc.IH [of st1] fork_step_work [of body iters st1 st'] show ?case by simp
qed simp

section \<open>Workers that do not disturb each other\<close>

text \<open>
  The contract of a loop body: on a device that is in order (\<open>Inv\<close>, which may depend on how far each
  child is) it does not fault, keeps the device in order, and its effect on the child's memory, \<open>F\<close>,
  does not depend on what the other children did.
\<close>

locale workers =
  fixes body :: "nat \<Rightarrow> nat \<Rightarrow> 'd \<times> 'c \<Rightarrow> ('d \<times> 'c) option"
    and iters n :: nat
    and c0 :: 'c
    and Inv :: "nat list \<Rightarrow> 'd \<Rightarrow> bool"
    and C :: "'c \<Rightarrow> bool"
    and F :: "nat \<Rightarrow> nat \<Rightarrow> 'c \<Rightarrow> 'c"
  assumes C_start: "C c0"
    and body_step: "length ks = n \<Longrightarrow> Inv ks d \<Longrightarrow> t < n \<Longrightarrow> ks ! t < iters \<Longrightarrow> C c \<Longrightarrow>
      \<exists>d'. body t (ks ! t) (d, c) = Some (d', F t (ks ! t) c) \<and> Inv (ks[t := Suc (ks ! t)]) d' \<and> C (F t (ks ! t) c)"
begin

primrec priv :: "nat \<Rightarrow> nat \<Rightarrow> 'c" where
  "priv t 0 = c0"
| "priv t (Suc i) = F t i (priv t i)"

text \<open>Appending the lines of its iterations is all a child does with its stream.\<close>

lemma priv_lines:
  assumes "\<And>t i c. out (F t i c) = out c @ L t i"
  shows "out (priv t i) = out c0 @ concat (map (L t) [0..<i])"
  by (induction i) (simp_all add: assms)

definition good :: "('d, 'c) fork_state \<Rightarrow> bool" where
  "good st \<longleftrightarrow> length (snd st) = n \<and> Inv (map fst (snd st)) (fst st) \<and>
     (\<forall>t<n. fst (snd st ! t) \<le> iters \<and> snd (snd st ! t) = priv t (fst (snd st ! t)) \<and> C (snd (snd st ! t)))"

lemma good_forked: "Inv (replicate n 0) d \<Longrightarrow> good (forked n c0 d)"
  by (simp add: good_def forked_def C_start)

lemma good_child_step:
  assumes "good (d, cs)" "t < n" "fst (cs ! t) < iters"
  shows "\<exists>d'. body t (fst (cs ! t)) (d, snd (cs ! t)) = Some (d', F t (fst (cs ! t)) (snd (cs ! t))) \<and>
    good (d', cs[t := (Suc (fst (cs ! t)), F t (fst (cs ! t)) (snd (cs ! t)))])"
proof -
  let ?i = "fst (cs ! t)" and ?c = "snd (cs ! t)"
  from assms have len: "length cs = n" and inv: "Inv (map fst cs) d" and c: "C ?c" "?c = priv t ?i"
    by (auto simp: good_def)
  from body_step [of "map fst cs" d t ?c] len inv assms(2,3) c obtain d' where
    d': "body t ?i (d, ?c) = Some (d', F t ?i ?c)" "Inv ((map fst cs)[t := Suc ?i]) d'" "C (F t ?i ?c)" by auto
  have "fst (cs[t := (Suc ?i, F t ?i ?c)] ! u) \<le> iters \<and>
      snd (cs[t := (Suc ?i, F t ?i ?c)] ! u) = priv u (fst (cs[t := (Suc ?i, F t ?i ?c)] ! u)) \<and>
      C (snd (cs[t := (Suc ?i, F t ?i ?c)] ! u))" if "u < n" for u
    using that assms len c d'(3) by (cases "u = t") (auto simp: good_def)
  then have "good (d', cs[t := (Suc ?i, F t ?i ?c)])"
    unfolding good_def fst_conv snd_conv using len d'(2) by (simp only: map_update length_list_update fst_conv) blast
  with d'(1) show ?thesis by blast
qed

lemma good_step:
  assumes "fork_step body iters st st'" "good st"
  shows "good st'"
  using assms
proof (induction rule: fork_step.induct)
  case (child t cs i c d d' c')
  then have "t < n" by (simp add: good_def)
  with good_child_step [of d cs t] child show ?case by auto
qed

lemma good_steps: "(fork_step body iters)\<^sup>*\<^sup>* st st' \<Longrightarrow> good st \<Longrightarrow> good st'"
  by (induction rule: rtranclp_induct) (auto intro: good_step)

lemma good_progress:
  assumes "good st" "\<not> all_exited iters st"
  shows "\<exists>st'. fork_step body iters st st'"
proof (cases st)
  case (Pair d cs)
  from assms(2) Pair obtain x where "x \<in> set cs" "fst x \<noteq> iters" by (auto simp: all_exited_def)
  then obtain t where t: "t < length cs" "fst (cs ! t) \<noteq> iters" by (metis in_set_conv_nth)
  with assms(1) Pair have "t < n" "fst (cs ! t) < iters" by (auto simp: good_def less_le)
  with good_child_step [of d cs t] assms(1) Pair obtain d' where
    "body t (fst (cs ! t)) (d, snd (cs ! t)) = Some (d', F t (fst (cs ! t)) (snd (cs ! t)))" by blast
  with t(1) \<open>fst (cs ! t) < iters\<close> Pair show ?thesis
    using fork_step.child [of t cs "fst (cs ! t)" "snd (cs ! t)"] by fastforce
qed

text \<open>Every run that has ended has the same private states.\<close>

lemma run_result:
  assumes "(fork_step body iters)\<^sup>*\<^sup>* (forked n c0 d) (e, cs)" "Inv (replicate n 0) d" "all_exited iters (e, cs)"
  shows "map snd cs = map (\<lambda>t. priv t iters) [0..<n]" "Inv (replicate n iters) e"
proof -
  have g: "good (e, cs)" by (rule good_steps [OF assms(1) good_forked [OF assms(2)]])
  have f: "fst (cs ! t) = iters" if "t < n" for t
    using that assms(3) g by (simp add: all_exited_def good_def)
  with g show "map snd cs = map (\<lambda>t. priv t iters) [0..<n]"
    by (intro nth_equalityI) (auto simp: good_def)
  have "map fst cs = replicate n iters" using f g by (intro nth_equalityI) (auto simp: good_def)
  with g show "Inv (replicate n iters) e" by (simp add: good_def)
qed

text \<open>Every run can go on until all children have exited, and no run is longer than the work.\<close>

lemma run_exists:
  assumes "good st"
  shows "\<exists>st'. (fork_step body iters)\<^sup>*\<^sup>* st st' \<and> all_exited iters st'"
  using assms
proof (induction "work_left iters st" arbitrary: st rule: less_induct)
  case less
  show ?case
  proof (cases "all_exited iters st")
    case False
    with good_progress less.prems obtain st1 where st1: "fork_step body iters st st1" by blast
    with less.hyps [of st1] fork_step_work [OF st1] good_step [OF st1 less.prems] show ?thesis
      by (meson converse_rtranclp_into_rtranclp)
  qed blast
qed

lemma run_length:
  assumes "(fork_step body iters ^^ k) (forked n c0 d) st"
  shows "k \<le> n * iters"
  using fork_steps_work [OF assms] by (simp add: work_left_def forked_def sum_list_replicate)

end

text \<open>Workers that leave the device as they found it: rounds can be repeated.\<close>

locale neutral_workers = workers body iters n c0 "\<lambda>_. I" C F
  for body :: "nat \<Rightarrow> nat \<Rightarrow> 'd \<times> 'c \<Rightarrow> ('d \<times> 'c) option" and iters n :: nat and c0 :: 'c
    and I :: "'d \<Rightarrow> bool" and C :: "'c \<Rightarrow> bool" and F :: "nat \<Rightarrow> nat \<Rightarrow> 'c \<Rightarrow> 'c"
begin

lemma rounds_result:
  assumes "fork_rounds body iters n c0 r d e css" "I d"
  shows "I e \<and> css = replicate r (map (\<lambda>t. priv t iters) [0..<n])"
  using assms
proof (induction rule: fork_rounds.induct)
  case (round r d d1 css d2 cs)
  then show ?case
    using run_result [OF round.hyps(2) _ round.hyps(3)] by (simp add: replicate_append_same)
qed simp

lemma rounds_exist:
  assumes "I d"
  shows "\<exists>e css. fork_rounds body iters n c0 r d e css"
proof (induction r)
  case 0
  show ?case by (intro exI, rule fork_rounds.no_round)
next
  case (Suc r)
  then obtain d1 css where r: "fork_rounds body iters n c0 r d d1 css" by blast
  with rounds_result assms have "I d1" by blast
  then obtain d2 cs where "(fork_step body iters)\<^sup>*\<^sup>* (forked n c0 d1) (d2, cs)" "all_exited iters (d2, cs)"
    using run_exists [OF good_forked] by (metis surj_pair)
  with fork_rounds.round [OF r] show ?case by blast
qed

end

text \<open>The shares of the children, put one after the other.\<close>

lemma concat_shares:
  "concat (map (\<lambda>t. concat (map (\<lambda>i. L (t * s + i)) [0..<s])) [0..<n]) = concat (map L [0..<n * s])"
proof (induction n)
  case (Suc n)
  have "[0..<Suc n * s] = [0..<n * s] @ [n * s..<n * s + s]"
    using upt_add_eq_append [of 0 "n * s" s] by (simp add: add.commute)
  moreover have "[n * s..<n * s + s] = map (\<lambda>i. n * s + i) [0..<s]"
    by (simp add: map_add_upt add.commute)
  ultimately show ?case using Suc by (simp add: comp_def)
qed simp

end
