(* ===== verification/Npsum_Mt.thy ===== *)
theory Npsum_Mt
  imports Npsum_Host Fork_Model
begin

text \<open>
  The two programs of \<open>src/npsum\<close> that share the matrices out to child processes,
  \<open>ISP_noaxis_mt.c\<close> and \<open>host_noaxis_mt.c\<close>. Child \<open>t\<close> of \<open>n\<close> sums the matrices from
  \<open>t * (1024 / n)\<close> on. The argument of a program is the value \<open>atoi\<close> gives for its first argument,
  if there is one; with zero or a negative number of threads no child is forked.
\<close>

section \<open>ISP-noaxis-mt\<close>

definition isp_mt_body ::
  "'d kernel \<Rightarrow> nat \<Rightarrow> nat \<Rightarrow> nat \<Rightarrow> 'd \<times> event list \<Rightarrow> ('d \<times> event list) option" where
  "isp_mt_body K num_threads t i st =
     (let (d, out) = st;
          target_slba = 1024 + of_nat i * 64 + of_nat (NUM_MATRIX div num_threads) * 64 * of_nat t;
          (err, res, buf, d) = ioctl_io_cmd K (isp_noaxis_cmd 64 target_slba) [] d
      in if err \<noteq> 0 then Some (d, out @ [Printf ''iteration %d: err %d\<newline>'' [of_nat i, err]])
         else Some (d, out @ sum_warning 30000000 40000000 res))"

inductive ISP_noaxis_mt_main ::
  "'d kernel \<Rightarrow> cint option \<Rightarrow> 'd \<Rightarrow> 'd \<Rightarrow> event list list list \<Rightarrow> event list \<Rightarrow> bool"
  for K where
  isp_usage: "ISP_noaxis_mt_main K None d d [] [Printf ''usage: ./a.out [num_threads]\<newline>'' []]"
| isp_threads: "n = nat (sint num_threads) \<Longrightarrow>
    fork_rounds (isp_mt_body K n) (NUM_MATRIX div n) n [] 16 (run_cmd K cmd_stats_clear d) d' outs \<Longrightarrow>
    ISP_noaxis_mt_main K (Some num_threads) d d' outs
      [Printf ''---- Test end ----\<newline>'' [], Printf ''Execution time : %.2f ms\<newline>'' []]"

inductive_cases ISP_noaxis_mt_SomeE: "ISP_noaxis_mt_main K (Some num) d d' outs out"

section \<open>host-noaxis-mt\<close>

text \<open>Each child reads into its own copy of the buffer the parent allocated.\<close>

definition host_mt_body ::
  "'d kernel \<Rightarrow> u64 \<Rightarrow> nat \<Rightarrow> nat \<Rightarrow> nat \<Rightarrow> 'd \<times> (buffer \<times> event list) \<Rightarrow> ('d \<times> (buffer \<times> event list)) option" where
  "host_mt_body K a num_threads t i st =
     (let (d, buf, out) = st;
          target_slba = 1024 + of_nat i * 64 + of_nat t * 64 * of_nat (NUM_MATRIX div num_threads);
          (err, buf, d) = ioctl_submit_io K (host_read_io a target_slba) buf d
      in if err \<noteq> 0 then Some (d, buf, out @ [Printf ''iteration %d: err %d\<newline>'' [of_nat i, err]])
         else do {
           s \<leftarrow> sum_loop MATRIX_ELEMENTS buf 0;
           Some (d, buf, out @ sum_warning 33000000 34000000 s) })"

text \<open>Without an argument the program prints its usage and goes on with one child.\<close>

inductive host_noaxis_mt_main ::
  "'d kernel \<Rightarrow> u64 \<Rightarrow> buffer \<Rightarrow> cint option \<Rightarrow> 'd \<Rightarrow> 'd \<Rightarrow> (buffer \<times> event list) list list \<Rightarrow> event list \<Rightarrow> bool"
  for K a buf where
  host_threads: "n = (case arg of None \<Rightarrow> 1 | Some num_threads \<Rightarrow> nat (sint num_threads)) \<Longrightarrow>
    usage = (case arg of None \<Rightarrow> [Printf ''usage: ./a.out [num_threads]\<newline>'' []] | Some _ \<Rightarrow> []) \<Longrightarrow>
    fork_rounds (host_mt_body K a n) (NUM_MATRIX div n) n (buf, []) 32 d d' css \<Longrightarrow>
    host_noaxis_mt_main K a buf arg d d' css (usage @
      [Printf ''---- Test end ----\<newline>'' [], Printf ''Average time : %.2f ms\<newline>'' []])"

inductive_simps host_noaxis_mt_simps: "host_noaxis_mt_main K a buf arg d d' css out"

section \<open>The shares of the children\<close>

lemma share_less: "(t :: nat) < n \<Longrightarrow> i < 1024 div n \<Longrightarrow> t * (1024 div n) + i < 1024"
proof -
  assume "t < n" "i < 1024 div n"
  then have "t * (1024 div n) + i < Suc t * (1024 div n)" by simp
  also have "\<dots> \<le> n * (1024 div n)" using \<open>t < n\<close> by (intro mult_le_mono1) simp
  also have "\<dots> \<le> 1024" by simp
  finally show ?thesis .
qed

lemma isp_mt_slba:
  "1024 + of_nat i * 64 + of_nat s * 64 * of_nat t = (1024 + of_nat (t * s + i) * 64 :: cint)"
  by (simp add: algebra_simps)

lemma host_mt_slba:
  "1024 + of_nat i * 64 + of_nat t * 64 * of_nat s = (1024 + of_nat (t * s + i) * 64 :: u64)"
  by (simp add: algebra_simps)

context npsum_ssd
begin

lemma isp_mt_workers:
  "neutral_workers (isp_mt_body K n) (1024 div n) n [] (same d) (\<lambda>_. True)
     (\<lambda>t i out. out @ sum_lines 30000000 40000000 False (blk d) (t * (1024 div n) + i))"
proof (unfold_locales, goal_cases)
  case (2 ks e t c)
  let ?i = "ks ! t"
  from noaxis_request [OF \<open>same d e\<close> share_less [OF \<open>t < n\<close> \<open>?i < 1024 div n\<close>]] obtain buf' e' where
    "ioctl_io_cmd K (isp_noaxis_cmd 64 (1024 + of_nat (t * (1024 div n) + ?i) * 64)) [] e =
      (0, matrix_sum (blk d) (t * (1024 div n) + ?i), buf', e')" "same d e'" .
  then show ?case by (auto simp: isp_mt_body_def isp_mt_slba sum_lines_def)
qed simp

lemma isp_mt_runs:
  assumes "ok d" "ISP_noaxis_mt_main K (Some num) d e outs out"
  shows "same d e \<and> outs = replicate 16 (map (\<lambda>t. concat (map (\<lambda>i. sum_lines 30000000 40000000 False (blk d)
    (t * (1024 div nat (sint num)) + i)) [0..<1024 div nat (sint num)])) [0..<nat (sint num)])"
proof -
  define n where "n = nat (sint num)"
  note w = isp_mt_workers [of n d]
  from assms(2) have "fork_rounds (isp_mt_body K n) (1024 div n) n [] 16 (run_cmd K cmd_stats_clear d) e outs"
    by (auto elim: ISP_noaxis_mt_SomeE simp: n_def)
  from neutral_workers.rounds_result [OF w this stats_run_cmd [OF same_refl [OF assms(1)] stats_opcodes(2)]]
    workers.priv_lines [OF neutral_workers.axioms [OF w], of "\<lambda>out. out" "\<lambda>t i. sum_lines 30000000 40000000 False (blk d) (t * (1024 div n) + i)"]
  show ?thesis by (simp add: n_def)
qed

lemma isp_mt_run_exists:
  assumes "ok d"
  shows "\<exists>e outs out. ISP_noaxis_mt_main K (Some num) d e outs out"
  using neutral_workers.rounds_exist [OF isp_mt_workers, of d "run_cmd K cmd_stats_clear d" "nat (sint num)" 16]
    stats_run_cmd [OF same_refl [OF assms] stats_opcodes(2)] isp_threads [of "nat (sint num)" num K] by blast

end

context matrix_ssd
begin

lemma host_mt_workers:
  assumes "length buf = 262144"
  shows "neutral_workers (host_mt_body K a n) (1024 div n) n (buf, []) (same d) (\<lambda>c. length (fst c) = 262144)
     (\<lambda>t i c. (matrix (blk d) (t * (1024 div n) + i), snd c @ sum_lines 33000000 34000000 False (blk d) (t * (1024 div n) + i)))"
proof (unfold_locales, goal_cases)
  case (2 ks e t c)
  let ?m = "t * (1024 div n) + ks ! t"
  from host_read [OF \<open>same d e\<close> share_less [OF \<open>t < n\<close> \<open>ks ! t < 1024 div n\<close>] \<open>length (fst c) = 262144\<close>] obtain e' where
    e': "ioctl_submit_io K (host_read_io a (1024 + of_nat ?m * 64)) (fst c) e = (0, matrix (blk d) ?m, e')" "same d e'" .
  then have "ok e'" "blk e' = blk d" by (simp_all add: same_def)
  with length_matrix [of e' ?m] have len: "length (matrix (blk d) ?m) = 262144" by simp
  then have "sum_loop 65536 (matrix (blk d) ?m) 0 = Some (matrix_sum (blk d) ?m)"
    by (simp add: sum_loop_eq matrix_sum_def)
  with e' len show ?case by (cases c) (simp add: host_mt_body_def host_mt_slba sum_lines_def)
qed (simp add: assms)

end

interpretation isp_mt: neutral_workers "isp_mt_body (ssd_kernel (66560 + m) npsum) n" "1024 div n" n "[]"
    "ssd_npsum.same d" "\<lambda>_. True"
    "\<lambda>t i out. out @ sum_lines 30000000 40000000 False (ssd_blk d) (t * (1024 div n) + i)" for m n d
  by (rule ssd_np.isp_mt_workers)

section \<open>Properties\<close>

text \<open>
  C9: ISP-noaxis-mt computes what ISP-noaxis computes, whatever the interleaving. When the number of
  threads divides 1024, every run on an SSD with npsum inserted, in each of its 16 rounds, prints
  for its children in order exactly the warnings one round of the single process prints, and a run
  to the end exists.
\<close>

theorem ISP_noaxis_mt_agrees:
  assumes "npsum_ssd K ok blk page rest cap" "ok d" "0 < sint num" "nat (sint num) dvd 1024"
  shows "(\<exists>e outs out. ISP_noaxis_mt_main K (Some num) d e outs out) \<and>
    (\<forall>e outs out. ISP_noaxis_mt_main K (Some num) d e outs out \<longrightarrow>
       length outs = 16 \<and> blk e = blk d \<and> page e = page d \<and>
       (\<forall>cs \<in> set outs. concat cs = snd (isp_noaxis_round K 64 False (d, []))))"
proof (intro conjI allI impI)
  let ?n = "nat (sint num)"
  show "\<exists>e outs out. ISP_noaxis_mt_main K (Some num) d e outs out"
    by (rule npsum_ssd.isp_mt_run_exists [OF assms(1,2)])
  fix e outs out
  assume run: "ISP_noaxis_mt_main K (Some num) d e outs out"
  note r = npsum_ssd.isp_mt_runs [OF assms(1,2) run]
  from r show "length outs = 16" by simp
  have ssd: "isp_ssd K ok blk page npsum rest"
    using assms(1) by (simp add: npsum_ssd_def matrix_ssd_def reliable_ssd_def)
  from r show "blk e = blk d" "page e = page d" by (simp_all add: isp_ssd.same_def [OF ssd])
  have "?n * (1024 div ?n) = 1024" using assms(4) by simp
  then have "concat (map (\<lambda>t. concat (map (\<lambda>i. sum_lines 30000000 40000000 False (blk d) (t * (1024 div ?n) + i)) [0..<1024 div ?n])) [0..<?n]) =
      concat (map (sum_lines 30000000 40000000 False (blk d)) [0..<1024])"
    by (simp only: concat_shares)
  moreover obtain e' where "isp_noaxis_round K 64 False (d, []) =
      (e', [] @ concat (map (sum_lines 30000000 40000000 False (blk d)) [0..<1024]))"
    using npsum_ssd.noaxis_round [OF assms(1) isp_ssd.same_refl [OF ssd assms(2)], of False "[]"] by blast
  ultimately show "\<forall>cs \<in> set outs. concat cs = snd (isp_noaxis_round K 64 False (d, []))"
    using r by (simp only: set_replicate_conv_if append_Nil snd_conv) simp
qed

theorem ISP_noaxis_mt_agrees_witness:
  "\<exists>e outs out. ISP_noaxis_mt_main (ssd_kernel 66560 npsum) (Some 4) ones_ssd e outs out \<and>
     length outs = 16 \<and> ssd_blk e = ssd_blk ones_ssd \<and> ssd_page e = ssd_page ones_ssd \<and>
     (\<forall>cs \<in> set outs. concat cs = snd (isp_noaxis_round (ssd_kernel 66560 npsum) 64 False (ones_ssd, [])))"
proof -
  have num: "0 < sint (4 :: cint)" "nat (sint (4 :: cint)) dvd 1024" by simp_all
  show ?thesis using ISP_noaxis_mt_agrees [OF ssd_np_ref ssd_ok_ones num] by blast
qed

text \<open>
  When the number of threads does not divide 1024, the matrices after the last full share are not
  summed: in every run the children print, in each round, the warnings of the matrices below
  \<open>n * (1024 / n)\<close> only.
\<close>

lemma ISP_noaxis_mt_skips_remainder:
  assumes "npsum_ssd K ok blk page rest cap" "ok d" "ISP_noaxis_mt_main K (Some num) d e outs out" "cs \<in> set outs"
  shows "concat cs = concat (map (\<lambda>m. sum_warning 30000000 40000000 (matrix_sum (blk d) m))
    [0..<nat (sint num) * (1024 div nat (sint num))])"
proof -
  from npsum_ssd.isp_mt_runs [OF assms(1-3)] assms(4)
  have "cs = map (\<lambda>t. concat (map (\<lambda>i. sum_lines 30000000 40000000 False (blk d)
    (t * (1024 div nat (sint num)) + i)) [0..<1024 div nat (sint num)])) [0..<nat (sint num)]" by simp
  then have "concat cs = concat (map (sum_lines 30000000 40000000 False (blk d)) [0..<nat (sint num) * (1024 div nat (sint num))])"
    by (simp only: concat_shares)
  moreover have "sum_lines 30000000 40000000 False (blk d) = (\<lambda>m. sum_warning 30000000 40000000 (matrix_sum (blk d) m))"
    by (simp add: fun_eq_iff sum_lines_def)
  ultimately show ?thesis by (simp only:)
qed



end
