(* ===== verification/Pattern_Match.thy ===== *)
theory Pattern_Match
  imports Reference_Ssd
begin

text \<open>
  The programs of \<open>src/pattern_match\<close> that count a word in 32 MB of the SSD from one process: on the
  host, with one read (\<open>hostread_pm.c\<close>) or with reads of 256 KB (\<open>hostside_pm_pread.c\<close>,
  \<open>hostside_pm_ioctl.c\<close>), or in the SSD, with requests of 512 KB (\<open>ssdside_pm.c\<close>) or of one block
  (\<open>offloaded_pm.c\<close>). Clock readings are left out; a global \<open>char\<close> array starts as zeros.
\<close>

section \<open>Counting on the host\<close>

definition target_data :: buffer where
  "target_data = Lorem @ replicate 11 0"

text \<open>
  \<open>for (i = 0; i < n; i++) if (s[i] == target[0]) if (strncmp(s + i, target, len) == 0) cnt++;\<close>
\<close>

definition pm_count :: "nat \<Rightarrow> buffer \<Rightarrow> buffer \<Rightarrow> nat \<Rightarrow> cint \<Rightarrow> cint option" where
  "pm_count n s target len cnt =
     count_loop n (\<lambda>i. do {
       c \<leftarrow> ld8 s i;
       t \<leftarrow> ld8 target 0;
       if c = t then strncmp_eq s i target 0 len else Some False }) cnt"

abbreviation (input) data_blk :: nat where
  "data_blk \<equiv> 8 * 1024"

abbreviation (input) data_size :: nat where
  "data_size \<equiv> 4096 * data_blk"

definition hostread_pm_main :: "'d kernel \<Rightarrow> cint \<Rightarrow> 'd \<Rightarrow> ('d \<times> event list) option" where
  "hostread_pm_main K fd d =
     (if sint fd < 0 then Some (d, [Printf ''dev : %d\<newline>'' [fd]])
      else do {
        target_len \<leftarrow> strlen target_data;
        let (ret, data, d) = sys_pread K data_size (1024 * 4096) (replicate data_size 0) d
        in do {
          cnt \<leftarrow> pm_count (data_size - target_len + 1) data target_data target_len 0;
          Some (d, [Printf ''Result: %d\<newline>'' [cnt], Printf ''I/O time : %.2f ms\<newline>'' [],
            Printf ''Computation time : %.2f ms\<newline>'' []]) } })"

subsection \<open>hostside-pm-ioctl\<close>

definition pm_read_io :: "u64 \<Rightarrow> u64 \<Rightarrow> nvme_user_io" where
  "pm_read_io data s = \<lparr>io_opcode = 0x02, io_flags = 0, control = 0, nblocks = 64 - 1, rsvd = 0,
     io_metadata = 0, io_addr = data, io_slba = s, dsmgmt = 0, reftag = 0, appmask = 0, apptag = 0\<rparr>"

definition pm_ioctl_body ::
  "'d kernel \<Rightarrow> u64 \<Rightarrow> nat \<Rightarrow> nat \<Rightarrow> 'd \<times> (buffer \<times> cint) \<times> event list \<Rightarrow> ('d \<times> (buffer \<times> cint) \<times> event list) option" where
  "pm_ioctl_body K a target_len i st =
     (let (d, (data, cnt), out) = st;
          (err, data, d) = ioctl_submit_io K (pm_read_io a (1024 + of_nat i * 64)) data d
      in if err \<noteq> 0 then Some (d, (data, cnt), out @ [Printf ''iteration %d: err %d\<newline>'' [of_nat i, err]])
         else do {
           cnt \<leftarrow> pm_count (4096 * 64 - target_len + 1) data target_data target_len cnt;
           Some (d, (data, cnt), out) })"

definition pm_ioctl_round ::
  "'d kernel \<Rightarrow> u64 \<Rightarrow> nat \<Rightarrow> 'd \<times> (buffer \<times> cint) \<times> event list \<Rightarrow> ('d \<times> (buffer \<times> cint) \<times> event list) option" where
  "pm_ioctl_round K a target_len st =
     (let (d, (data, cnt), out) = st in
      for_loop (data_blk div 64) (pm_ioctl_body K a target_len) (d, (data, 0), out))"

definition hostside_pm_ioctl_main :: "'d kernel \<Rightarrow> u64 \<Rightarrow> 'd \<Rightarrow> ('d \<times> (buffer \<times> cint) \<times> event list) option" where
  "hostside_pm_ioctl_main K a d = do {
     target_len \<leftarrow> strlen target_data;
     (d, bc, out) \<leftarrow> for_loop 16 (\<lambda>t. pm_ioctl_round K a target_len) (d, (replicate (4096 * 64) 0, 0), []);
     Some (d, bc, out @ [Printf ''---- Test end ----\<newline>'' [], Printf ''Average time: %.2f ms\<newline>'' [],
       Printf ''Average I/O time: %.2f ms\<newline>'' [], Printf ''Average Comptation time: %.2f ms\<newline>'' []]) }"

subsection \<open>hostside-pm-pread\<close>

text \<open>A failed read ends the program.\<close>

definition pm_pread_body ::
  "'d kernel \<Rightarrow> nat \<Rightarrow> nat \<Rightarrow> 'd \<times> (buffer \<times> cint) \<times> event list \<Rightarrow>
   (('d \<times> event list) + 'd \<times> (buffer \<times> cint) \<times> event list) option" where
  "pm_pread_body K target_len i st =
     (let (d, (data, cnt), out) = st;
          (err, data, d) = sys_pread K (4096 * 64) ((1024 + of_nat i * 64) * 4096) data d
      in if err \<noteq> of_nat (4096 * 64)
         then Some (Inl (d, out @ [Printf ''iteration %d: err %d\<newline>'' [of_nat i, err], Printf ''ERROR: %s\<newline>'' []]))
         else do {
           cnt \<leftarrow> pm_count (4096 * 64 - target_len + 1) data target_data target_len cnt;
           Some (Inr (d, (data, cnt), out)) })"

definition pm_pread_round ::
  "'d kernel \<Rightarrow> nat \<Rightarrow> 'd \<times> (buffer \<times> cint) \<times> event list \<Rightarrow>
   (('d \<times> event list) + 'd \<times> (buffer \<times> cint) \<times> event list) option" where
  "pm_pread_round K target_len st =
     (let (d, (data, cnt), out) = st in do {
        x \<leftarrow> for_ret (data_blk div 64) (pm_pread_body K target_len) (d, (data, 0), out);
        case x of Inl r \<Rightarrow> Some (Inl r)
        | Inr (d, (data, cnt), out) \<Rightarrow> Some (Inr (d, (data, cnt), out @ [Printf ''Result: %d\<newline>'' [cnt],
            Printf ''I/O time : %.2f ms\<newline>'' [], Printf ''Computation time : %.2f ms\<newline>'' []])) })"

definition hostside_pm_pread_main :: "'d kernel \<Rightarrow> 'd \<Rightarrow> ('d \<times> event list) option" where
  "hostside_pm_pread_main K d = do {
     target_len \<leftarrow> strlen target_data;
     x \<leftarrow> for_ret 16 (\<lambda>t. pm_pread_round K target_len) (d, (replicate data_size 0, 0), []);
     case x of Inl r \<Rightarrow> Some r | Inr (d, bc, out) \<Rightarrow> Some (d, out) }"

section \<open>Counting in the SSD\<close>

text \<open>A request of \<open>n\<close> blocks from block \<open>s\<close>; \<open>ssdside_pm.c\<close>, \<open>mtssd_pm.c\<close> and \<open>rband/ispread.c\<close> share it.\<close>

definition isp_read_cmd :: "u64 \<Rightarrow> cint \<Rightarrow> cint \<Rightarrow> nvme_passthru_cmd" where
  "isp_read_cmd data n s = \<lparr>opcode = 0x82, flags = 0, rsvd1 = 0, nsid = 1, cdw2 = 0, cdw3 = 0,
     metadata = 0, addr = data, metadata_len = 0, data_len = n * 4096, cdw10 = s,
     cdw11 = 0, cdw12 = n - 1, cdw13 = 0, cdw14 = 0, cdw15 = 0, timeout_ms = 0, result = -1\<rparr>"

definition ssdside_body ::
  "'d kernel \<Rightarrow> u64 \<Rightarrow> nat \<Rightarrow> 'd \<times> (buffer \<times> cint) \<times> event list \<Rightarrow> 'd \<times> (buffer \<times> cint) \<times> event list" where
  "ssdside_body K a i st =
     (let (d, (data, cnt), out) = st;
          (err, res, data, d) = ioctl_io_cmd K (isp_read_cmd a 128 (1024 + of_nat i * 128)) data d
      in if err \<noteq> 0 then (d, (data, cnt), out @ [Printf ''iteration %d: err %d\<newline>'' [of_nat i, err]])
         else (d, (data, cnt + res), out))"

definition ssdside_pm_main :: "'d kernel \<Rightarrow> u64 \<Rightarrow> 'd \<Rightarrow> 'd \<times> (buffer \<times> cint) \<times> event list" where
  "ssdside_pm_main K a d =
     (let (d, bc, out) = for_do 1 (\<lambda>t (d, (data, cnt), out). for_do (data_blk div 128) (ssdside_body K a) (d, (data, 0), out))
            (d, (replicate (4096 * 128) 0, 0), [])
      in (d, bc, out @ [Printf ''---- Test end ----\<newline>'' [], Printf ''Average time : %.2f ms\<newline>'' []]))"

subsection \<open>offloaded-pm\<close>

text \<open>
  \<open>callprog\<close> also opens the file \<open>read.txt\<close> and does not use it; a failed request adds whatever the
  kernel left in \<open>cmd.result\<close>.
\<close>

definition offload_cmd :: "cint \<Rightarrow> cint \<Rightarrow> cint list \<Rightarrow> nvme_passthru_cmd" where
  "offload_cmd s nlb param = \<lparr>opcode = 0x82, flags = 0, rsvd1 = 0, nsid = 1, cdw2 = param ! 0, cdw3 = param ! 1,
     metadata = 0, addr = 0, metadata_len = 0, data_len = nlb * 4096, cdw10 = s,
     cdw11 = 0, cdw12 = nlb - 1, cdw13 = 0, cdw14 = 0, cdw15 = 0, timeout_ms = 0, result = -1\<rparr>"

definition offload_callprog :: "'d kernel \<Rightarrow> cint \<Rightarrow> cint \<Rightarrow> cint list \<Rightarrow> 'd \<Rightarrow> cint \<times> 'd \<times> event list" where
  "offload_callprog K s nlb param d =
     (let (err, res, buf, d) = ioctl_io_cmd K (offload_cmd s nlb param) [] d
      in (res, d, if err \<noteq> 0 then [Printf ''ioctl issued err %d\<newline>'' [err]] else []))"

definition offload_body :: "'d kernel \<Rightarrow> nat \<Rightarrow> ('d \<times> cint \<times> cint) \<times> event list \<Rightarrow> ('d \<times> cint \<times> cint) \<times> event list" where
  "offload_body K i st =
     (let ((d, s, cnt), out) = st;
          (res, d, es) = offload_callprog K s 1 [0, 0, 0, 0, 0] d
      in ((d, s + 1, cnt + res), out @ es))"

definition offloaded_pm_main :: "'d kernel \<Rightarrow> 'd \<Rightarrow> 'd \<times> event list" where
  "offloaded_pm_main K d =
     (let ((d, s, cnt), out) = for_do (data_blk div 1) (offload_body K) ((d, 1024, 0), [])
      in (d, out @ [Printf ''ioctl time : %f\<newline>'' [], Printf ''result: %d\<newline>'' [cnt]]))"

section \<open>What the counts are\<close>

lemma Lorem_no_NUL: "0 \<notin> set Lorem"
  by (simp add: Lorem_def)

lemma strlen_target: "strlen target_data = Some 5"
  using strlen_eq [OF Lorem_no_NUL, of "replicate 10 0"] by (simp add: target_data_def numeral_eq_Suc)

lemma word_test:
  assumes "i + length p \<le> length s" "0 \<notin> set p" "p \<noteq> []"
  shows "do { c \<leftarrow> ld8 s i; t \<leftarrow> ld8 (p @ xs) 0; if c = t then strncmp_eq s i (p @ xs) 0 (length p) else Some False } =
    Some (matches_at p s i)"
proof -
  have "0 < length p" using assms(3) by simp
  with assms(1) have "i < length s" by linarith
  with \<open>0 < length p\<close> have "ld8 (p @ xs) 0 = Some (p ! 0)" "ld8 s i = Some (s ! i)" by (simp_all add: ld8_def nth_append)
  moreover have "matches_at p s i \<Longrightarrow> s ! i = p ! 0"
    using matches_at_nth [OF assms(1)] assms(3) by (metis add_0_right length_greater_0_conv)
  ultimately show ?thesis using strncmp_eq_target [OF assms(1,2), of xs] by auto
qed

lemma pm_test:
  assumes "i + 5 \<le> length s"
  shows "do { c \<leftarrow> ld8 s i; t \<leftarrow> ld8 target_data 0; if c = t then strncmp_eq s i target_data 0 5 else Some False } =
    Some (matches_at Lorem s i)"
proof -
  have "Lorem \<noteq> []" by (simp add: Lorem_def)
  with word_test [of i Lorem s "replicate 11 0", unfolded length_Lorem] assms Lorem_no_NUL show ?thesis
    unfolding target_data_def by blast
qed

lemma pm_count_prefix:
  assumes "5 \<le> length c"
  shows "pm_count (length c - 5 + 1) (c @ xs) target_data 5 cnt = Some (cnt + of_nat (occurrences Lorem c))"
proof -
  have "pm_count (length c - 5 + 1) (c @ xs) target_data 5 cnt =
      Some (cnt + of_nat (card {i. i < length c - 5 + 1 \<and> matches_at Lorem (c @ xs) i}))"
    unfolding pm_count_def by (rule count_loop_eq, rule pm_test) (use assms in simp)
  moreover have "{i. i < length c - 5 + 1 \<and> matches_at Lorem (c @ xs) i} = {i. i < length c - 5 + 1 \<and> matches_at Lorem c i}"
    using assms by (auto simp: matches_at_append1)
  ultimately show ?thesis using occurrences_prefix [of Lorem c] assms by simp
qed

text \<open>The text, and its chunks of \<open>n\<close> blocks.\<close>

definition pm_chunk :: "(nat \<Rightarrow> buffer) \<Rightarrow> nat \<Rightarrow> nat \<Rightarrow> buffer" where
  "pm_chunk f n i = extent f (1024 + i * n) n"

lemma extent_chunks: "extent f 1024 (m * n) = concat (map (pm_chunk f n) [0..<m])"
proof (induction m)
  case (Suc m)
  have "extent f 1024 (Suc m * n) = extent f 1024 (m * n) @ extent f (1024 + m * n) n"
    using extent_add [of f 1024 "m * n" n] by (simp add: add.commute)
  with Suc show ?case by (simp add: pm_chunk_def)
qed simp

definition chunk_count :: "(nat \<Rightarrow> buffer) \<Rightarrow> nat \<Rightarrow> nat \<Rightarrow> nat" where
  "chunk_count f n m = (\<Sum>i\<leftarrow>[0..<m]. occurrences Lorem (pm_chunk f n i))"

lemma chunk_count_Suc [simp]: "chunk_count f n (Suc m) = chunk_count f n m + occurrences Lorem (pm_chunk f n m)"
  by (simp add: chunk_count_def)

lemma chunk_count_0 [simp]: "chunk_count f n 0 = 0"
  by (simp add: chunk_count_def)

lemma text_count:
  "occurrences Lorem (extent f 1024 (m * n)) = chunk_count f n m + cut_straddles Lorem (map (pm_chunk f n) [0..<m])"
proof -
  have "Lorem \<noteq> []" by (simp add: Lorem_def)
  then show ?thesis by (simp add: extent_chunks occurrences_concat chunk_count_def comp_def)
qed

lemma pm_slba:
  "i < 128 \<Longrightarrow> unat (1024 + of_nat i * 64 :: u64) = 1024 + i * 64"
  "i < 128 \<Longrightarrow> unat ((1024 + of_nat i * 64) * 4096 :: cint) = 4096 * (1024 + i * 64)"
  "i < 64 \<Longrightarrow> unat (1024 + of_nat i * 128 :: cint) = 1024 + i * 128"
proof -
  assume i: "i < 128"
  have "(1024 + of_nat i * 64 :: u64) = of_nat (1024 + i * 64)" by simp
  then show "unat (1024 + of_nat i * 64 :: u64) = 1024 + i * 64" using i by (simp only: unat_of_nat_u64)
  have "((1024 + of_nat i * 64) * 4096 :: cint) = of_nat (4096 * (1024 + i * 64))" by simp
  moreover have "4096 * (1024 + i * 64) < 4294967296" using i by simp
  ultimately show "unat ((1024 + of_nat i * 64) * 4096 :: cint) = 4096 * (1024 + i * 64)" by (simp only: unat_of_nat_cint)
next
  assume i: "i < 64"
  have "(1024 + of_nat i * 128 :: cint) = of_nat (1024 + i * 128)" by simp
  then show "unat (1024 + of_nat i * 128 :: cint) = 1024 + i * 128" using i by (simp only: unat_of_nat_cint)
qed

lemma pm_read_io_simps:
  "io_opcode (pm_read_io a s) = 0x02" "unat (nblocks (pm_read_io a s)) = 63" "io_slba (pm_read_io a s) = s"
  by (simp_all add: pm_read_io_def)

lemma concat_replicate_Suc: "concat (replicate (Suc n) xs) = concat (replicate n xs) @ xs"
  by (induction n) simp_all

locale text_ssd = reliable_ssd +
  assumes text_capacity: "9216 \<le> cap"
begin

lemma length_chunk: "ok d \<Longrightarrow> length (pm_chunk (blk d) n i) = 4096 * n"
  by (simp add: pm_chunk_def length_extent_blk)

lemma count_chunk:
  assumes "ok d" "0 < n"
  shows "pm_count (4096 * n - 5 + 1) (pm_chunk (blk d) n i @ xs) target_data 5 cnt =
    Some (cnt + of_nat (occurrences Lorem (pm_chunk (blk d) n i)))"
  using pm_count_prefix [of "pm_chunk (blk d) n i" xs cnt] assms by (simp add: length_chunk)

lemma hostread_run:
  assumes "ok d" "0 \<le> sint fd"
  shows "\<exists>e. hostread_pm_main K fd d = Some (e, [Printf ''Result: %d\<newline>'' [of_nat (occurrences Lorem (extent (blk d) 1024 8192))],
    Printf ''I/O time : %.2f ms\<newline>'' [], Printf ''Computation time : %.2f ms\<newline>'' []]) \<and> same d e"
proof -
  have off: "unat (1024 * 4096 :: cint) = 4096 * 1024" by simp
  have c: "1024 + 8192 \<le> cap" "4096 * 8192 \<le> length (replicate (4096 * 8192) (0 :: byte))" using text_capacity by simp_all
  from pread_run [OF assms(1) off c] obtain e where
    "sys_pread K (4096 * 8192) (1024 * 4096) (replicate (4096 * 8192) 0) d =
      (of_nat (4096 * 8192), extent (blk d) 1024 8192 @ drop (4096 * 8192) (replicate (4096 * 8192) 0), e)"
    and e: "ok e" "blk e = blk d" "page e = page d" .
  then have p: "sys_pread K data_size (1024 * 4096) (replicate data_size 0) d =
      (of_nat (4096 * 8192), extent (blk d) 1024 8192 @ [], e)" by simp
  have "pm_count (data_size - 5 + 1) (extent (blk d) 1024 8192 @ []) target_data 5 0 =
      Some (0 + of_nat (occurrences Lorem (extent (blk d) 1024 8192)))"
    using pm_count_prefix [of "extent (blk d) 1024 8192" "[]" 0] length_extent_blk [OF assms(1), of 1024 8192] by simp
  with p e assms(2) show ?thesis
    unfolding hostread_pm_main_def strlen_target by (simp add: same_def del: append_Nil2)
qed

lemma pm_ioctl_body_run:
  assumes "same d e" "i < 128" "length data = 262144"
  shows "\<exists>e'. pm_ioctl_body K a 5 i (e, (data, cnt), out) =
    Some (e', (pm_chunk (blk d) 64 i, cnt + of_nat (occurrences Lorem (pm_chunk (blk d) 64 i))), out @ []) \<and> same d e'"
proof -
  let ?u = "pm_read_io a (1024 + of_nat i * 64)"
  from assms(1) have ok: "ok e" and e: "blk e = blk d" "page e = page d" by (simp_all add: same_def)
  have c: "unat (io_slba ?u) + unat (nblocks ?u) + 1 \<le> cap" "length data = 4096 * (unat (nblocks ?u) + 1)"
    using assms(2,3) text_capacity by (simp_all add: pm_read_io_simps pm_slba)
  from io_read_run [OF ok pm_read_io_simps(1) c] obtain e' where
    "ioctl_submit_io K ?u data e = (0, extent (blk e) (unat (io_slba ?u)) (unat (nblocks ?u) + 1), e')"
    and e': "ok e'" "blk e' = blk e" "page e' = page e" .
  then have r: "ioctl_submit_io K ?u data e = (0, pm_chunk (blk d) 64 i, e')"
    using assms(2) e by (simp add: pm_read_io_simps pm_slba pm_chunk_def)
  have "pm_count (4096 * 64 - 5 + 1) (pm_chunk (blk d) 64 i) target_data 5 cnt =
      Some (cnt + of_nat (occurrences Lorem (pm_chunk (blk d) 64 i)))"
    using count_chunk [OF ok, of 64 i "[]" cnt] e by simp
  with r e' e show ?thesis by (simp add: pm_ioctl_body_def same_def)
qed

lemma pm_ioctl_round_run:
  assumes "same d e" "length data = 262144"
  shows "\<exists>e' data'. pm_ioctl_round K a 5 (e, (data, cnt), out) =
    Some (e', (data', of_nat (chunk_count (blk d) 64 128)), out @ []) \<and> same d e' \<and> length data' = 262144"
proof -
  let ?R = "\<lambda>i e bc. same d e \<and> length (fst bc) = 262144 \<and> snd bc = of_nat (chunk_count (blk d) 64 i)"
  have "\<exists>e' bc. for_loop 128 (pm_ioctl_body K a 5) (e, (data, 0), out) = Some (e', bc, out @ concat (map (\<lambda>_. []) [0..<128])) \<and> ?R 128 e' bc"
  proof (rule for_loop_lines [where R = ?R])
    show "?R 0 e (data, 0)" using assms by simp
  next
    fix i :: nat and e out and bc :: "buffer \<times> cint"
    assume i: "i < 128" and r: "?R i e bc"
    from r have "ok e" "blk e = blk d" by (simp_all add: same_def)
    with length_chunk [of e 64 i] have "length (pm_chunk (blk d) 64 i) = 262144" by simp
    with pm_ioctl_body_run [of d e i "fst bc" a "snd bc" out] i r
    show "\<exists>e' b'. pm_ioctl_body K a 5 i (e, bc, out) = Some (e', b', out @ []) \<and> ?R (Suc i) e' b'"
      by (cases bc) auto
  qed
  then obtain e' bc where "for_loop 128 (pm_ioctl_body K a 5) (e, (data, 0), out) = Some (e', bc, out)" "?R 128 e' bc" by auto
  then show ?thesis by (cases bc) (simp add: pm_ioctl_round_def)
qed

lemma pm_ioctl_run:
  assumes "ok d"
  shows "\<exists>e data. hostside_pm_ioctl_main K a d = Some (e, (data, of_nat (chunk_count (blk d) 64 128)),
      [Printf ''---- Test end ----\<newline>'' [], Printf ''Average time: %.2f ms\<newline>'' [],
       Printf ''Average I/O time: %.2f ms\<newline>'' [], Printf ''Average Comptation time: %.2f ms\<newline>'' []]) \<and> same d e"
proof -
  let ?R = "\<lambda>(t :: nat) e bc. same d e \<and> length (fst bc) = 262144 \<and> (0 < t \<longrightarrow> snd bc = of_nat (chunk_count (blk d) 64 128))"
  have "\<exists>e bc. for_loop 16 (\<lambda>t. pm_ioctl_round K a 5) (d, (replicate (4096 * 64) 0, 0), []) =
      Some (e, bc, concat (map (\<lambda>_. []) [0..<16])) \<and> ?R 16 e bc"
  proof (rule for_loop_lines_Nil [where R = ?R])
    show "?R 0 d (replicate (4096 * 64) 0, 0)" using same_refl [OF assms] by simp
  next
    fix t :: nat and e out and bc :: "buffer \<times> cint"
    assume "?R t e bc"
    with pm_ioctl_round_run [of d e "fst bc" a "snd bc" out]
    show "\<exists>e' b'. pm_ioctl_round K a 5 (e, bc, out) = Some (e', b', out @ []) \<and> ?R (Suc t) e' b'"
      by (cases bc) auto
  qed
  then obtain e bc where "for_loop 16 (\<lambda>t. pm_ioctl_round K a 5) (d, (replicate (4096 * 64) 0, 0), []) = Some (e, bc, [])"
    "?R 16 e bc" by auto
  then show ?thesis unfolding hostside_pm_ioctl_main_def strlen_target by (cases bc) simp
qed

lemma pm_pread_body_run:
  assumes "same d e" "i < 128" "262144 \<le> length data"
  shows "\<exists>e' data'. pm_pread_body K 5 i (e, (data, cnt), out) =
    Some (Inr (e', (data', cnt + of_nat (occurrences Lorem (pm_chunk (blk d) 64 i))), out)) \<and> same d e' \<and> 262144 \<le> length data'"
proof -
  from assms(1) have ok: "ok e" and e: "blk e = blk d" "page e = page d" by (simp_all add: same_def)
  have c: "1024 + i * 64 + 64 \<le> cap" "4096 * 64 \<le> length data" using assms(2,3) text_capacity by simp_all
  from pread_run [OF ok pm_slba(2) [OF assms(2)] c] obtain e' where
    r: "sys_pread K (4096 * 64) ((1024 + of_nat i * 64) * 4096) data e =
      (of_nat (4096 * 64), pm_chunk (blk d) 64 i @ drop (4096 * 64) data, e')"
    and e': "ok e'" "blk e' = blk e" "page e' = page e" unfolding pm_chunk_def e(1) .
  have "pm_count (4096 * 64 - 5 + 1) (pm_chunk (blk d) 64 i @ drop (4096 * 64) data) target_data 5 cnt =
      Some (cnt + of_nat (occurrences Lorem (pm_chunk (blk d) 64 i)))"
    using count_chunk [OF ok, of 64 i "drop (4096 * 64) data" cnt] e by simp
  moreover have "length (pm_chunk (blk d) 64 i) = 262144" using length_chunk [OF ok, of 64 i] e(1) by simp
  ultimately show ?thesis using r e' e unfolding pm_pread_body_def Let_def split_conv by (simp add: same_def)
qed

lemma pm_pread_round_run:
  assumes "same d e" "262144 \<le> length data"
  shows "\<exists>e' data'. pm_pread_round K 5 (e, (data, cnt), out) =
    Some (Inr (e', (data', of_nat (chunk_count (blk d) 64 128)), out @ [Printf ''Result: %d\<newline>'' [of_nat (chunk_count (blk d) 64 128)],
      Printf ''I/O time : %.2f ms\<newline>'' [], Printf ''Computation time : %.2f ms\<newline>'' []])) \<and> same d e' \<and> 262144 \<le> length data'"
proof -
  let ?P = "\<lambda>i (e, (data :: buffer, c :: cint), o'). same d e \<and> 262144 \<le> length data \<and> c = of_nat (chunk_count (blk d) 64 i) \<and> o' = out"
  have "\<exists>s'. for_ret 128 (pm_pread_body K 5) (e, (data, 0), out) = Some (Inr s') \<and> ?P 128 s'"
  proof (rule for_ret_inv [where P = ?P])
    show "?P 0 (e, (data, 0), out)" using assms by simp
  next
    fix i s
    assume i: "i < 128" and r: "?P i s"
    obtain e1 o1 and b1 :: buffer and c1 :: cint where s: "s = (e1, (b1, c1), o1)" by (metis prod_cases4 prod.collapse)
    from r pm_pread_body_run [of d e1 i b1 c1 o1] i show "\<exists>s'. pm_pread_body K 5 i s = Some (Inr s') \<and> ?P (Suc i) s'"
      unfolding s by auto
  qed
  then obtain e' data' where "for_ret 128 (pm_pread_body K 5) (e, (data, 0), out) =
      Some (Inr (e', (data', of_nat (chunk_count (blk d) 64 128)), out))" "same d e'" "262144 \<le> length data'" by auto
  then show ?thesis by (simp add: pm_pread_round_def)
qed

lemma pm_pread_run:
  assumes "ok d"
  shows "\<exists>e. hostside_pm_pread_main K d = Some (e, concat (replicate 16 [Printf ''Result: %d\<newline>'' [of_nat (chunk_count (blk d) 64 128)],
      Printf ''I/O time : %.2f ms\<newline>'' [], Printf ''Computation time : %.2f ms\<newline>'' []])) \<and> same d e"
proof -
  let ?L = "[Printf ''Result: %d\<newline>'' [of_nat (chunk_count (blk d) 64 128)],
      Printf ''I/O time : %.2f ms\<newline>'' [], Printf ''Computation time : %.2f ms\<newline>'' []]"
  define L where "L = ?L"
  let ?P = "\<lambda>t (e, (data :: buffer, c :: cint), out). same d e \<and> 262144 \<le> length data \<and> out = concat (replicate (t :: nat) L)"
  have "\<exists>s'. for_ret 16 (\<lambda>t. pm_pread_round K 5) (d, (replicate data_size 0, 0), []) = Some (Inr s') \<and> ?P 16 s'"
  proof (rule for_ret_inv [where P = ?P])
    show "?P 0 (d, (replicate data_size 0, 0), [])" using same_refl [OF assms] by simp
  next
    fix t s
    assume r: "?P t s"
    obtain e1 o1 and b1 :: buffer and c1 :: cint where s: "s = (e1, (b1, c1), o1)" by (metis prod_cases4 prod.collapse)
    from r pm_pread_round_run [of d e1 b1 c1 o1, folded L_def] show "\<exists>s'. pm_pread_round K 5 s = Some (Inr s') \<and> ?P (Suc t) s'"
      unfolding s by (auto simp: concat_replicate_Suc simp del: replicate.simps)
  qed
  then obtain e bc out where r: "for_ret 16 (\<lambda>t. pm_pread_round K 5) (d, (replicate data_size 0, 0), []) = Some (Inr (e, bc, out))"
    and "?P 16 (e, bc, out)" by (metis prod_cases3)
  then have "same d e" "out = concat (replicate 16 L)" by (simp_all only: split_def fst_conv snd_conv)
  with r show ?thesis unfolding hostside_pm_pread_main_def strlen_target L_def [symmetric] by simp
qed

end

section \<open>Runs with strfilter inserted\<close>

text \<open>What strfilter counts in a chunk: every position but the last one.\<close>

definition inner_count :: "buffer \<Rightarrow> nat" where
  "inner_count c = card {i. i < length c - 5 \<and> matches_at Lorem c i}"

lemma inner_count_occurrences:
  assumes "5 \<le> length c"
  shows "occurrences Lorem c = inner_count c + (if drop (length c - 5) c = Lorem then 1 else 0)"
proof -
  have "matches_at Lorem c (length c - 5) \<longleftrightarrow> drop (length c - 5) c = Lorem" using assms by (simp add: matches_at_def)
  with occurrences_split_last [of Lorem c] assms show ?thesis
    by (simp add: inner_count_def) (simp add: Lorem_def)
qed

lemma isp_read_cmd_simps:
  "opcode (isp_read_cmd a n s) = 0x82" "cdw15 (isp_read_cmd a n s) = 0"
  "slba_of (isp_read_cmd a n s) = unat s" "nlb_of (isp_read_cmd a n s) = unat (n - 1) + 1"
  by (simp_all add: isp_read_cmd_def slba_of_def nlb_of_def)

lemma offload_cmd_simps:
  "opcode (offload_cmd s n ps) = 0x82" "slba_of (offload_cmd s n ps) = unat s" "nlb_of (offload_cmd s n ps) = unat (n - 1) + 1"
  by (simp_all add: offload_cmd_def slba_of_def nlb_of_def)

locale strf_ssd = text_ssd K ok blk page strfilter rest cap
  for K :: "'d kernel" and ok :: "'d \<Rightarrow> bool" and blk :: "'d \<Rightarrow> nat \<Rightarrow> buffer"
    and page :: "'d \<Rightarrow> nat \<Rightarrow> buffer" and rest :: "nvme_passthru_cmd \<Rightarrow> cint \<times> cint \<times> cint" and cap :: nat
begin

text \<open>A request of 128 blocks from a block below the capacity.\<close>

lemma strf_request:
  assumes "same d e" "unat s + 128 \<le> cap"
  obtains buf' e' where "ioctl_io_cmd K (isp_read_cmd a 128 s) buf e = (0, of_nat (inner_count (extent (blk d) (unat s) 128)), buf', e')"
    "same d e'"
proof -
  let ?c = "isp_read_cmd a 128 s" and ?t = "extent (blk d) (unat s) 128"
  from assms(1) have ok: "ok e" and e: "blk e = blk d" "page e = page d" by (simp_all add: same_def)
  let ?ctx = "ctx_of (blk e) (page e) (rest ?c) ?c"
  have ctx: "ctx_data ?ctx = ?t" "ctx_map_page ?ctx = page e 0"
    by (simp_all add: ctx_of_def isp_read_cmd_simps e)
  have len: "length ?t = 524288" using length_extent_blk [OF ok, of "unat s" 128] e(1) by simp
  have "strfilter ?ctx = Some (of_nat (card {i. i < 524283 \<and> matches_at Lorem (ctx_data ?ctx) i}), ctx_map_page ?ctx)"
    by (rule strfilter_eq) (simp add: ctx len)
  then have p: "strfilter ?ctx = Some (of_nat (inner_count ?t), page e 0)"
    unfolding ctx inner_count_def len by simp
  have cap: "slba_of ?c + nlb_of ?c \<le> cap" using assms(2) by (simp add: isp_read_cmd_simps)
  from isp_run [OF ok isp_read_cmd_simps(1) cap p, of buf] obtain buf' e' where
    "ioctl_io_cmd K ?c buf e = (0, of_nat (inner_count ?t), buf', e')" "ok e'" "blk e' = blk e"
    "page e' = (page e)(unat (cdw15 ?c) := page e 0)" .
  with e that [of buf' e'] show thesis by (simp add: isp_read_cmd_simps same_def)
qed

lemma ssdside_body_run:
  assumes "same d e" "i < 64"
  shows "\<exists>e' data'. ssdside_body K a i (e, (data, cnt), out) =
    (e', (data', cnt + of_nat (inner_count (pm_chunk (blk d) 128 i))), out) \<and> same d e'"
proof -
  have "unat (1024 + of_nat i * 128 :: cint) + 128 \<le> cap" using assms(2) text_capacity by (simp add: pm_slba)
  from strf_request [OF assms(1) this] obtain buf' e' where
    "ioctl_io_cmd K (isp_read_cmd a 128 (1024 + of_nat i * 128)) data e =
      (0, of_nat (inner_count (extent (blk d) (unat (1024 + of_nat i * 128 :: cint)) 128)), buf', e')" "same d e'" .
  then show ?thesis using assms(2) by (simp add: ssdside_body_def pm_slba pm_chunk_def)
qed

lemma ssdside_loop:
  assumes "same d e" "n \<le> 64"
  shows "\<exists>e' data'. for_do n (ssdside_body K a) (e, (data, 0), out) =
    (e', (data', of_nat (\<Sum>i<n. inner_count (pm_chunk (blk d) 128 i))), out) \<and> same d e'"
  using assms(2)
proof (induction n)
  case 0
  with assms(1) show ?case by simp
next
  case (Suc n)
  then obtain e1 data1 where "for_do n (ssdside_body K a) (e, (data, 0), out) =
    (e1, (data1, of_nat (\<Sum>i<n. inner_count (pm_chunk (blk d) 128 i))), out)" "same d e1" by auto
  with ssdside_body_run [of d e1 n a data1 "of_nat (\<Sum>i<n. inner_count (pm_chunk (blk d) 128 i))" out] Suc.prems
  show ?case by simp
qed

lemma ssdside_run:
  assumes "ok d"
  shows "\<exists>e data. ssdside_pm_main K a d = (e, (data, of_nat (\<Sum>i<64. inner_count (pm_chunk (blk d) 128 i))),
    [Printf ''---- Test end ----\<newline>'' [], Printf ''Average time : %.2f ms\<newline>'' []]) \<and> same d e"
proof -
  have "data_blk div 128 = (64 :: nat)" by simp
  moreover obtain e data where "for_do 64 (ssdside_body K a) (d, (replicate (4096 * 128) 0, 0), []) =
    (e, (data, of_nat (\<Sum>i<64. inner_count (pm_chunk (blk d) 128 i))), [])" "same d e"
    using ssdside_loop [OF same_refl [OF assms], of 64 a] by blast
  ultimately show ?thesis by (simp only: ssdside_pm_main_def One_nat_def for_do.simps split_conv Let_def) simp
qed

text \<open>A request of one block is too short for strfilter.\<close>

lemma offload_fails:
  assumes "ok d"
  shows "\<exists>err res d'. offload_callprog K s 1 ps d = (res, d', [Printf ''ioctl issued err %d\<newline>'' [err]]) \<and> ok d'"
proof -
  let ?c = "offload_cmd s 1 ps"
  obtain err res buf' d' where c: "ioctl_io_cmd K ?c [] d = (err, res, buf', d')" by (metis prod_cases4)
  have "length (ctx_data (ctx_of (blk d) (page d) (rest ?c) ?c)) = 4096"
    using blk_length [OF assms] by (simp add: ctx_of_def offload_cmd_simps)
  then have "strfilter (ctx_of (blk d) (page d) (rest ?c) ?c) = None" by (intro strfilter_short) simp
  then have "err \<noteq> 0" using isp_read [OF assms _ offload_cmd_simps(1)] c by fastforce
  with c cmd_frame [OF assms c] show ?thesis by (simp add: offload_callprog_def)
qed

lemma offload_loop:
  assumes "ok d"
  shows "\<exists>d' s' cnt' out'. for_do n (offload_body K) ((d, s, cnt), []) = ((d', s', cnt'), out') \<and> ok d' \<and>
    length out' = n \<and> (\<forall>x \<in> set out'. \<exists>err. x = Printf ''ioctl issued err %d\<newline>'' [err])"
proof (induction n)
  case 0
  with assms show ?case by simp
next
  case (Suc n)
  then obtain d1 s1 c1 o1 where o1: "for_do n (offload_body K) ((d, s, cnt), []) = ((d1, s1, c1), o1)" "ok d1" "length o1 = n"
    "\<forall>x \<in> set o1. \<exists>err. x = Printf ''ioctl issued err %d\<newline>'' [err]" by blast
  from offload_fails [OF o1(2)] obtain err res d2 where
    "offload_callprog K s1 1 [0, 0, 0, 0, 0] d1 = (res, d2, [Printf ''ioctl issued err %d\<newline>'' [err]])" "ok d2" by blast
  then have "offload_body K n ((d1, s1, c1), o1) = ((d2, s1 + 1, c1 + res), o1 @ [Printf ''ioctl issued err %d\<newline>'' [err]])" "ok d2"
    by (simp_all add: offload_body_def)
  with o1 show ?case by auto
qed

end

interpretation ssd_text: strf_ssd "ssd_kernel (9216 + n) strfilter" ssd_ok ssd_blk ssd_page ssd_rest "9216 + n" for n
  by unfold_locales simp

lemma ssd_text_ref: "strf_ssd (ssd_kernel 9216 strfilter) ssd_ok ssd_blk ssd_page ssd_rest 9216"
  using ssd_text.strf_ssd_axioms [of 0] by simp

section \<open>Properties\<close>

text \<open>
  C20: The host programs count the same text differently. On an SSD that holds the text, hostread-pm
  prints the number of occurrences of the word in the 32 MB; hostside-pm-pread prints, in each of its
  16 rounds, the sum of the occurrences within the 128 chunks of 256 KB it reads; the two differ by
  exactly the occurrences that straddle a chunk boundary.
\<close>

theorem hostread_vs_pread:
  assumes "text_ssd K ok blk page prog rest cap" "ok d" "0 \<le> sint fd"
  shows "\<exists>e out e' n. hostread_pm_main K fd d = Some (e, Printf ''Result: %d\<newline>'' [of_nat (occurrences Lorem (extent (blk d) 1024 8192))] # out) \<and>
    hostside_pm_pread_main K d = Some (e', concat (replicate 16 (Printf ''Result: %d\<newline>'' [of_nat n] # out))) \<and>
    n = (\<Sum>i\<leftarrow>[0..<128]. occurrences Lorem (pm_chunk (blk d) 64 i)) \<and>
    occurrences Lorem (extent (blk d) 1024 8192) = n + cut_straddles Lorem (map (pm_chunk (blk d) 64) [0..<128])"
proof -
  have "occurrences Lorem (extent (blk d) 1024 (128 * 64)) = chunk_count (blk d) 64 128 +
      cut_straddles Lorem (map (pm_chunk (blk d) 64) [0..<128])" by (rule text_count)
  moreover have "128 * 64 = (8192 :: nat)" by simp
  ultimately have "occurrences Lorem (extent (blk d) 1024 8192) = chunk_count (blk d) 64 128 +
      cut_straddles Lorem (map (pm_chunk (blk d) 64) [0..<128])" by (simp only:)
  moreover obtain e where "hostread_pm_main K fd d = Some (e, [Printf ''Result: %d\<newline>'' [of_nat (occurrences Lorem (extent (blk d) 1024 8192))],
    Printf ''I/O time : %.2f ms\<newline>'' [], Printf ''Computation time : %.2f ms\<newline>'' []])"
    using text_ssd.hostread_run [OF assms] by blast
  moreover obtain e' where "hostside_pm_pread_main K d = Some (e', concat (replicate 16 [Printf ''Result: %d\<newline>'' [of_nat (chunk_count (blk d) 64 128)],
      Printf ''I/O time : %.2f ms\<newline>'' [], Printf ''Computation time : %.2f ms\<newline>'' []]))"
    using text_ssd.pm_pread_run [OF assms(1,2)] by blast
  ultimately show ?thesis by (intro exI conjI) (assumption | rule chunk_count_def)+
qed

theorem hostread_vs_pread_witness:
  "\<exists>e out e' n. hostread_pm_main (ssd_kernel 9216 strfilter) 3 ones_ssd =
      Some (e, Printf ''Result: %d\<newline>'' [of_nat (occurrences Lorem (extent (ssd_blk ones_ssd) 1024 8192))] # out) \<and>
    hostside_pm_pread_main (ssd_kernel 9216 strfilter) ones_ssd = Some (e', concat (replicate 16 (Printf ''Result: %d\<newline>'' [of_nat n] # out))) \<and>
    n = (\<Sum>i\<leftarrow>[0..<128]. occurrences Lorem (pm_chunk (ssd_blk ones_ssd) 64 i)) \<and>
    occurrences Lorem (extent (ssd_blk ones_ssd) 1024 8192) = n + cut_straddles Lorem (map (pm_chunk (ssd_blk ones_ssd) 64) [0..<128])"
  by (rule hostread_vs_pread [OF strf_ssd.axioms [OF ssd_text_ref] ssd_ok_ones]) simp

text \<open>
  hostside-pm-ioctl ends with the same count as hostside-pm-pread prints: both read the same
  chunks and count the same way.
\<close>

lemma pm_ioctl_agrees_with_pread:
  assumes "text_ssd K ok blk page prog rest cap" "ok d"
  shows "\<exists>e data n out e' lines. hostside_pm_ioctl_main K a d = Some (e, (data, n), out) \<and>
    hostside_pm_pread_main K d = Some (e', concat (replicate 16 (Printf ''Result: %d\<newline>'' [n] # lines))) \<and> blk e = blk d \<and> blk e' = blk d"
proof -
  have "isp_ssd K ok blk page prog rest" using assms(1) by (simp add: text_ssd_def reliable_ssd_def)
  note same = isp_ssd.same_def [OF this]
  show ?thesis
    using text_ssd.pm_ioctl_run [OF assms, of a] text_ssd.pm_pread_run [OF assms] unfolding same by blast
qed

text \<open>
  C24: The count of ssdside-pm with strfilter inserted: the sum of the occurrences within its 64 chunks
  of 512 KB, less one for every chunk that ends with the word. No request fails.
\<close>

theorem ssdside_count:
  assumes "strf_ssd K ok blk page rest cap" "ok d"
  shows "\<exists>e data n. ssdside_pm_main K a d =
      (e, (data, of_nat n), [Printf ''---- Test end ----\<newline>'' [], Printf ''Average time : %.2f ms\<newline>'' []]) \<and>
    (\<Sum>i<64. occurrences Lorem (pm_chunk (blk d) 128 i)) =
      n + card {i. i < 64 \<and> drop 524283 (pm_chunk (blk d) 128 i) = Lorem}"
proof -
  have t: "text_ssd K ok blk page strfilter rest cap" by (rule strf_ssd.axioms [OF assms(1)])
  have "occurrences Lorem (pm_chunk (blk d) 128 i) =
      inner_count (pm_chunk (blk d) 128 i) + (if drop 524283 (pm_chunk (blk d) 128 i) = Lorem then 1 else 0)" for i
    using inner_count_occurrences [of "pm_chunk (blk d) 128 i"] text_ssd.length_chunk [OF t assms(2), of 128 i] by simp
  moreover have "(\<Sum>i<n. if P i then 1 else 0 :: nat) = card {i. i < n \<and> P i}" for n and P :: "nat \<Rightarrow> bool"
    by (induction n) (simp_all add: card_less_Suc_if)
  ultimately have "(\<Sum>i<n. occurrences Lorem (pm_chunk (blk d) 128 i)) =
      (\<Sum>i<n. inner_count (pm_chunk (blk d) 128 i)) + card {i. i < n \<and> drop 524283 (pm_chunk (blk d) 128 i) = Lorem}" for n
    by (simp only: sum.distrib)
  with strf_ssd.ssdside_run [OF assms, of a] show ?thesis by blast
qed

theorem ssdside_count_witness:
  "\<exists>e data n. ssdside_pm_main (ssd_kernel 9216 strfilter) 0 ones_ssd =
      (e, (data, of_nat n), [Printf ''---- Test end ----\<newline>'' [], Printf ''Average time : %.2f ms\<newline>'' []]) \<and>
    (\<Sum>i<64. occurrences Lorem (pm_chunk (ssd_blk ones_ssd) 128 i)) =
      n + card {i. i < 64 \<and> drop 524283 (pm_chunk (ssd_blk ones_ssd) 128 i) = Lorem}"
  by (rule ssdside_count [OF ssd_text_ref ssd_ok_ones])

text \<open>
  offloaded-pm requests one block at a time, strfilter reads 128: with strfilter inserted, on an
  SSD that reports a run out of bounds as an error, all 8192 requests fail.
\<close>

lemma offloaded_all_requests_fail:
  assumes "strf_ssd K ok blk page rest cap" "ok d"
  shows "\<exists>errs cnt. snd (offloaded_pm_main K d) = map (\<lambda>err. Printf ''ioctl issued err %d\<newline>'' [err]) errs @
      [Printf ''ioctl time : %f\<newline>'' [], Printf ''result: %d\<newline>'' [cnt]] \<and> length errs = 8192"
proof -
  have "data_blk div 1 = (8192 :: nat)" by simp
  moreover obtain d' s' cnt out where o: "for_do 8192 (offload_body K) ((d, 1024, 0), []) = ((d', s', cnt), out)"
    "length out = 8192" "\<forall>x \<in> set out. \<exists>err. x = Printf ''ioctl issued err %d\<newline>'' [err]"
    using strf_ssd.offload_loop [OF assms, of 8192 1024 0] by blast
  moreover have "\<exists>errs. out = map (\<lambda>err. Printf ''ioctl issued err %d\<newline>'' [err]) errs"
    using o(3) unfolding ex_map_conv by blast
  ultimately show ?thesis by (auto simp: offloaded_pm_main_def)
qed

text \<open>
  hostside-pm-pread stops at the first read that does not deliver 256 KB: on any kernel whose
  first read falls short it prints the error of iteration 0 and no result.
\<close>

lemma pm_pread_stops_on_error:
  assumes "sys_pread K (4096 * 64) (1024 * 4096) (replicate data_size 0) d = (err, data, d')" "err \<noteq> 262144"
  shows "hostside_pm_pread_main K d = Some (d', [Printf ''iteration %d: err %d\<newline>'' [0, err], Printf ''ERROR: %s\<newline>'' []])"
proof -
  have b: "pm_pread_body K 5 0 (d, (replicate data_size 0, 0), []) =
      Some (Inl (d', [Printf ''iteration %d: err %d\<newline>'' [0, err], Printf ''ERROR: %s\<newline>'' []]))"
    using assms by (simp add: pm_pread_body_def)
  have "for_ret 128 (pm_pread_body K 5) (d, (replicate data_size 0, 0), []) =
      Some (Inl (d', [Printf ''iteration %d: err %d\<newline>'' [0, err], Printf ''ERROR: %s\<newline>'' []]))"
    by (rule for_ret_stop [where i = 0, OF for_ret.simps(1)], rule b) simp
  then have r: "pm_pread_round K 5 (d, (replicate data_size 0, 0), []) =
      Some (Inl (d', [Printf ''iteration %d: err %d\<newline>'' [0, err], Printf ''ERROR: %s\<newline>'' []]))"
    by (simp add: pm_pread_round_def)
  have "for_ret 16 (\<lambda>t. pm_pread_round K 5) (d, (replicate data_size 0, 0), []) =
      Some (Inl (d', [Printf ''iteration %d: err %d\<newline>'' [0, err], Printf ''ERROR: %s\<newline>'' []]))"
    by (rule for_ret_stop [where i = 0, OF for_ret.simps(1)], rule r) simp
  then show ?thesis unfolding hostside_pm_pread_main_def strlen_target by simp
qed

end
