(* ===== verification/Process_Trees.thy ===== *)
theory Process_Trees
  imports Pattern_Match
begin

text \<open>
  Programs whose forked children can go on as the program itself: \<open>src/pattern_match/mtssd_pm.c\<close>,
  where a child whose request fails continues the loop that forks, and \<open>src/rband/pread_local.c\<close>,
  where a child never exits. The processes form a tree; a state lists them in the order of their
  creation, with their parents. Each process prints to its own stream; a failing \<open>fork\<close> and clock
  readings are left out.
\<close>

section \<open>Processes and wait\<close>

datatype life = Alive | Zombie | Reaped

record 'p proc =
  parent :: "nat option"
  life :: life
  loc :: 'p

text \<open>
  \<open>wait(&status)\<close> by process \<open>p\<close>: it returns and forgets a child that has exited, returns -1 when
  there is no child left, and blocks otherwise.
\<close>

inductive wait_call :: "'p proc list \<Rightarrow> nat \<Rightarrow> int \<Rightarrow> 'p proc list \<Rightarrow> bool" where
  reap: "q < length ps \<Longrightarrow> parent (ps ! q) = Some p \<Longrightarrow> life (ps ! q) = Zombie \<Longrightarrow>
    wait_call ps p (int q) (ps[q := (ps ! q)\<lparr>life := Reaped\<rparr>])"
| no_child: "(\<forall>q < length ps. parent (ps ! q) = Some p \<longrightarrow> life (ps ! q) = Reaped) \<Longrightarrow> wait_call ps p (-1) ps"

definition set_loc :: "'p proc list \<Rightarrow> nat \<Rightarrow> 'p \<Rightarrow> 'p proc list" where
  "set_loc ps p l = ps[p := (ps ! p)\<lparr>loc := l\<rparr>]"

definition exit_proc :: "'p proc list \<Rightarrow> nat \<Rightarrow> 'p \<Rightarrow> 'p proc list" where
  "exit_proc ps p l = ps[p := (ps ! p)\<lparr>loc := l, life := Zombie\<rparr>]"

definition fork_proc :: "'p proc list \<Rightarrow> nat \<Rightarrow> 'p \<Rightarrow> 'p proc list" where
  "fork_proc ps p l = ps @ [\<lparr>parent = Some p, life = Alive, loc = l\<rparr>]"

section \<open>mtssd-pm\<close>

datatype mt_pc = At_fork | At_request | At_wait

record mt_loc =
  mpc :: mt_pc
  mt :: nat
  mi :: nat
  mcnt :: cint
  mdata :: buffer
  mout :: "event list"

definition mt_init :: mt_loc where
  "mt_init = \<lparr>mpc = At_fork, mt = 0, mi = 0, mcnt = 0, mdata = replicate (4096 * 64) 0,
     mout = [Printf ''Iteration %d\<newline>'' [0]]\<rparr>"

text \<open>What a child does after \<open>fork\<close>: the request, and then \<open>continue\<close> or \<open>exit(0)\<close>.\<close>

definition mt_request :: "'d kernel \<Rightarrow> u64 \<Rightarrow> mt_loc \<Rightarrow> 'd \<Rightarrow> bool \<times> mt_loc \<times> 'd" where
  "mt_request K a l d =
     (let (err, res, data, d) = ioctl_io_cmd K (isp_read_cmd a 64 (1024 + of_nat (mi l) * 64)) (mdata l) d;
          l = l\<lparr>mdata := data\<rparr>
      in if err \<noteq> 0 then
           (False, l\<lparr>mout := mout l @ [Printf ''iteration %d: err %d\<newline>'' [of_nat (mi l), err]], mpc := At_fork, mi := mi l + 1\<rparr>, d)
         else
           (True, l\<lparr>mout := mout l @ (if res \<noteq> 64 then [Printf ''iteration %d: result error: %d\<newline>'' [of_nat (mi l), res]] else []),
              mcnt := mcnt l + res\<rparr>, d))"

text \<open>What follows the loop of \<open>wait\<close> calls: the result, and the next iteration or the end of \<open>main\<close>.\<close>

definition mt_result :: "mt_loc \<Rightarrow> bool \<times> mt_loc" where
  "mt_result l =
     (let out = mout l @ [Printf ''Result: %d\<newline>'' [mcnt l], Printf ''ioctl time : %.2f ms\<newline>'' []] in
      if mt l + 1 < 16 then
        (False, l\<lparr>mt := mt l + 1, mi := 0, mcnt := 0, mpc := At_fork, mout := out @ [Printf ''Iteration %d\<newline>'' [of_nat (mt l + 1)]]\<rparr>)
      else
        (True, l\<lparr>mt := mt l + 1, mout := out @ [Printf ''---- Test end ----\<newline>'' [], Printf ''Average time : %.2f ms\<newline>'' []]\<rparr>))"

inductive mtssd_step :: "'d kernel \<Rightarrow> u64 \<Rightarrow> 'd \<times> mt_loc proc list \<Rightarrow> 'd \<times> mt_loc proc list \<Rightarrow> bool"
  for K a where
  fork: "p < length ps \<Longrightarrow> life (ps ! p) = Alive \<Longrightarrow> loc (ps ! p) = l \<Longrightarrow> mpc l = At_fork \<Longrightarrow> mi l < data_blk div 64 \<Longrightarrow>
    mtssd_step K a (d, ps) (d, fork_proc (set_loc ps p (l\<lparr>mi := mi l + 1\<rparr>)) p (l\<lparr>mpc := At_request, mout := []\<rparr>))"
| loop_end: "p < length ps \<Longrightarrow> life (ps ! p) = Alive \<Longrightarrow> loc (ps ! p) = l \<Longrightarrow> mpc l = At_fork \<Longrightarrow> data_blk div 64 \<le> mi l \<Longrightarrow>
    mtssd_step K a (d, ps) (d, set_loc ps p (l\<lparr>mpc := At_wait\<rparr>))"
| request_err: "p < length ps \<Longrightarrow> life (ps ! p) = Alive \<Longrightarrow> loc (ps ! p) = l \<Longrightarrow> mpc l = At_request \<Longrightarrow>
    mt_request K a l d = (False, l', d') \<Longrightarrow> mtssd_step K a (d, ps) (d', set_loc ps p l')"
| request_ok: "p < length ps \<Longrightarrow> life (ps ! p) = Alive \<Longrightarrow> loc (ps ! p) = l \<Longrightarrow> mpc l = At_request \<Longrightarrow>
    mt_request K a l d = (True, l', d') \<Longrightarrow> mtssd_step K a (d, ps) (d', exit_proc ps p l')"
| wait_again: "p < length ps \<Longrightarrow> life (ps ! p) = Alive \<Longrightarrow> mpc (loc (ps ! p)) = At_wait \<Longrightarrow>
    wait_call ps p r ps' \<Longrightarrow> 0 < r \<Longrightarrow> mtssd_step K a (d, ps) (d, ps')"
| wait_done: "p < length ps \<Longrightarrow> life (ps ! p) = Alive \<Longrightarrow> loc (ps ! p) = l \<Longrightarrow> mpc l = At_wait \<Longrightarrow>
    wait_call ps p r ps' \<Longrightarrow> r \<le> 0 \<Longrightarrow> mt_result l = (False, l') \<Longrightarrow> mtssd_step K a (d, ps) (d, set_loc ps' p l')"
| wait_exit: "p < length ps \<Longrightarrow> life (ps ! p) = Alive \<Longrightarrow> loc (ps ! p) = l \<Longrightarrow> mpc l = At_wait \<Longrightarrow>
    wait_call ps p r ps' \<Longrightarrow> r \<le> 0 \<Longrightarrow> mt_result l = (True, l') \<Longrightarrow> mtssd_step K a (d, ps) (d, exit_proc ps' p l')"

definition mtssd_start :: "'d \<Rightarrow> 'd \<times> mt_loc proc list" where
  "mtssd_start d = (d, [\<lparr>parent = None, life = Alive, loc = mt_init\<rparr>])"

section \<open>pread-local\<close>

datatype pl_pc = Pl_fork | Pl_read nat nat | Pl_wait

record pl_loc =
  ppc :: pl_pc
  pidx :: nat
  pdata :: buffer
  pout :: "event list"

definition pl_init :: pl_loc where
  "pl_init = \<lparr>ppc = Pl_fork, pidx = 0, pdata = [], pout = []\<rparr>"

text \<open>One read of a child, in pass \<open>k\<close> over the data.\<close>

definition pl_read :: "'d kernel \<Rightarrow> nat \<Rightarrow> nat \<Rightarrow> pl_loc \<Rightarrow> 'd \<Rightarrow> pl_loc \<times> 'd" where
  "pl_read K k j l d =
     (let off = (1024 + of_nat j * 128) * 4096;
          (err, data, d) = sys_pread K (4096 * 128) off (pdata l) d
      in (l\<lparr>ppc := Pl_read k (j + 1), pdata := data, pout := pout l @
            (if err \<noteq> of_nat (4096 * 128)
             then [Printf ''iteration %d: err %d, off 0x%x\<newline>'' [of_nat j, err, off], Printf ''ERROR: %s\<newline>'' []] else [])\<rparr>, d))"

text \<open>The end of a pass, and after four passes the end of the child's part: it goes on to \<open>wait\<close>.\<close>

definition pl_pass :: "nat \<Rightarrow> pl_loc \<Rightarrow> pl_loc" where
  "pl_pass k l =
     (let out = pout l @ [Printf ''1GB pread time : %.2f ms\<newline>'' []] in
      if k + 1 < 4 then l\<lparr>ppc := Pl_read (k + 1) 0, pout := out\<rparr>
      else l\<lparr>ppc := Pl_wait, pout := out @ [Printf ''---- Test end ----\<newline>'' [], Printf ''Average time : %.2f ms\<newline>'' []]\<rparr>)"

inductive pread_local_step :: "'d kernel \<Rightarrow> 'd \<times> pl_loc proc list \<Rightarrow> 'd \<times> pl_loc proc list \<Rightarrow> bool"
  for K where
  pl_fork: "p < length ps \<Longrightarrow> life (ps ! p) = Alive \<Longrightarrow> loc (ps ! p) = l \<Longrightarrow> ppc l = Pl_fork \<Longrightarrow> pidx l < 2 \<Longrightarrow>
    pread_local_step K (d, ps) (d, fork_proc (set_loc ps p (l\<lparr>ppc := Pl_wait\<rparr>)) p
      (l\<lparr>ppc := Pl_read 0 0, pdata := replicate (4096 * 256 * 1024) 0, pout := []\<rparr>))"
| pl_return: "p < length ps \<Longrightarrow> life (ps ! p) = Alive \<Longrightarrow> loc (ps ! p) = l \<Longrightarrow> ppc l = Pl_fork \<Longrightarrow> 2 \<le> pidx l \<Longrightarrow>
    pread_local_step K (d, ps) (d, exit_proc ps p l)"
| pl_read: "p < length ps \<Longrightarrow> life (ps ! p) = Alive \<Longrightarrow> loc (ps ! p) = l \<Longrightarrow> ppc l = Pl_read k j \<Longrightarrow> j < 256 * 1024 div 128 \<Longrightarrow>
    pl_read K k j l d = (l', d') \<Longrightarrow> pread_local_step K (d, ps) (d', set_loc ps p l')"
| pl_pass: "p < length ps \<Longrightarrow> life (ps ! p) = Alive \<Longrightarrow> loc (ps ! p) = l \<Longrightarrow> ppc l = Pl_read k j \<Longrightarrow> 256 * 1024 div 128 \<le> j \<Longrightarrow>
    pread_local_step K (d, ps) (d, set_loc ps p (pl_pass k l))"
| pl_wait_again: "p < length ps \<Longrightarrow> life (ps ! p) = Alive \<Longrightarrow> ppc (loc (ps ! p)) = Pl_wait \<Longrightarrow>
    wait_call ps p r ps' \<Longrightarrow> r < 0 \<Longrightarrow> pread_local_step K (d, ps) (d, ps')"
| pl_wait_done: "p < length ps \<Longrightarrow> life (ps ! p) = Alive \<Longrightarrow> loc (ps ! p) = l \<Longrightarrow> ppc l = Pl_wait \<Longrightarrow>
    wait_call ps p r ps' \<Longrightarrow> 0 \<le> r \<Longrightarrow>
    pread_local_step K (d, ps) (d, set_loc ps' p (l\<lparr>ppc := Pl_fork, pidx := pidx l + 1,
      pout := pout l @ [Printf ''---- All processes Finished ----\<newline>'' []]\<rparr>))"

definition pread_local_start :: "'d \<Rightarrow> 'd \<times> pl_loc proc list" where
  "pread_local_start d = (d, [\<lparr>parent = None, life = Alive, loc = pl_init\<rparr>])"

section \<open>Invariants over the processes\<close>

lemma length_procs [simp]:
  "length (set_loc ps p l) = length ps" "length (exit_proc ps p l) = length ps" "length (fork_proc ps p l) = Suc (length ps)"
  by (simp_all add: set_loc_def exit_proc_def fork_proc_def)

lemma nth_procs:
  "q < length ps \<Longrightarrow> set_loc ps p l ! q = (if q = p then (ps ! p)\<lparr>loc := l\<rparr> else ps ! q)"
  "q < length ps \<Longrightarrow> exit_proc ps p l ! q = (if q = p then (ps ! p)\<lparr>loc := l, life := Zombie\<rparr> else ps ! q)"
  "q < Suc (length ps) \<Longrightarrow> fork_proc ps p l ! q = (if q = length ps then \<lparr>parent = Some p, life = Alive, loc = l\<rparr> else ps ! q)"
  by (auto simp: set_loc_def exit_proc_def fork_proc_def nth_append)

lemma set_loc_all: "\<forall>x \<in> set ps. P x \<Longrightarrow> P ((ps ! p)\<lparr>loc := l\<rparr>) \<Longrightarrow> \<forall>x \<in> set (set_loc ps p l). P x"
  unfolding set_loc_def by (auto dest: subsetD [OF set_update_subset_insert])

lemma exit_proc_all: "\<forall>x \<in> set ps. P x \<Longrightarrow> P ((ps ! p)\<lparr>loc := l, life := Zombie\<rparr>) \<Longrightarrow> \<forall>x \<in> set (exit_proc ps p l). P x"
  unfolding exit_proc_def by (auto dest: subsetD [OF set_update_subset_insert])

lemma fork_proc_all: "\<forall>x \<in> set ps. P x \<Longrightarrow> P \<lparr>parent = Some p, life = Alive, loc = l\<rparr> \<Longrightarrow> \<forall>x \<in> set (fork_proc ps p l). P x"
  unfolding fork_proc_def by auto

lemma wait_call_all:
  assumes "wait_call ps p r ps'" "\<forall>x \<in> set ps. P x" "\<And>x. life x = Zombie \<Longrightarrow> P x \<Longrightarrow> P (x\<lparr>life := Reaped\<rparr>)"
  shows "\<forall>x \<in> set ps'. P x"
  using assms(1)
proof cases
  case (reap q)
  with assms(2,3) have "P ((ps ! q)\<lparr>life := Reaped\<rparr>)" by auto
  with assms(2) reap show ?thesis by (auto dest: subsetD [OF set_update_subset_insert])
qed (use assms(2) in simp)

lemma wait_call_nth:
  assumes "wait_call ps p r ps'"
  shows "length ps' = length ps \<and> (\<forall>q < length ps. parent (ps' ! q) = parent (ps ! q) \<and> loc (ps' ! q) = loc (ps ! q) \<and>
    (life (ps' ! q) = Alive \<longleftrightarrow> life (ps ! q) = Alive))"
  using assms by cases (auto simp: nth_list_update)

subsection \<open>The count of mtssd-pm\<close>

definition zero_results :: "mt_loc proc \<Rightarrow> bool" where
  "zero_results x \<longleftrightarrow> (life x = Alive \<longrightarrow> mcnt (loc x) = 0) \<and>
     (\<forall>args. Printf ''Result: %d\<newline>'' args \<in> set (mout (loc x)) \<longrightarrow> args = [0])"

lemma mt_request_False:
  "mt_request K a l d = (False, l', d') \<Longrightarrow> mcnt l' = mcnt l \<and> mt l' = mt l \<and> mi l' = Suc (mi l) \<and> mpc l' = At_fork \<and>
     (\<forall>args. Printf ''Result: %d\<newline>'' args \<in> set (mout l') \<longrightarrow> Printf ''Result: %d\<newline>'' args \<in> set (mout l))"
  by (auto simp: mt_request_def Let_def split: prod.splits if_splits)

lemma mt_request_True:
  "mt_request K a l d = (True, l', d') \<Longrightarrow>
     (\<forall>args. Printf ''Result: %d\<newline>'' args \<in> set (mout l') \<longrightarrow> Printf ''Result: %d\<newline>'' args \<in> set (mout l))"
  by (auto simp: mt_request_def Let_def split: prod.splits if_splits)

lemma mt_result_False:
  "mt_result l = (False, l') \<Longrightarrow> mcnt l' = 0 \<and> mt l' = Suc (mt l) \<and> mi l' = 0 \<and> mpc l' = At_fork \<and>
     (\<forall>args. Printf ''Result: %d\<newline>'' args \<in> set (mout l') \<longrightarrow> Printf ''Result: %d\<newline>'' args \<in> set (mout l) \<or> args = [mcnt l])"
  by (auto simp: mt_result_def Let_def split: if_splits)

lemma mt_result_True:
  "mt_result l = (True, l') \<Longrightarrow> mt l' = Suc (mt l) \<and> mi l' = mi l \<and> mpc l' = mpc l \<and>
     (\<forall>args. Printf ''Result: %d\<newline>'' args \<in> set (mout l') \<longrightarrow> Printf ''Result: %d\<newline>'' args \<in> set (mout l) \<or> args = [mcnt l])"
  by (auto simp: mt_result_def Let_def split: if_splits)

lemma zero_results_step:
  "mtssd_step K a st st' \<Longrightarrow> \<forall>x \<in> set (snd st). zero_results x \<Longrightarrow> \<forall>x \<in> set (snd st'). zero_results x"
proof (induction rule: mtssd_step.induct)
  case (fork p ps l d)
  then have "zero_results (ps ! p)" by simp
  with fork show ?case
    unfolding snd_conv by (intro fork_proc_all set_loc_all) (auto simp: zero_results_def)
next
  case (loop_end p ps l d)
  then have "zero_results (ps ! p)" by simp
  with loop_end show ?case unfolding snd_conv by (intro set_loc_all) (auto simp: zero_results_def)
next
  case (request_err p ps l d l' d')
  then have "zero_results (ps ! p)" by simp
  with request_err mt_request_False [OF request_err(5)] show ?case
    unfolding snd_conv by (intro set_loc_all) (auto simp: zero_results_def)
next
  case (request_ok p ps l d l' d')
  then have "zero_results (ps ! p)" by simp
  with request_ok mt_request_True [OF request_ok(5)] show ?case
    unfolding snd_conv by (intro exit_proc_all) (auto simp: zero_results_def)
next
  case (wait_again p ps r ps' d)
  then show ?case unfolding snd_conv by (elim wait_call_all) (auto simp: zero_results_def)
next
  case (wait_done p ps l r ps' l' d)
  then have "\<forall>x \<in> set ps'. zero_results x" unfolding snd_conv by (elim wait_call_all) (auto simp: zero_results_def)
  moreover have "zero_results (ps ! p)" using wait_done by simp
  ultimately show ?case using wait_done mt_result_False [OF wait_done(7)] wait_call_nth [OF wait_done(5)]
    unfolding snd_conv by (intro set_loc_all) (auto simp: zero_results_def)
next
  case (wait_exit p ps l r ps' l' d)
  then have "\<forall>x \<in> set ps'. zero_results x" unfolding snd_conv by (elim wait_call_all) (auto simp: zero_results_def)
  moreover have "zero_results (ps ! p)" using wait_exit by simp
  ultimately show ?case using wait_exit mt_result_True [OF wait_exit(7)] wait_call_nth [OF wait_exit(5)]
    unfolding snd_conv by (intro exit_proc_all) (auto simp: zero_results_def)
qed

lemma zero_results_reachable:
  assumes "(mtssd_step K a)\<^sup>*\<^sup>* (mtssd_start d) st"
  shows "\<forall>x \<in> set (snd st). zero_results x"
  using assms
proof (induction rule: rtranclp_induct)
  case base
  show ?case by (simp add: mtssd_start_def zero_results_def mt_init_def)
next
  case (step st st')
  then show ?case using zero_results_step by blast
qed

subsection \<open>When every request fails\<close>

text \<open>Parents come before their children, and a loop counter stays in its range.\<close>

definition tree_ok :: "mt_loc proc list \<Rightarrow> bool" where
  "tree_ok ps \<longleftrightarrow> ps \<noteq> [] \<and> (\<forall>q < length ps. case parent (ps ! q) of None \<Rightarrow> q = 0 | Some p \<Rightarrow> p < q) \<and>
     (\<forall>x \<in> set ps. (life x \<noteq> Alive \<longrightarrow> 0 < mt (loc x)) \<and> mi (loc x) \<le> 128 \<and>
        (mpc (loc x) = At_request \<longrightarrow> mi (loc x) < 128))"

text \<open>A process whose child is still in the first round is in the first round itself.\<close>

definition rounds_ok :: "mt_loc proc list \<Rightarrow> bool" where
  "rounds_ok ps \<longleftrightarrow> (\<forall>q < length ps. \<forall>p. parent (ps ! q) = Some p \<longrightarrow> mt (loc (ps ! q)) = 0 \<longrightarrow> mt (loc (ps ! p)) = 0)"

text \<open>The number of processes a process of the first round still stands for.\<close>

definition weight :: "mt_loc \<Rightarrow> nat" where
  "weight l = (if mt l = 0 then (case mpc l of At_fork \<Rightarrow> 2 ^ (128 - mi l) | At_request \<Rightarrow> 2 ^ (127 - mi l) |
     At_wait \<Rightarrow> 1) else 1)"

definition total_weight :: "mt_loc proc list \<Rightarrow> nat" where
  "total_weight ps = sum_list (map (\<lambda>x. weight (loc x)) ps)"

lemma sum_list_update_eq:
  "p < length xs \<Longrightarrow> sum_list (map f (xs[p := y])) + f (xs ! p) = sum_list (map f xs) + (f y :: nat)"
proof (induction xs arbitrary: p)
  case (Cons x xs)
  then show ?case by (cases p) (auto simp: add.commute add.left_commute)
qed simp

lemma total_weight_update:
  "p < length ps \<Longrightarrow> weight (loc x) = weight (loc (ps ! p)) \<Longrightarrow> total_weight (ps[p := x]) = total_weight ps"
  using sum_list_update_eq [of p ps "\<lambda>x. weight (loc x)" x] by (simp add: total_weight_def)

lemma total_weight_wait:
  assumes "wait_call ps p r ps'"
  shows "total_weight ps' = total_weight ps"
  using assms by cases (simp_all add: total_weight_update)

definition bomb :: "mt_loc proc list \<Rightarrow> bool" where
  "bomb ps \<longleftrightarrow> tree_ok ps \<and> rounds_ok ps \<and> 2 ^ 128 \<le> total_weight ps"

text \<open>No process exits before it has done all its rounds, so \<open>wait\<close> reports no child only when all children are past the first round.\<close>

lemma wait_done_rounds:
  assumes "wait_call ps p r ps'" "r \<le> 0" "tree_ok ps"
  shows "ps' = ps \<and> (\<forall>q < length ps. parent (ps ! q) = Some p \<longrightarrow> 0 < mt (loc (ps ! q)))"
  using assms(1)
proof cases
  case (reap q)
  with assms(2) have "q = 0" by simp
  with reap assms(3) show ?thesis unfolding tree_ok_def by (metis less_zeroE option.simps(5))
next
  case no_child
  have "0 < mt (loc (ps ! q))" if "q < length ps" "parent (ps ! q) = Some p" for q
  proof -
    have "life (ps ! q) \<noteq> Alive" using no_child(3) that by auto
    then show ?thesis using assms(3) that(1) unfolding tree_ok_def by (meson nth_mem)
  qed
  with no_child show ?thesis by blast
qed

lemma tree_ok_set_loc:
  assumes "tree_ok ps" "p < length ps" "life (ps ! p) = Alive" "mi l \<le> 128" "mpc l = At_request \<Longrightarrow> mi l < 128"
  shows "tree_ok (set_loc ps p l)"
proof -
  have "(case parent (set_loc ps p l ! q) of None \<Rightarrow> q = 0 | Some r \<Rightarrow> r < q)" if "q < length ps" for q
    using assms(1) that by (auto simp: tree_ok_def nth_procs split: option.splits)
  moreover have "\<forall>x \<in> set (set_loc ps p l). (life x \<noteq> Alive \<longrightarrow> 0 < mt (loc x)) \<and> mi (loc x) \<le> 128 \<and>
        (mpc (loc x) = At_request \<longrightarrow> mi (loc x) < 128)"
    using assms by (intro set_loc_all) (auto simp: tree_ok_def)
  moreover have "set_loc ps p l \<noteq> []" using assms(1) by (auto simp: tree_ok_def set_loc_def)
  ultimately show ?thesis by (simp add: tree_ok_def)
qed

lemma tree_ok_exit:
  assumes "tree_ok ps" "p < length ps" "0 < mt l" "mi l \<le> 128" "mpc l = At_request \<Longrightarrow> mi l < 128"
  shows "tree_ok (exit_proc ps p l)"
proof -
  have "(case parent (exit_proc ps p l ! q) of None \<Rightarrow> q = 0 | Some r \<Rightarrow> r < q)" if "q < length ps" for q
    using assms(1) that by (auto simp: tree_ok_def nth_procs split: option.splits)
  moreover have "\<forall>x \<in> set (exit_proc ps p l). (life x \<noteq> Alive \<longrightarrow> 0 < mt (loc x)) \<and> mi (loc x) \<le> 128 \<and>
        (mpc (loc x) = At_request \<longrightarrow> mi (loc x) < 128)"
    using assms by (intro exit_proc_all) (auto simp: tree_ok_def)
  moreover have "exit_proc ps p l \<noteq> []" using assms(1) by (auto simp: tree_ok_def exit_proc_def)
  ultimately show ?thesis by (simp add: tree_ok_def)
qed

lemma tree_ok_fork:
  assumes "tree_ok ps" "p < length ps" "mi l < 128"
  shows "tree_ok (fork_proc ps p l)"
proof -
  have "(case parent (fork_proc ps p l ! q) of None \<Rightarrow> q = 0 | Some r \<Rightarrow> r < q)" if "q < Suc (length ps)" for q
    using assms(1,2) that by (auto simp: tree_ok_def nth_procs less_Suc_eq split: option.splits)
  moreover have "\<forall>x \<in> set (fork_proc ps p l). (life x \<noteq> Alive \<longrightarrow> 0 < mt (loc x)) \<and> mi (loc x) \<le> 128 \<and>
        (mpc (loc x) = At_request \<longrightarrow> mi (loc x) < 128)"
    using assms by (intro fork_proc_all) (auto simp: tree_ok_def)
  moreover have "fork_proc ps p l \<noteq> []" by (simp add: fork_proc_def)
  ultimately show ?thesis by (simp add: tree_ok_def)
qed

lemma rounds_ok_set_loc:
  assumes "rounds_ok ps" "p < length ps" "mt (loc (ps ! p)) \<le> mt l"
    "mt l = mt (loc (ps ! p)) \<or> (\<forall>q < length ps. parent (ps ! q) = Some p \<longrightarrow> 0 < mt (loc (ps ! q)))"
    "tree_ok ps"
  shows "rounds_ok (set_loc ps p l)"
proof (unfold rounds_ok_def, intro allI impI)
  fix q r
  assume q: "q < length (set_loc ps p l)" "parent (set_loc ps p l ! q) = Some r" "mt (loc (set_loc ps p l ! q)) = 0"
  then have par: "parent (ps ! q) = Some r" "q < length ps" by (auto simp: nth_procs split: if_splits)
  then have r: "r < length ps" using assms(5) by (fastforce simp: tree_ok_def split: option.splits)
  have "mt (loc (ps ! q)) = 0" using q par assms(3) by (auto simp: nth_procs split: if_splits)
  with assms(1,4) par have "mt (loc (ps ! r)) = 0" "r = p \<Longrightarrow> mt l = mt (loc (ps ! p))" by (auto simp: rounds_ok_def)
  then show "mt (loc (set_loc ps p l ! r)) = 0" using r by (auto simp: nth_procs)
qed

lemma rounds_ok_exit:
  assumes "rounds_ok (set_loc ps p l)" "p < length ps"
  shows "rounds_ok (exit_proc ps p l)"
proof -
  have "parent (exit_proc ps p l ! q) = parent (set_loc ps p l ! q) \<and> loc (exit_proc ps p l ! q) = loc (set_loc ps p l ! q)" for q
    using assms(2) by (cases "q = p") (simp_all add: set_loc_def exit_proc_def)
  with assms(1) show ?thesis by (simp add: rounds_ok_def)
qed

lemma rounds_ok_fork:
  assumes "rounds_ok ps" "p < length ps" "mt l = mt (loc (ps ! p))" "tree_ok ps"
  shows "rounds_ok (fork_proc ps p l)"
proof -
  have "r < length ps" if "q < length ps" "parent (ps ! q) = Some r" for q r
    using assms(4) that by (fastforce simp: tree_ok_def split: option.splits)
  with assms(1-3) show ?thesis by (fastforce simp: rounds_ok_def nth_procs less_Suc_eq)
qed

lemma tree_ok_wait:
  assumes "wait_call ps p r ps'" "tree_ok ps"
  shows "tree_ok ps'"
  using assms(1)
proof cases
  case (reap q)
  have "\<forall>x \<in> set ps'. (life x \<noteq> Alive \<longrightarrow> 0 < mt (loc x)) \<and> mi (loc x) \<le> 128 \<and> (mpc (loc x) = At_request \<longrightarrow> mi (loc x) < 128)"
    by (rule wait_call_all [OF assms(1)]) (use assms(2) in \<open>auto simp: tree_ok_def\<close>)
  moreover have "\<forall>q < length ps'. case parent (ps' ! q) of None \<Rightarrow> q = 0 | Some p \<Rightarrow> p < q"
    using wait_call_nth [OF assms(1)] assms(2) by (auto simp: tree_ok_def)
  moreover have "ps' \<noteq> []" using reap by auto
  ultimately show ?thesis unfolding tree_ok_def by blast
qed (use assms in simp)

lemma rounds_ok_wait:
  assumes "wait_call ps p r ps'" "rounds_ok ps" "tree_ok ps"
  shows "rounds_ok ps'"
proof -
  have "r < length ps" if "q < length ps" "parent (ps ! q) = Some r" for q r
    using assms(3) that by (fastforce simp: tree_ok_def split: option.splits)
  with wait_call_nth [OF assms(1)] assms(2) show ?thesis by (auto simp: rounds_ok_def)
qed

lemma bomb_set_loc:
  assumes "bomb ps" "p < length ps" "life (ps ! p) = Alive" "mi l \<le> 128" "mpc l = At_request \<Longrightarrow> mi l < 128"
    "weight l = weight (loc (ps ! p))" "mt (loc (ps ! p)) \<le> mt l"
    "mt l = mt (loc (ps ! p)) \<or> (\<forall>q < length ps. parent (ps ! q) = Some p \<longrightarrow> 0 < mt (loc (ps ! q)))"
  shows "bomb (set_loc ps p l)"
  using assms tree_ok_set_loc [of ps p l] rounds_ok_set_loc [of ps p l]
  by (simp add: bomb_def set_loc_def total_weight_update)

lemma bomb_exit:
  assumes "bomb ps" "p < length ps" "mi l \<le> 128" "mpc l = At_request \<Longrightarrow> mi l < 128"
    "weight l = weight (loc (ps ! p))" "mt (loc (ps ! p)) < mt l"
    "\<forall>q < length ps. parent (ps ! q) = Some p \<longrightarrow> 0 < mt (loc (ps ! q))"
  shows "bomb (exit_proc ps p l)"
  using assms tree_ok_exit [of ps p l] rounds_ok_exit [OF rounds_ok_set_loc [of ps p l]]
  by (simp add: bomb_def exit_proc_def total_weight_update)

lemma bomb_fork:
  assumes "bomb ps" "p < length ps" "life (ps ! p) = Alive" "loc (ps ! p) = l" "mpc l = At_fork" "mi l < 128"
  shows "bomb (fork_proc (set_loc ps p (l\<lparr>mi := mi l + 1\<rparr>)) p (l\<lparr>mpc := At_request, mout := out\<rparr>))"
proof -
  let ?l = "l\<lparr>mi := mi l + 1\<rparr>" and ?c = "l\<lparr>mpc := At_request, mout := out\<rparr>"
  let ?ps = "set_loc ps p ?l"
  have ok: "tree_ok ?ps" "rounds_ok ?ps"
    using assms tree_ok_set_loc [of ps p ?l] rounds_ok_set_loc [of ps p ?l] by (simp_all add: bomb_def)
  have "tree_ok (fork_proc ?ps p ?c)" using ok assms(2,6) by (intro tree_ok_fork) simp_all
  moreover have "rounds_ok (fork_proc ?ps p ?c)" using ok assms(2) by (intro rounds_ok_fork) (simp_all add: nth_procs)
  moreover have "weight ?l + weight ?c \<ge> weight l"
  proof (cases "mt l = 0")
    case True
    have "128 - mi l = Suc (127 - mi l)" using assms(6) by simp
    then show ?thesis using assms(5) True by (simp add: weight_def)
  qed (simp add: weight_def)
  then have "total_weight ps \<le> total_weight (fork_proc ?ps p ?c)"
    using sum_list_update_eq [of p ps "\<lambda>x. weight (loc x)" "(ps ! p)\<lparr>loc := ?l\<rparr>"] assms(2,4)
    by (simp add: total_weight_def fork_proc_def set_loc_def)
  ultimately show ?thesis using assms(1) by (simp add: bomb_def)
qed

lemma bomb_mi: "bomb ps \<Longrightarrow> p < length ps \<Longrightarrow> mi (loc (ps ! p)) \<le> 128 \<and> (mpc (loc (ps ! p)) = At_request \<longrightarrow> mi (loc (ps ! p)) < 128)"
  by (simp add: bomb_def tree_ok_def)

lemma bomb_step:
  assumes "mtssd_step K a st st'" "bomb (snd st)"
    "\<And>l l' d'. mt_request K a l (fst st) \<noteq> (True, l', d')"
  shows "bomb (snd st')"
  using assms
proof (induction rule: mtssd_step.induct)
  case (fork p ps l d)
  then show ?case unfolding snd_conv by (intro bomb_fork) simp_all
next
  case (loop_end p ps l d)
  then have "mi l = 128" using bomb_mi [of ps p] by simp
  with loop_end show ?case unfolding snd_conv by (intro bomb_set_loc) (simp_all add: weight_def)
next
  case (request_err p ps l d l' d')
  then have "mi l < 128" using bomb_mi [of ps p] by simp
  with request_err mt_request_False [OF request_err(5)] show ?case
    unfolding snd_conv by (intro bomb_set_loc) (simp_all add: weight_def)
next
  case (request_ok p ps l d l' d')
  then show ?case by simp
next
  case (wait_again p ps r ps' d)
  then show ?case
    using tree_ok_wait [OF wait_again(4)] rounds_ok_wait [OF wait_again(4)] total_weight_wait [OF wait_again(4)]
    by (simp add: bomb_def)
next
  case (wait_done p ps l r ps' l' d)
  then have "ps' = ps \<and> (\<forall>q < length ps. parent (ps ! q) = Some p \<longrightarrow> 0 < mt (loc (ps ! q)))"
    by (intro wait_done_rounds) (simp_all add: bomb_def)
  with wait_done mt_result_False [OF wait_done(7)] show ?case
    unfolding snd_conv by (auto intro!: bomb_set_loc simp: weight_def)
next
  case (wait_exit p ps l r ps' l' d)
  then have "ps' = ps \<and> (\<forall>q < length ps. parent (ps ! q) = Some p \<longrightarrow> 0 < mt (loc (ps ! q)))"
    by (intro wait_done_rounds) (simp_all add: bomb_def)
  moreover have "mi l \<le> 128" using wait_exit bomb_mi [of ps p] by simp
  ultimately show ?case using wait_exit mt_result_True [OF wait_exit(7)]
    unfolding snd_conv by (auto intro!: bomb_exit simp: weight_def)
qed

lemma bomb_start: "bomb (snd (mtssd_start d))"
  by (simp add: bomb_def tree_ok_def rounds_ok_def total_weight_def weight_def mtssd_start_def mt_init_def)

lemma bomb_length:
  assumes "bomb ps" "0 < mt (loc (ps ! 0))"
  shows "2 ^ 128 \<le> length ps"
proof -
  have "0 < mt (loc (ps ! q))" if "q < length ps" for q
    using that
  proof (induction q rule: less_induct)
    case (less q)
    show ?case
    proof (cases "parent (ps ! q)")
      case None
      then have "q = 0" using less assms(1) by (fastforce simp: bomb_def tree_ok_def)
      with assms(2) show ?thesis by simp
    next
      case (Some r)
      then have "r < q" using less assms(1) by (fastforce simp: bomb_def tree_ok_def)
      then have "0 < mt (loc (ps ! r))" using less by simp
      with Some less assms(1) show ?thesis by (fastforce simp: bomb_def rounds_ok_def)
    qed
  qed
  then have "weight (loc x) = 1" if "x \<in> set ps" for x using that by (fastforce simp: in_set_conv_nth weight_def)
  then have "map (\<lambda>x. weight (loc x)) ps = map (\<lambda>x. 1) ps" by simp
  then have "total_weight ps = length ps" unfolding total_weight_def by (simp only: sum_list_triv) simp
  with assms(1) show ?thesis by (simp add: bomb_def)
qed

context strf_ssd
begin

text \<open>A request of 64 blocks is too short for strfilter.\<close>

lemma mt_request_fails:
  assumes "ok d" "mt_request K a l d = (b, l', d')"
  shows "\<not> b \<and> ok d'"
proof -
  let ?c = "isp_read_cmd a 64 (1024 + of_nat (mi l) * 64)"
  obtain err res buf' e where c: "ioctl_io_cmd K ?c (mdata l) d = (err, res, buf', e)" by (metis prod_cases4)
  have "length (ctx_data (ctx_of (blk d) (page d) (rest ?c) ?c)) = 4096 * 64"
    using length_extent_blk [OF assms(1)] by (simp add: ctx_of_def isp_read_cmd_def nlb_of_def)
  then have "strfilter (ctx_of (blk d) (page d) (rest ?c) ?c) = None" by (intro strfilter_short) simp
  moreover have "opcode ?c = 0x82" by (simp add: isp_read_cmd_def)
  ultimately have "err \<noteq> 0" using isp_read [OF assms(1)] c by fastforce
  with assms(2) c cmd_ok [OF assms(1) c] show ?thesis by (auto simp: mt_request_def)
qed

lemma mtssd_step_ok: "mtssd_step K a st st' \<Longrightarrow> ok (fst st) \<Longrightarrow> ok (fst st')"
  by (erule mtssd_step.cases) (auto dest: mt_request_fails)

lemma bomb_reachable:
  assumes "(mtssd_step K a)\<^sup>*\<^sup>* (mtssd_start d) st" "ok d"
  shows "bomb (snd st) \<and> ok (fst st)"
  using assms(1)
proof (induction rule: rtranclp_induct)
  case base
  show ?case using bomb_start [of d] assms(2) by (simp add: mtssd_start_def)
next
  case (step st st')
  have "mt_request K a l (fst st) \<noteq> (True, l', d')" for l l' d' using mt_request_fails step.IH by blast
  with step mtssd_step_ok show ?case using bomb_step by blast
qed

end

subsection \<open>The processes of pread-local\<close>

abbreviation pl_finished :: event where
  "pl_finished \<equiv> Printf ''---- All processes Finished ----\<newline>'' []"

definition pl_shape :: "pl_loc proc list \<Rightarrow> bool" where
  "pl_shape ps \<longleftrightarrow> ps = [\<lparr>parent = None, life = Alive, loc = pl_init\<rparr>] \<or>
     (\<exists>l. ps = [\<lparr>parent = None, life = Alive, loc = pl_init\<lparr>ppc := Pl_wait\<rparr>\<rparr>, \<lparr>parent = Some 0, life = Alive, loc = l\<rparr>] \<and>
        ppc l \<noteq> Pl_fork \<and> pl_finished \<notin> set (pout l))"

lemma pl_shape_alive: "pl_shape ps \<Longrightarrow> x \<in> set ps \<Longrightarrow> life x = Alive"
  by (auto simp: pl_shape_def)

lemma pl_shape_wait:
  assumes "pl_shape ps" "wait_call ps p r ps'"
  shows "r = - 1 \<and> ps' = ps"
  using assms(2)
proof cases
  case (reap q)
  then show ?thesis using pl_shape_alive [OF assms(1), of "ps ! q"] by simp
qed simp

lemma pl_shape_cases:
  assumes "pl_shape ps" "p < length ps" "ppc (loc (ps ! p)) \<noteq> Pl_fork" "ppc (loc (ps ! p)) \<noteq> Pl_wait"
  obtains l where "ps = [\<lparr>parent = None, life = Alive, loc = pl_init\<lparr>ppc := Pl_wait\<rparr>\<rparr>, \<lparr>parent = Some 0, life = Alive, loc = l\<rparr>]"
    "p = 1" "pl_finished \<notin> set (pout l)"
  using assms by (auto simp: pl_shape_def pl_init_def less_Suc_eq)

lemma pl_shape_step:
  "pread_local_step K st st' \<Longrightarrow> pl_shape (snd st) \<Longrightarrow> pl_shape (snd st')"
proof (induction rule: pread_local_step.induct)
  case (pl_fork p ps l d)
  then have "ps = [\<lparr>parent = None, life = Alive, loc = pl_init\<rparr>]" "p = 0"
    by (auto simp: pl_shape_def less_Suc_eq)
  with pl_fork show ?case by (simp add: pl_shape_def set_loc_def fork_proc_def)
next
  case (pl_return p ps l d)
  then show ?case by (auto simp: pl_shape_def pl_init_def less_Suc_eq)
next
  case (pl_read p ps l k j d l' d')
  then obtain l0 where "ps = [\<lparr>parent = None, life = Alive, loc = pl_init\<lparr>ppc := Pl_wait\<rparr>\<rparr>, \<lparr>parent = Some 0, life = Alive, loc = l0\<rparr>]"
    "p = 1" "pl_finished \<notin> set (pout l0)" by (auto elim!: pl_shape_cases)
  with pl_read show ?case by (auto simp: pl_shape_def set_loc_def pl_read_def Let_def split: prod.splits if_splits)
next
  case (pl_pass p ps l k j d)
  then obtain l0 where "ps = [\<lparr>parent = None, life = Alive, loc = pl_init\<lparr>ppc := Pl_wait\<rparr>\<rparr>, \<lparr>parent = Some 0, life = Alive, loc = l0\<rparr>]"
    "p = 1" "pl_finished \<notin> set (pout l0)" by (auto elim!: pl_shape_cases)
  with pl_pass show ?case by (auto simp: pl_shape_def set_loc_def pl_pass_def Let_def)
next
  case (pl_wait_again p ps r ps' d)
  then show ?case using pl_shape_wait [of ps p r ps'] by simp
next
  case (pl_wait_done p ps l r ps' d)
  then show ?case using pl_shape_wait [of ps p r ps'] by simp
qed

lemma pl_shape_reachable:
  assumes "(pread_local_step K)\<^sup>*\<^sup>* (pread_local_start d) st"
  shows "pl_shape (snd st)"
  using assms
proof (induction rule: rtranclp_induct)
  case base
  show ?case by (simp add: pread_local_start_def pl_shape_def)
next
  case (step st st')
  then show ?case using pl_shape_step by blast
qed

lemma pl_shape_progress:
  assumes "pl_shape ps"
  shows "\<exists>st'. pread_local_step K (d, ps) st'"
proof (cases "length ps = 1")
  case True
  with assms have "ps = [\<lparr>parent = None, life = Alive, loc = pl_init\<rparr>]" by (auto simp: pl_shape_def)
  then show ?thesis using pread_local_step.pl_fork [of 0 ps "pl_init" K d] by (auto simp: pl_init_def)
next
  case False
  with assms obtain l where ps: "ps = [\<lparr>parent = None, life = Alive, loc = pl_init\<lparr>ppc := Pl_wait\<rparr>\<rparr>, \<lparr>parent = Some 0, life = Alive, loc = l\<rparr>]"
    "ppc l \<noteq> Pl_fork" by (auto simp: pl_shape_def)
  show ?thesis
  proof (cases "ppc l")
    case (Pl_read k j)
    obtain l' d' where r: "pl_read K k j l d = (l', d')" by fastforce
    have "pread_local_step K (d, ps) (d', set_loc ps 1 l')" if "j < 2048"
      using that ps r Pl_read by (intro pread_local_step.pl_read [of 1 ps l]) simp_all
    moreover have "pread_local_step K (d, ps) (d, set_loc ps 1 (pl_pass k l))" if "2048 \<le> j"
      using that ps Pl_read by (intro pread_local_step.pl_pass [of 1 ps l]) simp_all
    ultimately show ?thesis by (meson not_le)
  next
    case Pl_wait
    have "wait_call ps 1 (- 1) ps" by (rule wait_call.no_child) (simp add: ps less_Suc_eq)
    then have "pread_local_step K (d, ps) (d, ps)"
      using ps Pl_wait by (intro pread_local_step.pl_wait_again [of 1 ps "- 1"]) simp_all
    then show ?thesis by blast
  qed (use ps in simp)
qed

subsection \<open>A run whose requests all succeed\<close>

definition all_ok_kernel :: "unit kernel" where
  "all_ok_kernel = \<lparr>ioctl_io_cmd = (\<lambda>c buf d. (0, 64, buf, d)), ioctl_submit_io = (\<lambda>u buf d. (0, buf, d)),
     sys_pread = (\<lambda>n off buf d. (of_nat n, buf, d))\<rparr>"

definition ok_root :: "mt_pc \<Rightarrow> nat \<Rightarrow> mt_loc proc" where
  "ok_root c k = \<lparr>parent = None, life = Alive, loc = mt_init\<lparr>mpc := c, mi := k\<rparr>\<rparr>"

definition ok_child :: "nat \<Rightarrow> nat \<Rightarrow> mt_loc proc" where
  "ok_child j i = \<lparr>parent = Some 0, life = (if i < j then Reaped else Zombie),
     loc = mt_init\<lparr>mpc := At_request, mi := i, mout := [], mcnt := 64\<rparr>\<rparr>"

definition ok_state :: "mt_pc \<Rightarrow> nat \<Rightarrow> nat \<Rightarrow> unit \<times> mt_loc proc list" where
  "ok_state c k j = ((), ok_root c k # map (ok_child j) [0..<k])"

lemma ok_state_fork:
  assumes "k < 128"
  shows "(mtssd_step all_ok_kernel a)\<^sup>*\<^sup>* (ok_state At_fork k 0) (ok_state At_fork (Suc k) 0)"
proof -
  let ?ps = "ok_root At_fork k # map (ok_child 0) [0..<k]" and ?l = "mt_init\<lparr>mpc := At_fork, mi := k\<rparr>"
  let ?c = "?l\<lparr>mpc := At_request, mout := []\<rparr>"
  let ?qs = "fork_proc (set_loc ?ps 0 (?l\<lparr>mi := mi ?l + 1\<rparr>)) 0 ?c"
  have qs: "?qs = (ok_root At_fork (Suc k) # map (ok_child 0) [0..<k]) @ [\<lparr>parent = Some 0, life = Alive, loc = ?c\<rparr>]"
    by (simp add: fork_proc_def set_loc_def ok_root_def)
  have "mtssd_step all_ok_kernel a ((), ?ps) ((), ?qs)"
    using assms by (intro mtssd_step.fork) (simp_all add: ok_root_def)
  moreover have "mtssd_step all_ok_kernel a ((), ?qs) ((), exit_proc ?qs (Suc k) (?c\<lparr>mcnt := 64\<rparr>))"
    unfolding qs by (rule mtssd_step.request_ok [where l = ?c])
      (simp_all add: nth_append mt_request_def all_ok_kernel_def mt_init_def)
  moreover have "((), exit_proc ?qs (Suc k) (?c\<lparr>mcnt := 64\<rparr>)) = ok_state At_fork (Suc k) 0"
    unfolding qs by (simp add: exit_proc_def ok_state_def ok_child_def list_update_append nth_append)
  ultimately show ?thesis unfolding ok_state_def [of At_fork k] by (metis converse_rtranclp_into_rtranclp r_into_rtranclp)
qed

lemma ok_state_reap:
  assumes "j < k"
  shows "mtssd_step all_ok_kernel a (ok_state At_wait k j) (ok_state At_wait k (Suc j))"
proof -
  let ?ps = "ok_root At_wait k # map (ok_child j) [0..<k]"
  have "wait_call ?ps 0 (int (Suc j)) (?ps[Suc j := (?ps ! Suc j)\<lparr>life := Reaped\<rparr>])"
    using assms by (intro wait_call.reap) (simp_all add: ok_child_def)
  moreover have "?ps[Suc j := (?ps ! Suc j)\<lparr>life := Reaped\<rparr>] = ok_root At_wait k # map (ok_child (Suc j)) [0..<k]"
    using assms by (intro nth_equalityI) (auto simp: nth_Cons' nth_list_update ok_child_def less_Suc_eq)
  ultimately have "wait_call ?ps 0 (int (Suc j)) (ok_root At_wait k # map (ok_child (Suc j)) [0..<k])" by simp
  then show ?thesis unfolding ok_state_def by (intro mtssd_step.wait_again [where r = "int (Suc j)"]) (simp_all add: ok_root_def)
qed

lemma ok_state_reachable:
  "k \<le> 128 \<Longrightarrow> (mtssd_step all_ok_kernel a)\<^sup>*\<^sup>* (mtssd_start ()) (ok_state At_fork k 0)"
proof (induction k)
  case 0
  have "mtssd_start () = ok_state At_fork 0 0" by (simp add: mtssd_start_def ok_state_def ok_root_def mt_init_def)
  then show ?case by simp
next
  case (Suc k)
  then show ?case using ok_state_fork [of k a] by (metis Suc_leD Suc_le_lessD rtranclp_trans)
qed

lemma ok_state_reaped:
  "j \<le> 128 \<Longrightarrow> (mtssd_step all_ok_kernel a)\<^sup>*\<^sup>* (ok_state At_wait 128 0) (ok_state At_wait 128 j)"
proof (induction j)
  case (Suc j)
  then show ?case using ok_state_reap [of j 128 a] by (simp add: rtranclp.rtrancl_into_rtrancl)
qed simp

lemma ok_result_reachable:
  "\<exists>ps. (mtssd_step all_ok_kernel a)\<^sup>*\<^sup>* (mtssd_start ()) ((), ps) \<and> 0 < length ps \<and>
     (\<exists>args. Printf ''Result: %d\<newline>'' args \<in> set (mout (loc (ps ! 0))))"
proof -
  let ?ps = "ok_root At_wait 128 # map (ok_child 128) [0..<128]" and ?l = "mt_init\<lparr>mpc := At_wait, mi := 128\<rparr>"
  obtain l' where l': "mt_result ?l = (False, l')" by (simp add: mt_result_def mt_init_def)
  have out: "Printf ''Result: %d\<newline>'' [mcnt ?l] \<in> set (mout l')" using l' by (auto simp: mt_result_def Let_def mt_init_def)
  have "set_loc (ok_root At_fork 128 # map (ok_child 0) [0..<128]) 0 (mt_init\<lparr>mpc := At_fork, mi := 128, mpc := At_wait\<rparr>) =
      ok_root At_wait 128 # map (ok_child 0) [0..<128]" by (simp add: set_loc_def ok_root_def mt_init_def)
  then have 1: "mtssd_step all_ok_kernel a (ok_state At_fork 128 0) (ok_state At_wait 128 0)"
    unfolding ok_state_def using mtssd_step.loop_end [of 0 "ok_root At_fork 128 # map (ok_child 0) [0..<128]" "mt_init\<lparr>mpc := At_fork, mi := 128\<rparr>"]
    by (simp add: ok_root_def)
  have "wait_call ?ps 0 (- 1) ?ps" by (rule wait_call.no_child) (auto simp: nth_Cons' ok_root_def ok_child_def)
  then have "mtssd_step all_ok_kernel a (ok_state At_wait 128 128) ((), set_loc ?ps 0 l')"
    unfolding ok_state_def by (rule mtssd_step.wait_done [where l = ?l, rotated 4]) (simp_all add: ok_root_def l')
  then have "(mtssd_step all_ok_kernel a)\<^sup>*\<^sup>* (mtssd_start ()) ((), set_loc ?ps 0 l')"
    using ok_state_reachable [of 128 a] 1 ok_state_reaped [of 128 a] by (meson order_refl rtranclp.rtrancl_into_rtrancl rtranclp_trans)
  then show ?thesis using out by (intro exI [of _ "set_loc ?ps 0 l'"] conjI exI [of _ "[mcnt ?l]"]) (simp_all add: nth_procs)
qed

section \<open>Properties\<close>

text \<open>
  C37: The children of mtssd-pm add their results to a copy of the counter that is lost when they exit:
  on any kernel and any SSD, every result line that any process prints reports the count 0.
\<close>

theorem mtssd_result_always_zero:
  assumes "(mtssd_step K a)\<^sup>*\<^sup>* (mtssd_start d) (d', ps)" "p < length ps"
    "Printf ''Result: %d\<newline>'' args \<in> set (mout (loc (ps ! p)))"
  shows "args = [0]"
  using zero_results_reachable [OF assms(1)] assms(2,3) by (auto simp: zero_results_def)

theorem mtssd_result_always_zero_witness:
  "\<exists>ps. (mtssd_step all_ok_kernel 0)\<^sup>*\<^sup>* (mtssd_start ()) ((), ps) \<and> Printf ''Result: %d\<newline>'' [0] \<in> set (mout (loc (ps ! 0)))"
  using ok_result_reachable [of 0] mtssd_result_always_zero [of all_ok_kernel 0 "()" "()" _ 0] by metis


lemma mtssd_fork_once:
  "mtssd_step K a (mtssd_start d) (d, [\<lparr>parent = None, life = Alive, loc = mt_init\<lparr>mi := 1\<rparr>\<rparr>,
     \<lparr>parent = Some 0, life = Alive, loc = mt_init\<lparr>mpc := At_request, mout := []\<rparr>\<rparr>])"
proof -
  have "mtssd_step K a (d, [\<lparr>parent = None, life = Alive, loc = mt_init\<rparr>])
     (d, fork_proc (set_loc [\<lparr>parent = None, life = Alive, loc = mt_init\<rparr>] 0 (mt_init\<lparr>mi := mi mt_init + 1\<rparr>)) 0
        (mt_init\<lparr>mpc := At_request, mout := []\<rparr>))"
    by (rule mtssd_step.fork) (simp_all add: mt_init_def)
  then show ?thesis by (simp add: mtssd_start_def set_loc_def fork_proc_def) (simp add: mt_init_def)
qed


text \<open>
  C39: pread-local never ends. Its child has no call of \<open>exit\<close> and spins in \<open>while (wait(&status) < 0)\<close>, its
  parent waits for the child: in every state it can reach no process has ended, another step is possible,
  and no process has printed that all are finished.
\<close>

theorem pread_local_never_ends:
  assumes "(pread_local_step K)\<^sup>*\<^sup>* (pread_local_start d) (d', ps)"
  shows "(\<exists>st'. pread_local_step K (d', ps) st') \<and> length ps \<le> 2 \<and>
    list_all (\<lambda>x. life x = Alive \<and> pl_finished \<notin> set (pout (loc x))) ps"
proof -
  have s: "pl_shape ps" using pl_shape_reachable [OF assms] by simp
  then have "length ps \<le> 2 \<and> list_all (\<lambda>x. life x = Alive \<and> pl_finished \<notin> set (pout (loc x))) ps"
    by (auto simp: pl_shape_def pl_init_def)
  with pl_shape_progress [OF s, of K d'] show ?thesis by blast
qed

theorem pread_local_never_ends_witness:
  "\<exists>st'. pread_local_step (ssd_kernel 9216 strfilter) (pread_local_start ones_ssd) st'"
  using pread_local_never_ends [of "ssd_kernel 9216 strfilter" ones_ssd ones_ssd] by (simp add: pread_local_start_def)

end
