(* ===== verification/Rband.thy ===== *)
theory Rband
  imports Pattern_Match
begin

text \<open>
  The programs of \<open>src/rband\<close> that read 1 GB from one process: \<open>ispread.c\<close> lets the SSD filter it with
  2048 requests of 512 KB, \<open>pread.c\<close> reads it four times and then counts on the host. The third
  program, \<open>pread_local.c\<close>, is in theory Process-Trees. Clock readings are left out.
\<close>

section \<open>ispread\<close>

abbreviation (input) rband_blk :: nat where
  "rband_blk \<equiv> 256 * 1024"

text \<open>A failed request ends the program.\<close>

definition ispread_body ::
  "'d kernel \<Rightarrow> u64 \<Rightarrow> nat \<Rightarrow> 'd \<times> (buffer \<times> cint) \<times> event list \<Rightarrow>
   (('d \<times> event list) + 'd \<times> (buffer \<times> cint) \<times> event list) option" where
  "ispread_body K a i st =
     (let (d, (data, cnt), out) = st;
          (err, res, data, d) = ioctl_io_cmd K (isp_read_cmd a 128 (1024 + of_nat i * 128)) data d
      in Some (if err \<noteq> 0 then Inl (d, out @ [Printf ''iteration %d: err %d\<newline>'' [of_nat i, err]])
               else Inr (d, (data, cnt + res), out)))"

definition ispread_main :: "'d kernel \<Rightarrow> u64 \<Rightarrow> 'd \<Rightarrow> ('d \<times> event list) option" where
  "ispread_main K a d = do {
     x \<leftarrow> for_ret (rband_blk div 128) (ispread_body K a) (d, (replicate (4096 * 128) 0, 0), []);
     case x of Inl r \<Rightarrow> Some r
     | Inr (d, (data, cnt), out) \<Rightarrow>
         Some (d, out @ [Printf ''Result: %d\<newline>'' [cnt], Printf ''1GB isp read time : %.2f ms\<newline>'' []]) }"

section \<open>pread\<close>

text \<open>Every read goes to the same buffer; an error is reported and the loop goes on.\<close>

definition rband_read :: "'d kernel \<Rightarrow> nat \<Rightarrow> 'd \<times> buffer \<times> event list \<Rightarrow> 'd \<times> buffer \<times> event list" where
  "rband_read K i st =
     (let (d, data, out) = st;
          off = (1024 + of_nat i * 128) * 4096;
          (err, data, d) = sys_pread K (4096 * 128) off data d
      in (d, data, if err \<noteq> of_nat (4096 * 128)
            then out @ [Printf ''iteration %d: err %d, off 0x%x\<newline>'' [of_nat i, err, off], Printf ''ERROR: %s\<newline>'' []] else out))"

definition rband_round :: "'d kernel \<Rightarrow> 'd \<times> event list \<Rightarrow> ('d \<times> event list) option" where
  "rband_round K st =
     (let (d, out) = st;
          (d, data, out) = for_do (rband_blk div 128) (rband_read K) (d, replicate (4096 * 128) 0, out);
          out = out @ [Printf ''1GB pread time : %.2f ms\<newline>'' []]
      in do {
        cnt \<leftarrow> pm_count (4096 * 128 - 8 + 1) data (Lorem @ replicate 3 0) 4 0;
        Some (d, out @ [Printf ''Result : %d\<newline>'' [cnt]]) })"

definition rband_pread_main :: "'d kernel \<Rightarrow> 'd \<Rightarrow> ('d \<times> event list) option" where
  "rband_pread_main K d = do {
     (d, out) \<leftarrow> for_loop 4 (\<lambda>i. rband_round K) (d, []);
     Some (d, out @ [Printf ''---- Test end ----\<newline>'' [], Printf ''Average time : %.2f ms\<newline>'' []]) }"

section \<open>What they print\<close>

lemma rband_slba:
  assumes "i < 2048"
  shows "unat (1024 + of_nat i * 128 :: cint) = 1024 + i * 128"
    "unat ((1024 + of_nat i * 128) * 4096 :: cint) = 4096 * (1024 + i * 128)"
proof -
  have "(1024 + of_nat i * 128 :: cint) = of_nat (1024 + i * 128)" by simp
  then show "unat (1024 + of_nat i * 128 :: cint) = 1024 + i * 128" using assms by (simp only: unat_of_nat_cint)
  have "((1024 + of_nat i * 128) * 4096 :: cint) = of_nat (4096 * (1024 + i * 128))" by simp
  moreover have "4096 * (1024 + i * 128) < 4294967296" using assms by simp
  ultimately show "unat ((1024 + of_nat i * 128) * 4096 :: cint) = 4096 * (1024 + i * 128)" by (simp only: unat_of_nat_cint)
qed

context strf_ssd
begin

lemma ispread_loop:
  assumes "ok d" "263168 \<le> cap"
  shows "\<exists>st. for_ret 2048 (ispread_body K a) (d, (data, 0), out) = Some (Inr st) \<and> same d (fst st) \<and>
    snd (snd st) = out \<and> snd (fst (snd st)) = of_nat (\<Sum>i<2048. inner_count (pm_chunk (blk d) 128 i))"
proof (rule for_ret_inv [where P = "\<lambda>n st. same d (fst st) \<and> snd (snd st) = out \<and>
    snd (fst (snd st)) = of_nat (\<Sum>i<n. inner_count (pm_chunk (blk d) 128 i))"], goal_cases)
  case 1
  then show ?case using assms(1) by (simp add: same_refl)
next
  case (2 i st)
  then obtain e data1 where st: "st = (e, (data1, of_nat (\<Sum>i<i. inner_count (pm_chunk (blk d) 128 i))), out)" and e: "same d e"
    by (cases st) auto
  have "unat (1024 + of_nat i * 128 :: cint) + 128 \<le> cap" using 2(1) assms(2) by (simp add: rband_slba)
  from strf_request [OF e this, of a data1] obtain buf' e' where
    "ioctl_io_cmd K (isp_read_cmd a 128 (1024 + of_nat i * 128)) data1 e =
      (0, of_nat (inner_count (extent (blk d) (unat (1024 + of_nat i * 128 :: cint)) 128)), buf', e')" "same d e'" .
  then show ?case using 2(1) by (simp add: st ispread_body_def rband_slba pm_chunk_def)
qed

end

definition Lore :: "byte list" where
  "Lore = take 4 Lorem"

text \<open>The positions \<open>pread.c\<close> looks at: all but the last seven, with the first four letters of the word.\<close>

definition lore_count :: "buffer \<Rightarrow> nat" where
  "lore_count c = card {i. i < length c - 7 \<and> matches_at Lore c i}"

lemma Lore_simps: "Lorem @ replicate 3 0 = Lore @ [109, 0, 0, 0]" "length Lore = 4" "0 \<notin> set Lore" "Lore \<noteq> []"
proof -
  have "replicate 3 0 = [0, 0, 0 :: byte]" by (simp add: numeral_3_eq_3)
  then show "Lorem @ replicate 3 0 = Lore @ [109, 0, 0, 0]" by (simp add: Lore_def Lorem_def)
qed (simp_all add: Lore_def Lorem_def)

lemma lore_pm_count:
  assumes "length c = 524288"
  shows "pm_count 524281 c (Lorem @ replicate 3 0) 4 0 = Some (of_nat (lore_count c))"
proof -
  have "pm_count 524281 c (Lore @ [109, 0, 0, 0]) (length Lore) 0 = Some (0 + of_nat (card {i. i < 524281 \<and> matches_at Lore c i}))"
    unfolding pm_count_def
  proof (rule count_loop_eq, rule word_test)
    fix i :: nat
    assume "i < 524281"
    then show "i + length Lore \<le> length c" using assms by (simp add: Lore_simps)
  qed (simp_all add: Lore_simps)
  then show ?thesis unfolding lore_count_def assms by (simp add: Lore_simps)
qed

context reliable_ssd
begin

lemma rband_reads:
  assumes "same d e" "263168 \<le> cap" "n \<le> 2048" "length data = 524288"
  shows "\<exists>e'. for_do n (rband_read K) (e, data, out) = (e', (if n = 0 then data else pm_chunk (blk d) 128 (n - 1)), out) \<and> same d e'"
  using assms(3)
proof (induction n)
  case (Suc n)
  then obtain e1 where e1: "for_do n (rband_read K) (e, data, out) = (e1, (if n = 0 then data else pm_chunk (blk d) 128 (n - 1)), out)" "same d e1"
    by auto
  let ?b = "if n = 0 then data else pm_chunk (blk d) 128 (n - 1)" and ?off = "(1024 + of_nat n * 128) * 4096 :: cint"
  from assms(1) have "ok e" "blk e = blk d" by (simp_all add: same_def)
  then have len: "length (pm_chunk (blk d) 128 i) = 524288" for i
    using length_extent_blk [of e "1024 + i * 128" 128] by (simp add: pm_chunk_def)
  then have b: "4096 * 128 \<le> length ?b" using assms(4) by simp
  have ok: "ok e1" using e1 by (simp add: same_def)
  have off: "unat ?off = 4096 * (1024 + n * 128)" by (rule rband_slba(2)) (use Suc.prems in simp)
  obtain ret buf e2 where r: "sys_pread K (4096 * 128) ?off ?b e1 = (ret, buf, e2)" by (metis prod_cases3)
  have "ret = of_nat (4096 * 128)"
    using pread_succeeds [OF ok off _ b] r Suc.prems assms(2) by simp
  moreover from this have "buf = extent (blk e1) (1024 + n * 128) 128 @ drop (4096 * 128) ?b"
    using pread_read [OF ok r _ off b] by simp
  moreover have "drop (4096 * 128) ?b = []" using len assms(4) by simp
  moreover have "same d e2" using pread_frame [OF ok r] e1 by (simp add: same_def)
  moreover have "blk e1 = blk d" using e1 by (simp add: same_def)
  ultimately have "rband_read K n (e1, ?b, out) = (e2, pm_chunk (blk d) 128 n, out)" "same d e2"
    using r by (simp_all add: rband_read_def pm_chunk_def)
  with e1 show ?case by simp
qed (use assms(1) in simp)

lemma rband_round_run:
  assumes "same d e" "263168 \<le> cap"
  shows "\<exists>e'. rband_round K (e, out) = Some (e', out @ [Printf ''1GB pread time : %.2f ms\<newline>'' [],
    Printf ''Result : %d\<newline>'' [of_nat (lore_count (pm_chunk (blk d) 128 2047))]]) \<and> same d e'"
proof -
  obtain e' where r: "for_do 2048 (rband_read K) (e, replicate 524288 0, out) = (e', pm_chunk (blk d) 128 2047, out)" "same d e'"
    using rband_reads [OF assms, of 2048 "replicate 524288 0" out] by auto
  from assms(1) have "ok e" "blk e = blk d" by (simp_all add: same_def)
  then have "length (pm_chunk (blk d) 128 2047) = 524288"
    using length_extent_blk [of e "1024 + 2047 * 128" 128] by (simp add: pm_chunk_def)
  from lore_pm_count [OF this] r show ?thesis by (simp add: rband_round_def)
qed

end

section \<open>Properties\<close>

text \<open>
  On an SSD with strfilter inserted that holds the 1 GB, ispread runs to its end and prints the sum of what strfilter
  finds in each of the 2048 chunks of 512 KB.
\<close>

lemma ispread_count:
  assumes "strf_ssd K ok blk page rest cap" "ok d" "263168 \<le> cap"
  shows "\<exists>e. ispread_main K a d = Some (e, [Printf ''Result: %d\<newline>'' [of_nat (\<Sum>i<2048. inner_count (pm_chunk (blk d) 128 i))],
    Printf ''1GB isp read time : %.2f ms\<newline>'' []]) \<and> blk e = blk d"
proof -
  have ssd: "isp_ssd K ok blk page strfilter rest"
    using assms(1) by (simp add: strf_ssd_def text_ssd_def reliable_ssd_def)
  have n: "rband_blk div 128 = (2048 :: nat)" by simp
  obtain st where r: "for_ret 2048 (ispread_body K a) (d, (replicate (4096 * 128) 0, 0), []) = Some (Inr st)"
    and st: "isp_ssd.same ok blk page d (fst st)" "snd (snd st) = []"
      "snd (fst (snd st)) = of_nat (\<Sum>i<2048. inner_count (pm_chunk (blk d) 128 i))"
    using strf_ssd.ispread_loop [OF assms, of a "replicate (4096 * 128) 0" "[]"] by blast
  obtain e data c out where e: "st = (e, (data, c), out)" by (metis prod.exhaust)
  have "blk e = blk d" using st(1) by (simp add: isp_ssd.same_def [OF ssd] e)
  then show ?thesis unfolding ispread_main_def n r using st(2,3) by (simp add: e del: of_nat_sum)
qed

text \<open>
  pread counts only the chunk it read last, and compares only four letters. On an SSD that holds the 1 GB, each of
  the four results it prints is the number of places of the last 512 KB, but for the last seven, that begin with Lore;
  the other 2047 chunks do not matter.
\<close>

lemma rband_pread_counts_last_chunk:
  assumes "reliable_ssd K ok blk page prog rest cap" "ok d" "263168 \<le> cap"
  shows "\<exists>e. rband_pread_main K d = Some (e, concat (replicate 4 [Printf ''1GB pread time : %.2f ms\<newline>'' [],
    Printf ''Result : %d\<newline>'' [of_nat (lore_count (pm_chunk (blk d) 128 2047))]]) @
    [Printf ''---- Test end ----\<newline>'' [], Printf ''Average time : %.2f ms\<newline>'' []])"
proof -
  define L where "L = [Printf ''1GB pread time : %.2f ms\<newline>'' [],
    Printf ''Result : %d\<newline>'' [of_nat (lore_count (pm_chunk (blk d) 128 2047))]]"
  have ssd: "isp_ssd K ok blk page prog rest" using assms(1) by (simp add: reliable_ssd_def)
  have "\<exists>e. for_loop n (\<lambda>i. rband_round K) (d, []) = Some (e, concat (replicate n L)) \<and> isp_ssd.same ok blk page d e" for n
  proof (induction n)
    case 0
    show ?case using isp_ssd.same_refl [OF ssd assms(2)] by simp
  next
    case (Suc n)
    then obtain e where e: "for_loop n (\<lambda>i. rband_round K) (d, []) = Some (e, concat (replicate n L))" "isp_ssd.same ok blk page d e" by blast
    from reliable_ssd.rband_round_run [OF assms(1) e(2) assms(3), of "concat (replicate n L)"] obtain e' where
      "rband_round K (e, concat (replicate n L)) = Some (e', concat (replicate n L) @ L)" "isp_ssd.same ok blk page d e'"
      unfolding L_def by blast
    with e(1) show ?case unfolding concat_replicate_Suc by simp
  qed
  from this [of 4] show ?thesis unfolding rband_pread_main_def L_def by auto
qed

end
