(* ===== verification/Unvme_Driver.thy ===== *)
theory Unvme_Driver
  imports Reference_Ssd "HOL-Library.Signed_Division"
begin

text \<open>
  The embedding-table driver \<open>src/MyDriver-fixed.32/unvme_embed_lib.c\<close> with the clock functions of
  \<open>rdtsc.h\<close>: tables of integer vectors are written to the SSD, single vectors are read back, and
  sums of vectors are accumulated in the SSD by the eBPF program \<open>embedding32.c\<close>.

  Its global state is a record: the device, whether \<open>fd\<close> is an open file, the page
  \<open>fromPageAlloc\<close>, the position in the sequence \<open>tsc\<close> of time stamps the processor delivers, the cached
  tick rate, and the printed lines. The content of a fresh allocation is an argument. An operation
  is \<open>None\<close> when it accesses memory outside an allocation, divides by zero, or does not return.
\<close>

section \<open>C integers\<close>

text \<open>Division and remainder of \<open>int\<close> truncate; a zero divisor traps.\<close>

definition cdiv :: "cint \<Rightarrow> cint \<Rightarrow> cint option" where
  "cdiv x y = (if y = 0 then None else Some (word_of_int (sint x sdiv sint y)))"

definition cmod :: "cint \<Rightarrow> cint \<Rightarrow> cint option" where
  "cmod x y = (if y = 0 then None else Some (word_of_int (sint x smod sint y)))"

section \<open>rdtsc.h\<close>

record 'd unvme =
  dev :: 'd
  fd_open :: bool
  fromPageAlloc :: buffer
  tsc_pos :: nat
  tsc_ps :: u64
  printed :: "event list"

definition rdtsc :: "(nat \<Rightarrow> u64) \<Rightarrow> 'd unvme \<Rightarrow> u64 \<times> 'd unvme" where
  "rdtsc tsc st = (tsc (tsc_pos st), st\<lparr>tsc_pos := tsc_pos st + 1\<rparr>)"

text \<open>The loop of \<open>rdtsc_elapse\<close> from the position \<open>k\<close> of the time stamps on.\<close>

partial_function (option) elapse_loop :: "(nat \<Rightarrow> u64) \<Rightarrow> u64 \<Rightarrow> nat \<Rightarrow> (u64 \<times> nat) option" where
  "elapse_loop tsc start k =
     (let et = tsc k - start in if sint et \<le> 0 then elapse_loop tsc start (k + 1) else Some (et, k + 1))"

definition rdtsc_elapse :: "(nat \<Rightarrow> u64) \<Rightarrow> u64 \<Rightarrow> 'd unvme \<Rightarrow> (u64 \<times> 'd unvme) option" where
  "rdtsc_elapse tsc start st = do {
     (et, k) \<leftarrow> elapse_loop tsc start (tsc_pos st);
     Some (et, st\<lparr>tsc_pos := k\<rparr>) }"

definition rdtsc_second :: "(nat \<Rightarrow> u64) \<Rightarrow> 'd unvme \<Rightarrow> u64 \<times> 'd unvme" where
  "rdtsc_second tsc st =
     (if tsc_ps st = 0 then
        let (t0, st) = rdtsc tsc st;
            (t1, st) = rdtsc tsc st;
            st = st\<lparr>tsc_ps := (t1 - t0) * 100\<rparr>
        in (tsc_ps st, st)
      else (tsc_ps st, st))"

section \<open>Opening, closing, statistics\<close>

abbreviation (input) base_slba :: cint where
  "base_slba \<equiv> 1024"

abbreviation (input) table_stride :: cint where
  "table_stride \<equiv> 250000"

text \<open>Calls on a descriptor that is not open fail.\<close>

definition drv_io_cmd ::
  "'d kernel \<Rightarrow> nvme_passthru_cmd \<Rightarrow> buffer \<Rightarrow> 'd unvme \<Rightarrow> cint \<times> buffer \<times> 'd unvme" where
  "drv_io_cmd K c buf st =
     (if fd_open st then
        let (err, res, buf, d) = ioctl_io_cmd K c buf (dev st) in (err, buf, st\<lparr>dev := d\<rparr>)
      else (-1, buf, st))"

definition drv_submit_io ::
  "'d kernel \<Rightarrow> nvme_user_io \<Rightarrow> buffer \<Rightarrow> 'd unvme \<Rightarrow> cint \<times> buffer \<times> 'd unvme" where
  "drv_submit_io K u buf st =
     (if fd_open st then
        let (err, buf, d) = ioctl_submit_io K u buf (dev st) in (err, buf, st\<lparr>dev := d\<rparr>)
      else (-1, buf, st))"

definition emit :: "event list \<Rightarrow> 'd unvme \<Rightarrow> 'd unvme" where
  "emit es st = st\<lparr>printed := printed st @ es\<rparr>"

definition open_unvme :: "bool \<Rightarrow> buffer \<Rightarrow> 'd unvme \<Rightarrow> 'd unvme" where
  "open_unvme opened page st =
     emit [Printf ''Hello, world!\<newline>'' []] (st\<lparr>fd_open := opened, fromPageAlloc := page\<rparr>)"

definition close_unvme :: "'d unvme \<Rightarrow> 'd unvme" where
  "close_unvme st = emit [Printf ''Bye, world...\<newline>'' []] (st\<lparr>fd_open := False\<rparr>)"

definition flush_unvme :: "'d unvme \<Rightarrow> 'd unvme" where
  "flush_unvme st = st"

definition isp_stats_unvme :: "'d kernel \<Rightarrow> 'd unvme \<Rightarrow> 'd unvme" where
  "isp_stats_unvme K st = snd (snd (drv_io_cmd K cmd_stats [] st))"

definition isp_stats_clear_unvme :: "'d kernel \<Rightarrow> 'd unvme \<Rightarrow> 'd unvme" where
  "isp_stats_clear_unvme K st = snd (snd (drv_io_cmd K cmd_stats_clear [] st))"

section \<open>Writing a table\<close>

text \<open>\<open>for (i = 0; i < n; i++) *bufp++ = *tablep++;\<close>\<close>

definition copy_ints :: "nat \<Rightarrow> buffer \<Rightarrow> buffer \<Rightarrow> buffer option" where
  "copy_ints n table buf = for_loop n (\<lambda>i buf. do { v \<leftarrow> ld32 table i; st32 buf i v }) buf"

text \<open>\<open>memcpy(page_buf, buf + off, 4096)\<close> into a buffer of 4096 bytes.\<close>

definition memcpy_page :: "buffer \<Rightarrow> nat \<Rightarrow> buffer option" where
  "memcpy_page buf off = (if off + 4096 \<le> length buf then Some (take 4096 (drop off buf)) else None)"

definition page_io :: "byte \<Rightarrow> u64 \<Rightarrow> u64 \<Rightarrow> nvme_user_io" where
  "page_io opc a s = \<lparr>io_opcode = opc, io_flags = 0, control = 0, nblocks = 0, rsvd = 0,
     io_metadata = 0, io_addr = a, io_slba = s, dsmgmt = 0, reftag = 0, appmask = 0, apptag = 0\<rparr>"

definition write_table_body ::
  "'d kernel \<Rightarrow> u64 \<Rightarrow> buffer \<Rightarrow> cint \<Rightarrow> nat \<Rightarrow> 'd unvme \<Rightarrow> ('d unvme) option" where
  "write_table_body K a buf table_id i st = do {
     page_buf \<leftarrow> memcpy_page buf (i * PGSIZE);
     let (err, page_buf, st) =
           drv_submit_io K (page_io 0x01 a (scast (base_slba + table_id * table_stride + of_nat i))) page_buf st
     in Some (emit (if err \<noteq> 0 then [Printf ''write_table %d err : %d\<newline>'' [table_id, err]] else []) st) }"

text \<open>\<open>mem\<close> is the content of the allocation for \<open>buf\<close>; the allocation has the size the code asks for.\<close>

definition table_alloc :: "cint \<Rightarrow> cint \<Rightarrow> nat" where
  "table_alloc vector_length table_length = unat (4 * scast vector_length * scast table_length + 4 :: u64)"

definition unvme_write_table ::
  "'d kernel \<Rightarrow> u64 \<Rightarrow> buffer \<Rightarrow> buffer \<Rightarrow> cint \<Rightarrow> cint \<Rightarrow> cint \<Rightarrow> 'd unvme \<Rightarrow> ('d unvme) option" where
  "unvme_write_table K a mem table vector_length table_length table_id st = do {
     buf \<leftarrow> copy_ints (nat (sint (vector_length * table_length))) table
              (take (table_alloc vector_length table_length) mem);
     pages \<leftarrow> cdiv (4 * vector_length * table_length) 4096;
     for_loop (nat (sint pages)) (write_table_body K a buf table_id)
       (emit [Printf ''vector_length: %d / table_length: %d\<newline>'' [vector_length, table_length]] st) }"

section \<open>Sums in the SSD\<close>

definition sls_cmd :: "cint \<Rightarrow> cint \<Rightarrow> cint \<Rightarrow> cint \<Rightarrow> nvme_passthru_cmd" where
  "sls_cmd res_id emb_id slba_is qid = \<lparr>opcode = 0x82, flags = 0, rsvd1 = 0, nsid = 1, cdw2 = res_id, cdw3 = emb_id,
     metadata = 0, addr = 0, metadata_len = 0, data_len = 4096, cdw10 = slba_is,
     cdw11 = 0, cdw12 = 0, cdw13 = 0, cdw14 = 0, cdw15 = qid, timeout_ms = 0, result = -1\<rparr>"

definition cmd_page_read :: "u64 \<Rightarrow> cint \<Rightarrow> nvme_passthru_cmd" where
  "cmd_page_read map_page qid = \<lparr>opcode = 0x84, flags = 0, rsvd1 = 0, nsid = 1, cdw2 = 0, cdw3 = 0,
     metadata = 0, addr = map_page, metadata_len = 0, data_len = 4096, cdw10 = 0,
     cdw11 = 0, cdw12 = 0, cdw13 = 0, cdw14 = 0, cdw15 = qid, timeout_ms = 0, result = -1\<rparr>"

definition cmd_clear :: "cint \<Rightarrow> nvme_passthru_cmd" where
  "cmd_clear qid = \<lparr>opcode = 0x85, flags = 0, rsvd1 = 0, nsid = 1, cdw2 = 0, cdw3 = 0,
     metadata = 0, addr = 0, metadata_len = 0, data_len = 0, cdw10 = 0,
     cdw11 = 0, cdw12 = 0, cdw13 = 0, cdw14 = 0, cdw15 = qid, timeout_ms = 0, result = -1\<rparr>"

definition sls_body ::
  "'d kernel \<Rightarrow> buffer \<Rightarrow> cint \<Rightarrow> cint \<Rightarrow> cint \<Rightarrow> nat \<Rightarrow> 'd unvme \<Rightarrow> ('d unvme) option" where
  "sls_body K flatInd vector_length table_id qid i st =
     (let attribute_size = 4 in do {
        res_id \<leftarrow> ld32 flatInd (i * 2);
        emb_id \<leftarrow> ld32 flatInd (i * 2 + 1);
        blk_off \<leftarrow> cdiv (attribute_size * vector_length * emb_id) 4096;
        let (err, buf, st) = drv_io_cmd K (sls_cmd res_id emb_id (base_slba + table_id * table_stride + blk_off) qid) [] st;
            st = emit (if err \<noteq> 0 then [Printf ''ISP request err : %d\<newline>'' [err]] else []) st
        in do {
          slots \<leftarrow> cdiv 4096 (vector_length * attribute_size);
          Some (emit (if sint slots \<le> sint res_id
            then [Printf ''WARNING: access beyond range: %d\<newline>'' [res_id]] else []) st) } })"

definition sls_requests ::
  "'d kernel \<Rightarrow> buffer \<Rightarrow> cint \<Rightarrow> cint \<Rightarrow> cint \<Rightarrow> cint \<Rightarrow> 'd unvme \<Rightarrow> ('d unvme) option" where
  "sls_requests K flatInd vector_length table_id qid input_embeddings st =
     for_loop (nat (sint input_embeddings)) (sls_body K flatInd vector_length table_id qid) st"

text \<open>
  The map page is read into a page that is freed at the end. What the operation returns is the
  allocation \<open>convert_float\<close>, with the content \<open>mem\<close> that \<open>malloc\<close> gave it.
\<close>

definition sls_buffersize :: "cint \<Rightarrow> cint \<Rightarrow> cint \<Rightarrow> cint" where
  "sls_buffersize vector_length batchsize input_embeddings =
     (if sint (4 * vector_length * batchsize) > sint (4 * 2 * input_embeddings + 20)
      then 4 * vector_length * batchsize else 4 * 2 * input_embeddings + 20)"

definition unvme_sparse_length_sum ::
  "'d kernel \<Rightarrow> (nat \<Rightarrow> u64) \<Rightarrow> u64 \<Rightarrow> buffer \<Rightarrow> buffer \<Rightarrow> buffer \<Rightarrow> cint \<Rightarrow> cint \<Rightarrow> cint \<Rightarrow> cint \<Rightarrow> cint \<Rightarrow> cint \<Rightarrow>
   'd unvme \<Rightarrow> (buffer \<times> buffer \<times> 'd unvme) option" where
  "unvme_sparse_length_sum K tsc a page mem flatInd vector_length batchsize embed_per_result table_id qid
     input_embeddings st =
     (let convert_float = take (unat (scast (sls_buffersize vector_length batchsize input_embeddings) + 4 :: u64)) mem;
          (tstart, st) = rdtsc tsc st
      in do {
        st \<leftarrow> sls_requests K flatInd vector_length table_id qid input_embeddings st;
        let (err, map_page, st) = drv_io_cmd K (cmd_page_read a qid) page st;
            st = emit (if err \<noteq> 0 then [Printf ''Page read err : %d\<newline>'' [err]] else []) st;
            (err, buf, st) = drv_io_cmd K (cmd_clear qid) [] st;
            st = emit (if err \<noteq> 0 then [Printf ''Clear err : %d\<newline>'' [err]] else []) st
        in do {
          (telapse, st) \<leftarrow> rdtsc_elapse tsc tstart st;
          Some (convert_float, map_page, st) } })"

section \<open>Reading one embedding\<close>

text \<open>
  The result is the offset of the embedding in \<open>fromPageAlloc\<close>. \<open>quot\<close> gives the bits of the float
  \<open>(float) telapse / (float) rdtsc_second()\<close>, which is stored behind the embedding. A negative index
  makes the code compute a pointer before the page, which is \<open>None\<close> like an access there.
\<close>

definition unvme_read_embedding ::
  "'d kernel \<Rightarrow> (nat \<Rightarrow> u64) \<Rightarrow> (u64 \<Rightarrow> u64 \<Rightarrow> cint) \<Rightarrow> u64 \<Rightarrow> cint \<Rightarrow> cint \<Rightarrow> cint \<Rightarrow> cint \<Rightarrow>
   'd unvme \<Rightarrow> (nat \<times> 'd unvme) option" where
  "unvme_read_embedding K tsc quot a embedidx vector_length table_id qid st =
     (let attribute_size = 4 in do {
        slots \<leftarrow> cdiv 4096 (attribute_size * vector_length);
        slot \<leftarrow> cmod embedidx slots;
        let embedding = slot * (attribute_size * vector_length)
        in do {
          blk_off \<leftarrow> cdiv (attribute_size * vector_length * embedidx) 4096;
          let (tstart, st) = rdtsc tsc st;
              (err, page, st) = drv_submit_io K
                (page_io 0x02 a (scast (base_slba + table_id * table_stride + blk_off))) (fromPageAlloc st) st;
              st = emit (if err \<noteq> 0 then [Printf ''read_embedding err : %d\<newline>'' [err]] else [])
                     (st\<lparr>fromPageAlloc := page\<rparr>)
          in do {
            (telapse, st) \<leftarrow> rdtsc_elapse tsc tstart st;
            let (sec, st) = rdtsc_second tsc st in
            if 0 \<le> sint embedding then do {
              page \<leftarrow> st32 (fromPageAlloc st) (nat (sint embedding) div 4 + unat vector_length) (quot telapse sec);
              Some (nat (sint embedding), st\<lparr>fromPageAlloc := page\<rparr>) }
            else None } } })"

section \<open>Arithmetic on small numbers\<close>

lemma sint_of_nat_cint: "n < 2147483648 \<Longrightarrow> sint (of_nat n :: cint) = int n"
  using sint_cint [of "of_nat n"] by (simp add: unat_of_nat_cint)

lemma cdiv_of_nat:
  assumes "m < 2147483648" "n < 2147483648" "0 < n"
  shows "cdiv (of_nat m) (of_nat n) = Some (of_nat (m div n))"
proof -
  have "(of_nat n :: cint) \<noteq> 0" using assms(2,3) unat_of_nat_cint [of n] by auto
  moreover have "int m sdiv int n = int (m div n)" by (simp add: signed_divide_int_def zdiv_int sgn_if)
  ultimately show ?thesis using assms by (simp add: cdiv_def sint_of_nat_cint)
qed

lemma cmod_of_nat:
  assumes "m < 2147483648" "n < 2147483648" "0 < n"
  shows "cmod (of_nat m) (of_nat n) = Some (of_nat (m mod n))"
proof -
  have "(of_nat n :: cint) \<noteq> 0" using assms(2,3) unat_of_nat_cint [of n] by auto
  moreover have "int m smod int n = int (m mod n)"
    by (simp add: signed_modulo_int_def signed_divide_int_def zmod_int zdiv_int sgn_if flip: minus_div_mult_eq_mod)
  ultimately show ?thesis using assms by (simp add: cmod_def sint_of_nat_cint)
qed

lemma scast_of_nat: "n < 2147483648 \<Longrightarrow> scast (of_nat n :: cint) = (of_nat n :: u64)"
  by (metis of_int_of_nat_eq of_int_sint sint_of_nat_cint)

section \<open>The clock\<close>

lemma elapse_loop_Some:
  assumes "0 < sint (tsc k - start)" "j \<le> k"
  shows "\<exists>et k'. elapse_loop tsc start j = Some (et, k') \<and> 0 < sint et"
  using assms(2)
proof (induction "k - j" arbitrary: j)
  case 0
  with assms(1) show ?case by (subst elapse_loop.simps) (simp add: Let_def)
next
  case (Suc n)
  then show ?case
  proof (cases "sint (tsc j - start) \<le> 0")
    case True
    moreover from Suc have "\<exists>et k'. elapse_loop tsc start (j + 1) = Some (et, k') \<and> 0 < sint et" by simp
    ultimately show ?thesis by (subst elapse_loop.simps) (simp add: Let_def)
  next
    case False
    then show ?thesis by (subst elapse_loop.simps) (simp add: Let_def)
  qed
qed

lemma elapse_loop_result:
  assumes "elapse_loop tsc start j = Some (et, k')"
  shows "\<exists>k\<ge>j. k' = k + 1 \<and> et = tsc k - start \<and> 0 < sint et"
  using elapse_loop.raw_induct [where P = "\<lambda>tsc start j r. \<exists>k\<ge>j. snd r = k + 1 \<and> fst r = tsc k - start \<and> 0 < sint (fst r)", OF _ assms]
  by (force simp: Let_def split: if_splits)

section \<open>Writing a table\<close>

lemma int_at_bytes: "4 * i + 4 \<le> length bs \<Longrightarrow> bytes_of_int (int_at bs i) = take 4 (drop (4 * i) bs)"
  unfolding int_at_def bytes_of_int_int_of_bytes
  by (rule nth_equalityI) (auto simp: eval_nat_numeral less_Suc_eq)

lemma copy_ints_eq:
  assumes "4 * n \<le> length table" "4 * n \<le> length buf"
  shows "copy_ints n table buf = Some (take (4 * n) table @ drop (4 * n) buf)"
  using assms
proof (induction n)
  case 0
  show ?case by (simp add: copy_ints_def)
next
  case (Suc n)
  let ?b = "take (4 * n) table @ drop (4 * n) buf"
  have "st32 ?b n (int_at table n) = Some (take (4 * n) table @ take 4 (drop (4 * n) table) @ drop (4 * Suc n) buf)"
    using Suc.prems by (simp add: st32_def int_at_bytes add.commute)
  moreover have "take (4 * n) table @ take 4 (drop (4 * n) table) = take (4 * Suc n) table"
    by (simp add: take_add [symmetric] add.commute)
  moreover have "for_loop n (\<lambda>i buf. do { v \<leftarrow> ld32 table i; st32 buf i v }) buf = Some ?b"
    using Suc by (simp add: copy_ints_def)
  ultimately show ?case using Suc.prems by (simp add: copy_ints_def ld32_def)
qed

lemma page_io_simps:
  "io_opcode (page_io opc a s) = opc" "unat (nblocks (page_io opc a s)) = 0" "io_slba (page_io opc a s) = s"
  by (simp_all add: page_io_def)

text \<open>The first block of a table.\<close>

definition table_base :: "nat \<Rightarrow> nat" where
  "table_base tid = 1024 + tid * 250000"

lemma table_slba:
  assumes "table_base tid + i < 2147483648"
  shows "unat (scast (base_slba + of_nat tid * table_stride + of_nat i) :: u64) = table_base tid + i"
    and "unat (base_slba + of_nat tid * table_stride + of_nat i) = table_base tid + i"
proof -
  have e: "base_slba + of_nat tid * table_stride + of_nat i = (of_nat (table_base tid + i) :: cint)"
    by (simp add: table_base_def)
  from assms show "unat (scast (base_slba + of_nat tid * table_stride + of_nat i) :: u64) = table_base tid + i"
    unfolding e by (simp only: scast_of_nat unat_of_nat_u64)
  from assms show "unat (base_slba + of_nat tid * table_stride + of_nat i) = table_base tid + i"
    unfolding e by (simp only: unat_of_nat_cint)
qed

lemma write_blocks_Suc:
  "write_blocks (write_blocks f s n buf) (s + n) 1 (take 4096 (drop (4096 * n) buf)) = write_blocks f s (Suc n) buf"
proof
  fix b
  show "write_blocks (write_blocks f s n buf) (s + n) 1 (take 4096 (drop (4096 * n) buf)) b = write_blocks f s (Suc n) buf b"
    by (cases "b = s + n") (auto simp: write_blocks_def)
qed

lemma write_blocks_prefix:
  assumes "4096 * n \<le> length table"
  shows "write_blocks f s n (table @ xs) = write_blocks f s n table"
proof
  fix b
  have "4096 * (b - s) + 4096 \<le> length table" if "s \<le> b" "b < s + n"
  proof -
    from that have "Suc (b - s) \<le> n" by linarith
    then have "4096 * Suc (b - s) \<le> 4096 * n" by (rule mult_le_mono2)
    with assms show ?thesis by simp
  qed
  then show "write_blocks f s n (table @ xs) b = write_blocks f s n table b"
    by (auto simp: write_blocks_def)
qed

context reliable_ssd
begin

lemma write_table_body_run:
  assumes "ok (dev st)" "fd_open st" "table_base tid + i < cap" "cap \<le> 2147483648" "i * 4096 + 4096 \<le> length buf"
  obtains e where "write_table_body K a buf (of_nat tid) i st = Some (st\<lparr>dev := e\<rparr>)" "ok e" "page e = page (dev st)"
    "blk e = write_blocks (blk (dev st)) (table_base tid + i) 1 (take 4096 (drop (4096 * i) buf))"
proof -
  let ?u = "page_io 0x01 a (scast (base_slba + of_nat tid * table_stride + of_nat i))"
  let ?pg = "take 4096 (drop (i * 4096) buf)"
  have s: "unat (io_slba ?u) = table_base tid + i" using assms(3,4) by (simp add: page_io_simps table_slba)
  have c: "unat (io_slba ?u) + unat (nblocks ?u) + 1 \<le> cap" "length ?pg = 4096 * (unat (nblocks ?u) + 1)"
    using assms(3,5) unfolding s by (simp_all add: page_io_simps)
  from io_write_run [OF assms(1) page_io_simps(1) c] obtain e where
    e: "ioctl_submit_io K ?u ?pg (dev st) = (0, ?pg, e)" "ok e" "page e = page (dev st)"
      "blk e = write_blocks (blk (dev st)) (table_base tid + i) 1 ?pg"
    unfolding s by (auto simp: page_io_simps)
  have "write_table_body K a buf (of_nat tid) i st = Some (st\<lparr>dev := e\<rparr>)"
    using assms(2,5) e(1) by (simp add: write_table_body_def memcpy_page_def drv_submit_io_def emit_def)
  with e that [of e] show thesis by (simp add: mult.commute)
qed

lemma write_pages_run:
  assumes "ok (dev st)" "fd_open st" "table_base tid + n \<le> cap" "cap \<le> 2147483648" "n * 4096 \<le> length buf"
  shows "\<exists>e. for_loop n (write_table_body K a buf (of_nat tid)) st = Some (st\<lparr>dev := e\<rparr>) \<and> ok e \<and>
    page e = page (dev st) \<and> blk e = write_blocks (blk (dev st)) (table_base tid) n buf"
  using assms(3,5)
proof (induction n)
  case 0
  have "write_blocks f s 0 buf = f" for f s by (auto simp: write_blocks_def fun_eq_iff)
  then show ?case using assms(1) by (intro exI [of _ "dev st"]) simp
next
  case (Suc n)
  then obtain e where e: "for_loop n (write_table_body K a buf (of_nat tid)) st = Some (st\<lparr>dev := e\<rparr>)" "ok e"
    "page e = page (dev st)" "blk e = write_blocks (blk (dev st)) (table_base tid) n buf" by auto
  have i: "table_base tid + n < cap" "n * 4096 + 4096 \<le> length buf" using Suc.prems by simp_all
  from write_table_body_run [of "st\<lparr>dev := e\<rparr>", OF _ _ i(1) assms(4) i(2)] e(2) assms(2) obtain e' where
    "write_table_body K a buf (of_nat tid) n (st\<lparr>dev := e\<rparr>) = Some (st\<lparr>dev := e'\<rparr>)" "ok e'" "page e' = page e"
    "blk e' = write_blocks (blk e) (table_base tid + n) 1 (take 4096 (drop (4096 * n) buf))" by auto
  with e show ?case
    by (intro exI [of _ e']) (simp only: for_loop.simps Option.bind.simps write_blocks_Suc simp_thms)
qed

lemma write_table_run:
  assumes "ok (dev st)" "fd_open st" "cap \<le> 2147483648" "length table = 4 * vl * rows" "4 * vl * rows < 2147483648"
    and "0 < vl" "0 < rows" "4 * vl * rows + 4 \<le> length mem" "table_base tid + 4 * vl * rows div 4096 \<le> cap"
  shows "\<exists>e. unvme_write_table K a mem table (of_nat vl) (of_nat rows) (of_nat tid) st =
      Some (st\<lparr>dev := e, printed := printed st @ [Printf ''vector_length: %d / table_length: %d\<newline>'' [of_nat vl, of_nat rows]]\<rparr>) \<and>
    ok e \<and> page e = page (dev st) \<and> blk e = write_blocks (blk (dev st)) (table_base tid) (4 * vl * rows div 4096) table"
proof -
  let ?n = "4 * vl * rows div 4096"
  let ?st = "emit [Printf ''vector_length: %d / table_length: %d\<newline>'' [of_nat vl, of_nat rows]] st"
  let ?buf = "table @ take 4 (drop (4 * vl * rows) mem)"
  have "vl \<le> vl * rows" "rows \<le> vl * rows" using assms(6,7) by simp_all
  with assms(5) have small: "vl < 2147483648" "rows < 2147483648" by linarith+
  have "(4 * scast (of_nat vl :: cint) * scast (of_nat rows :: cint) + 4 :: u64) = of_nat (4 * vl * rows + 4)"
    by (simp add: scast_of_nat small)
  then have alloc: "table_alloc (of_nat vl) (of_nat rows) = 4 * vl * rows + 4"
    unfolding table_alloc_def using assms(5) by (simp only: unat_of_nat_u64)
  have n: "nat (sint (of_nat vl * of_nat rows :: cint)) = vl * rows"
    using sint_of_nat_cint [of "vl * rows"] assms(5) by (simp flip: of_nat_mult)
  have buf: "copy_ints (vl * rows) table (take (4 * vl * rows + 4) mem) = Some ?buf"
    using copy_ints_eq [of "vl * rows" table "take (4 * vl * rows + 4) mem"] assms(4,8)
    by (simp add: drop_take mult.assoc)
  have c: "cdiv (4 * of_nat vl * of_nat rows) 4096 = Some (of_nat ?n)"
    using cdiv_of_nat [of "4 * vl * rows" 4096] assms(5) by simp
  have p: "nat (sint (of_nat ?n :: cint)) = ?n" using sint_of_nat_cint [of ?n] assms(5) by simp
  have m: "?n * 4096 \<le> 4 * vl * rows" by (rule div_times_less_eq_dividend)
  then have "?n * 4096 \<le> length ?buf" unfolding length_append assms(4) by (rule trans_le_add1)
  with write_pages_run [of ?st tid ?n ?buf a] assms(1-3,9) obtain e where
    e: "for_loop ?n (write_table_body K a ?buf (of_nat tid)) ?st = Some (?st\<lparr>dev := e\<rparr>)" "ok e" "page e = page (dev st)"
      "blk e = write_blocks (blk (dev st)) (table_base tid) ?n ?buf" by (auto simp: emit_def)
  have "write_blocks f s ?n ?buf = write_blocks f s ?n table" for f s
    by (rule write_blocks_prefix) (use m assms(4) in \<open>simp only: mult.commute\<close>)
  with e have "blk e = write_blocks (blk (dev st)) (table_base tid) ?n table" by simp
  moreover have "unvme_write_table K a mem table (of_nat vl) (of_nat rows) (of_nat tid) st = Some (?st\<lparr>dev := e\<rparr>)"
    unfolding unvme_write_table_def alloc n buf c Option.bind.simps p e(1) by simp
  ultimately show ?thesis using e(2,3) by (intro exI [of _ e]) (simp add: emit_def)
qed

end

section \<open>Reading an embedding\<close>

lemma rdtsc_second_frame:
  obtains sec p q where "rdtsc_second tsc st = (sec, st\<lparr>tsc_pos := p, tsc_ps := q\<rparr>)"
proof (cases "tsc_ps st = 0")
  case True
  with that show thesis by (auto simp: rdtsc_second_def rdtsc_def Let_def)
next
  case False
  with that [where sec = "tsc_ps st" and p = "tsc_pos st" and q = "tsc_ps st"] show thesis by (simp add: rdtsc_second_def)
qed

text \<open>The offsets for vectors that fill a page exactly, \<open>s\<close> of them to a page.\<close>

lemma slot_arith:
  assumes "vl * s = 1024" "4 * vl * idx < 2147483648"
  shows "cdiv 4096 (4 * of_nat vl) = Some (of_nat s)" "cmod (of_nat idx) (of_nat s) = Some (of_nat (idx mod s))"
    "cdiv (4 * of_nat vl * of_nat idx) 4096 = Some (of_nat (4 * vl * idx div 4096))"
    "nat (sint (of_nat (idx mod s) * (4 * of_nat vl) :: cint)) = 4 * vl * (idx mod s)"
    "0 \<le> sint (of_nat (idx mod s) * (4 * of_nat vl) :: cint)"
    "4 * vl * (idx mod s) + 4 * vl \<le> 4096" "4096 * (4 * vl * idx div 4096) + 4 * vl * (idx mod s) = 4 * vl * idx"
proof -
  have pos: "0 < vl" "0 < s" using assms(1) by (auto intro: gr0I)
  have small: "vl \<le> 1024" "s \<le> 1024" using assms(1) pos by (metis One_nat_def Suc_leI mult.commute mult_le_mono2 nat_mult_1_right)+
  have q: "4096 div (4 * vl) = s" using assms(1) pos(1) by (metis div_mult_self1_is_m mult.assoc mult_numeral_left_semiring_numeral num_double nat_mult_div_cancel_disj numeral_times_numeral semiring_norm(11,12,13) zero_neq_numeral)
  show "cdiv 4096 (4 * of_nat vl) = Some (of_nat s)"
    using cdiv_of_nat [of 4096 "4 * vl"] pos small q by simp
  have idx: "idx < 2147483648" using assms(2) pos(1) by (metis mult_pos_pos mult_le_mono nat_mult_1 Suc_leI One_nat_def le_refl order_le_less_trans zero_less_numeral)
  show "cmod (of_nat idx) (of_nat s) = Some (of_nat (idx mod s))"
    using cmod_of_nat [of idx s] idx pos small by simp
  show "cdiv (4 * of_nat vl * of_nat idx) 4096 = Some (of_nat (4 * vl * idx div 4096))"
    using cdiv_of_nat [of "4 * vl * idx" 4096] assms(2) by simp
  have "idx mod s + 1 \<le> s" using pos(2) by (simp add: Suc_leI)
  then have "vl * (idx mod s + 1) \<le> vl * s" by (rule mult_le_mono2)
  then show le: "4 * vl * (idx mod s) + 4 * vl \<le> 4096" using assms(1) by simp
  have e: "of_nat (idx mod s) * (4 * of_nat vl) = (of_nat (4 * vl * (idx mod s)) :: cint)" by simp
  have "4 * vl * (idx mod s) < 2147483648" using le by linarith
  from sint_of_nat_cint [OF this] show "nat (sint (of_nat (idx mod s) * (4 * of_nat vl) :: cint)) = 4 * vl * (idx mod s)"
    "0 \<le> sint (of_nat (idx mod s) * (4 * of_nat vl) :: cint)" unfolding e by (simp_all only: nat_int of_nat_0_le_iff)
  have "4 * vl * idx = 4096 * (idx div s) + 4 * vl * (idx mod s)"
  proof -
    have "4 * vl * idx = 4 * vl * (s * (idx div s) + idx mod s)" by simp
    also have "\<dots> = 4 * (vl * s) * (idx div s) + 4 * vl * (idx mod s)" by (simp only: distrib_left mult.assoc)
    finally show ?thesis using assms(1) by simp
  qed
  moreover from le pos(1) have "4 * vl * (idx mod s) < 4096" by linarith
  ultimately show "4096 * (4 * vl * idx div 4096) + 4 * vl * (idx mod s) = 4 * vl * idx" by simp
qed

lemma take_drop_cong: "take (m + n) xs = take (m + n) ys \<Longrightarrow> take n (drop m xs) = take n (drop m ys)"
  by (metis add.commute take_drop)

lemma chunk_of_page: "m + n \<le> k \<Longrightarrow> take n (drop m (take k (drop p xs))) = take n (drop (p + m) xs)"
  by (simp add: drop_take min_absorb1 add.commute)

lemma st32_prefix:
  "i < length bs div 4 \<Longrightarrow> \<exists>bs'. st32 bs i v = Some bs' \<and> take (4 * i) bs' = take (4 * i) bs"
  by (auto simp: st32_def)

context reliable_ssd
begin

lemma page_read_run:
  assumes "ok (dev st)" "fd_open st" "length (fromPageAlloc st) = 4096" "cap \<le> 2147483648" "table_base tid + b < cap"
  obtains e where "drv_submit_io K (page_io 0x02 a (scast (base_slba + of_nat tid * table_stride + of_nat b))) (fromPageAlloc st) st =
      (0, blk (dev st) (table_base tid + b), st\<lparr>dev := e\<rparr>)" "ok e" "blk e = blk (dev st)" "page e = page (dev st)"
proof -
  let ?u = "page_io 0x02 a (scast (base_slba + of_nat tid * table_stride + of_nat b))"
  have s: "unat (io_slba ?u) = table_base tid + b" using assms(4,5) by (simp add: page_io_simps table_slba)
  have c: "unat (io_slba ?u) + unat (nblocks ?u) + 1 \<le> cap" "length (fromPageAlloc st) = 4096 * (unat (nblocks ?u) + 1)"
    using assms(3,5) unfolding s by (simp_all add: page_io_simps)
  from io_read_run [OF assms(1) page_io_simps(1) c] obtain e where
    "ioctl_submit_io K ?u (fromPageAlloc st) (dev st) = (0, blk (dev st) (table_base tid + b), e)" "ok e"
    "blk e = blk (dev st)" "page e = page (dev st)"
    unfolding s by (auto simp: page_io_simps)
  with that [of e] assms(2) show thesis by (simp add: drv_submit_io_def)
qed

lemma read_embedding_run:
  assumes "ok (dev st)" "fd_open st" "length (fromPageAlloc st) = 4096" "cap \<le> 2147483648"
    and "vl * s = 1024" "4 * vl * idx < 2147483648" "table_base tid + 4 * vl * idx div 4096 < cap"
    and "tsc_pos st < k" "0 < sint (tsc k - tsc (tsc_pos st))"
  shows "\<exists>st' t. unvme_read_embedding K tsc quot a (of_nat idx) (of_nat vl) (of_nat tid) qid st =
      do { pg \<leftarrow> st32 (blk (dev st) (table_base tid + 4 * vl * idx div 4096)) (vl * (idx mod s) + vl) t;
           Some (4 * vl * (idx mod s), st'\<lparr>fromPageAlloc := pg\<rparr>) } \<and>
    ok (dev st') \<and> blk (dev st') = blk (dev st) \<and> page (dev st') = page (dev st) \<and> fd_open st' \<and> printed st' = printed st"
proof -
  let ?b = "4 * vl * idx div 4096" and ?st = "st\<lparr>tsc_pos := tsc_pos st + 1\<rparr>"
  note arith = slot_arith [OF assms(5,6)]
  have st: "ok (dev ?st)" "fd_open ?st" "length (fromPageAlloc ?st) = 4096" using assms(1-3) by simp_all
  from page_read_run [OF st assms(4,7), of a] obtain e where
    e: "drv_submit_io K (page_io 0x02 a (scast (base_slba + of_nat tid * table_stride + of_nat ?b))) (fromPageAlloc ?st) ?st =
      (0, blk (dev st) (table_base tid + ?b), ?st\<lparr>dev := e\<rparr>)" "ok e" "blk e = blk (dev st)" "page e = page (dev st)"
    by auto
  let ?st1 = "?st\<lparr>dev := e, fromPageAlloc := blk (dev st) (table_base tid + ?b)\<rparr>"
  from elapse_loop_Some [of tsc k "tsc (tsc_pos st)" "tsc_pos st + 1"] assms(8,9) obtain et k' where
    "elapse_loop tsc (tsc (tsc_pos st)) (tsc_pos st + 1) = Some (et, k')" by auto
  then have el: "rdtsc_elapse tsc (tsc (tsc_pos st)) (emit [] ?st1) = Some (et, ?st1\<lparr>tsc_pos := k'\<rparr>)"
    by (simp add: rdtsc_elapse_def emit_def)
  obtain sec p q where se: "rdtsc_second tsc (?st1\<lparr>tsc_pos := k'\<rparr>) = (sec, ?st1\<lparr>tsc_pos := k'\<rparr>\<lparr>tsc_pos := p, tsc_ps := q\<rparr>)"
    by (rule rdtsc_second_frame)
  have vl: "vl \<le> 4096" using arith(6) by linarith
  have "4 * vl * (idx mod s) div 4 + unat (of_nat vl :: cint) = vl * (idx mod s) + vl"
    using vl by (simp add: unat_of_nat_cint mult.assoc)
  then have "unvme_read_embedding K tsc quot a (of_nat idx) (of_nat vl) (of_nat tid) qid st =
      do { pg \<leftarrow> st32 (blk (dev st) (table_base tid + ?b)) (vl * (idx mod s) + vl) (quot et sec);
           Some (4 * vl * (idx mod s), (?st1\<lparr>tsc_pos := p, tsc_ps := q\<rparr>)\<lparr>fromPageAlloc := pg\<rparr>) }"
    unfolding unvme_read_embedding_def Let_def arith(1-3) Option.bind.simps rdtsc_def split_conv
    using e(1) el se arith(4,5) by simp
  with e(2-4) assms(2) show ?thesis by (intro exI conjI) (assumption, simp_all)
qed

end

section \<open>Sums of embeddings in the SSD\<close>

text \<open>
  The specification, for tables of vectors of 32 ints. A request is a list of pairs of a result id
  and an embedding id, stored one after the other in \<open>flatInd\<close>. Entry \<open>k\<close> of the map page belongs to
  the result \<open>k div 32\<close>.
\<close>

definition flat_ind :: "(nat \<times> nat) list \<Rightarrow> buffer" where
  "flat_ind inds = bytes_of (concat (map (\<lambda>(r, e). [of_nat r, of_nat e]) inds))"

definition table_entry :: "(nat \<Rightarrow> buffer) \<Rightarrow> nat \<Rightarrow> nat \<Rightarrow> nat \<Rightarrow> cint" where
  "table_entry f tid e j = ints_of (f (table_base tid + e div 32)) ! (32 * (e mod 32) + j)"

definition sls_sum :: "(nat \<Rightarrow> nat \<Rightarrow> cint) \<Rightarrow> (nat \<times> nat) list \<Rightarrow> nat \<Rightarrow> cint" where
  "sls_sum entry inds k = (\<Sum>(r, e)\<leftarrow>inds. if r = k div 32 then entry e (k mod 32) else 0)"

definition valid_inds :: "nat \<Rightarrow> nat \<Rightarrow> (nat \<times> nat) list \<Rightarrow> bool" where
  "valid_inds cap tid inds \<longleftrightarrow>
     (\<forall>(r, e) \<in> set inds. r < 32 \<and> 128 * e < 2147483648 \<and> table_base tid + e div 32 < cap)"

lemma ints_of_flat_ind: "ints_of (flat_ind inds) = concat (map (\<lambda>(r, e). [of_nat r, of_nat e]) inds)"
  by (simp add: flat_ind_def)

lemma nth_flat:
  "i < length inds \<Longrightarrow> concat (map (\<lambda>(r, e). [f r, g e]) inds) ! (i * 2) = f (fst (inds ! i)) \<and>
     concat (map (\<lambda>(r, e). [f r, g e]) inds) ! (i * 2 + 1) = g (snd (inds ! i))"
proof (induction inds arbitrary: i)
  case (Cons x inds)
  then show ?case by (cases i; cases x) simp_all
qed simp

lemma length_flat: "length (concat (map (\<lambda>(r, e). [f r, g e]) inds)) = 2 * length inds"
  by (induction inds) auto

lemma ld32_flat_ind:
  assumes "i < length inds"
  shows "ld32 (flat_ind inds) (i * 2) = Some (of_nat (fst (inds ! i)))"
    and "ld32 (flat_ind inds) (i * 2 + 1) = Some (of_nat (snd (inds ! i)))"
proof -
  have "length (flat_ind inds) div 4 = 2 * length inds"
    using length_flat [of of_nat of_nat inds] by (simp add: flat_ind_def)
  with assms nth_flat [OF assms, of "of_nat :: nat \<Rightarrow> cint" "of_nat :: nat \<Rightarrow> cint"] show
    "ld32 (flat_ind inds) (i * 2) = Some (of_nat (fst (inds ! i)))"
    "ld32 (flat_ind inds) (i * 2 + 1) = Some (of_nat (snd (inds ! i)))"
    by (simp_all add: ld32_ints_of ints_of_flat_ind)
qed

lemma sls_cmd_simps:
  "opcode (sls_cmd r e s q) = 0x82" "cdw2 (sls_cmd r e s q) = r" "cdw3 (sls_cmd r e s q) = e"
  "cdw15 (sls_cmd r e s q) = q" "slba_of (sls_cmd r e s q) = unat s" "nlb_of (sls_cmd r e s q) = 1"
  by (simp_all add: sls_cmd_def slba_of_def nlb_of_def)

lemma drv_page_cmd_simps:
  "opcode (cmd_page_read a q) = 0x84" "data_len (cmd_page_read a q) = 4096" "cdw15 (cmd_page_read a q) = q"
  "opcode (cmd_clear q) = 0x85" "cdw15 (cmd_clear q) = q"
  by (simp_all add: cmd_page_read_def cmd_clear_def)

locale emb_ssd = reliable_ssd K ok blk page embedding32 rest cap
  for K :: "'d kernel" and ok :: "'d \<Rightarrow> bool" and blk :: "'d \<Rightarrow> nat \<Rightarrow> buffer"
    and page :: "'d \<Rightarrow> nat \<Rightarrow> buffer" and rest :: "nvme_passthru_cmd \<Rightarrow> cint \<times> cint \<times> cint" and cap :: nat +
  assumes int_capacity: "cap \<le> 2147483648"
begin

text \<open>A request that runs embedding32: one row of the request's first block is added to one slot of the map page.\<close>

lemma emb_request:
  assumes "ok d" "opcode c = 0x82" "slba_of c + nlb_of c \<le> cap" "unat (cdw2 c) < 32"
  obtains buf' d' pg where "ioctl_io_cmd K c buf d = (0, 0, buf', d')"
    "ok d'" "blk d' = blk d" "page d' = (page d)(unat (cdw15 c) := pg)" "length pg = 4096"
    "\<And>k. k < 1024 \<Longrightarrow> ints_of pg ! k = ints_of (page d (unat (cdw15 c))) ! k +
       (if unat (cdw2 c) = k div 32 then ints_of (extent (blk d) (slba_of c) (nlb_of c)) ! (32 * (unat (cdw3 c) mod 32) + k mod 32) else 0)"
proof -
  let ?ctx = "ctx_of (blk d) (page d) (rest c) c"
  have ctx: "ctx_data ?ctx = extent (blk d) (slba_of c) (nlb_of c)" "ctx_map_page ?ctx = page d (unat (cdw15 c))"
    "param0 ?ctx = cdw2 c" "param1 ?ctx = cdw3 c"
    by (simp_all add: ctx_of_def)
  have "4096 \<le> length (extent (blk d) (slba_of c) (nlb_of c))" using length_extent_blk [OF assms(1)] by (simp add: nlb_of_def)
  with embedding32_eq [of ?ctx] assms(1,4) obtain pg where
    pg: "embedding32 ?ctx = Some (0, pg)" "length pg = 4096" "ints_of pg = add_at 32 (ints_of (extent (blk d) (slba_of c) (nlb_of c)))
      (32 * (unat (cdw3 c) mod 32)) (32 * unat (cdw2 c)) (ints_of (page d (unat (cdw15 c))))"
    by (auto simp: ctx page_length)
  from isp_run [OF assms(1,2,3) pg(1), of buf] obtain buf' d' where
    "ioctl_io_cmd K c buf d = (0, 0, buf', d')" "ok d'" "blk d' = blk d" "page d' = (page d)(unat (cdw15 c) := pg)" .
  with pg(2,3) that [of buf' d' pg] page_length [OF assms(1)] show thesis by (auto simp: nth_add_slot)
qed

lemma sls_request_run:
  assumes "ok d" "r < 32" "128 * e < 2147483648" "table_base tid + e div 32 < cap"
  obtains buf' d' pg where
    "ioctl_io_cmd K (sls_cmd (of_nat r) (of_nat e) (base_slba + of_nat tid * table_stride + of_nat (e div 32)) q) [] d = (0, 0, buf', d')"
    "ok d'" "blk d' = blk d" "page d' = (page d)(unat q := pg)" "length pg = 4096"
    "\<And>k. k < 1024 \<Longrightarrow> ints_of pg ! k = ints_of (page d (unat q)) ! k +
       (if r = k div 32 then table_entry (blk d) tid e (k mod 32) else 0)"
proof -
  let ?c = "sls_cmd (of_nat r) (of_nat e) (base_slba + of_nat tid * table_stride + of_nat (e div 32)) q"
  have s: "slba_of ?c = table_base tid + e div 32"
    using assms(4) int_capacity by (simp add: sls_cmd_simps table_slba)
  have ur: "unat (of_nat r :: cint) = r" "unat (of_nat e :: cint) = e" using assms(2,3) by (simp_all add: unat_of_nat_cint)
  have c: "slba_of ?c + nlb_of ?c \<le> cap" using assms(4) unfolding s sls_cmd_simps(6) by simp
  have r: "unat (cdw2 ?c) < 32" using assms(2) by (simp add: sls_cmd_simps ur)
  from emb_request [OF assms(1) sls_cmd_simps(1) c r, of "[]"] obtain buf' d' pg where
    "ioctl_io_cmd K ?c [] d = (0, 0, buf', d')" "ok d'" "blk d' = blk d" "page d' = (page d)(unat (cdw15 ?c) := pg)" "length pg = 4096"
    "\<And>k. k < 1024 \<Longrightarrow> ints_of pg ! k = ints_of (page d (unat (cdw15 ?c))) ! k + (if unat (cdw2 ?c) = k div 32
       then ints_of (extent (blk d) (slba_of ?c) (nlb_of ?c)) ! (32 * (unat (cdw3 ?c) mod 32) + k mod 32) else 0)" by metis
  with that [of buf' d' pg] show thesis unfolding s unfolding sls_cmd_simps ur by (simp add: table_entry_def)
qed

lemma sls_body_run:
  assumes "ok (dev st)" "fd_open st" "valid_inds cap tid inds" "i < length inds"
  shows "\<exists>d' pg. sls_body K (flat_ind inds) 32 (of_nat tid) q i st = Some (st\<lparr>dev := d'\<rparr>) \<and> ok d' \<and> blk d' = blk (dev st) \<and>
    page d' = (page (dev st))(unat q := pg) \<and> length pg = 4096 \<and>
    (\<forall>k<1024. ints_of pg ! k = ints_of (page (dev st) (unat q)) ! k +
       (if fst (inds ! i) = k div 32 then table_entry (blk (dev st)) tid (snd (inds ! i)) (k mod 32) else 0))"
proof -
  obtain r e where re: "inds ! i = (r, e)" by fastforce
  with assms(3,4) have b: "r < 32" "128 * e < 2147483648" "table_base tid + e div 32 < cap"
    by (auto simp: valid_inds_def dest!: bspec [of "set inds" _ "(r, e)"] intro: nth_mem) (metis nth_mem)+
  have l: "ld32 (flat_ind inds) (i * 2) = Some (of_nat r)" "ld32 (flat_ind inds) (i * 2 + 1) = Some (of_nat e)"
    using ld32_flat_ind [OF assms(4)] re by simp_all
  have off: "cdiv (4 * 32 * of_nat e) 4096 = Some (of_nat (e div 32))"
    using cdiv_of_nat [of "128 * e" 4096] b(2) by simp
  have slots: "cdiv 4096 (32 * 4) = Some 32" using cdiv_of_nat [of 4096 128] by simp
  have r: "\<not> sint (32 :: cint) \<le> sint (of_nat r :: cint)" using sint_of_nat_cint [of r] b(1) by simp
  from sls_request_run [OF assms(1) b] obtain buf' d' pg where
    d': "ioctl_io_cmd K (sls_cmd (of_nat r) (of_nat e) (base_slba + of_nat tid * table_stride + of_nat (e div 32)) q) [] (dev st) = (0, 0, buf', d')"
      "ok d'" "blk d' = blk (dev st)" "page d' = (page (dev st))(unat q := pg)" "length pg = 4096"
    "\<And>k. k < 1024 \<Longrightarrow> ints_of pg ! k = ints_of (page (dev st) (unat q)) ! k +
       (if r = k div 32 then table_entry (blk (dev st)) tid e (k mod 32) else 0)" by metis
  have "sls_body K (flat_ind inds) 32 (of_nat tid) q i st = Some (st\<lparr>dev := d'\<rparr>)"
    unfolding sls_body_def Let_def l off slots Option.bind.simps drv_io_cmd_def
    using d'(1) assms(2) r by (simp add: emit_def)
  with d' re show ?thesis by (intro exI [of _ d'] exI [of _ pg]) simp
qed

lemma sls_requests_run:
  assumes "ok (dev st)" "fd_open st" "valid_inds cap tid inds" "length inds < 2147483648"
  shows "\<exists>d'. sls_requests K (flat_ind inds) 32 (of_nat tid) q (of_nat (length inds)) st = Some (st\<lparr>dev := d'\<rparr>) \<and>
    ok d' \<and> blk d' = blk (dev st) \<and> (\<forall>p. p \<noteq> unat q \<longrightarrow> page d' p = page (dev st) p) \<and>
    (\<forall>k<1024. ints_of (page d' (unat q)) ! k = ints_of (page (dev st) (unat q)) ! k +
       sls_sum (table_entry (blk (dev st)) tid) inds k)"
proof -
  let ?P = "\<lambda>i s. \<exists>d'. s = st\<lparr>dev := d'\<rparr> \<and> ok d' \<and> blk d' = blk (dev st) \<and> (\<forall>p. p \<noteq> unat q \<longrightarrow> page d' p = page (dev st) p) \<and>
    (\<forall>k<1024. ints_of (page d' (unat q)) ! k = ints_of (page (dev st) (unat q)) ! k +
       sls_sum (table_entry (blk (dev st)) tid) (take i inds) k)"
  have "\<exists>s'. for_loop (length inds) (sls_body K (flat_ind inds) 32 (of_nat tid) q) st = Some s' \<and> ?P (length inds) s'"
  proof (rule for_loop_inv [where P = ?P])
    show "?P 0 st" using assms(1) by (intro exI [of _ "dev st"]) (simp add: sls_sum_def)
  next
    fix i s
    assume i: "i < length inds" and "?P i s"
    then obtain d1 where d1: "s = st\<lparr>dev := d1\<rparr>" "ok d1" "blk d1 = blk (dev st)" "\<forall>p. p \<noteq> unat q \<longrightarrow> page d1 p = page (dev st) p"
      "\<forall>k<1024. ints_of (page d1 (unat q)) ! k = ints_of (page (dev st) (unat q)) ! k +
        sls_sum (table_entry (blk (dev st)) tid) (take i inds) k" by blast
    have b: "ok (dev (st\<lparr>dev := d1\<rparr>))" "fd_open (st\<lparr>dev := d1\<rparr>)" using d1(2) assms(2) by simp_all
    from sls_body_run [OF b assms(3) i, of q] obtain d2 pg where
      d2: "sls_body K (flat_ind inds) 32 (of_nat tid) q i s = Some (st\<lparr>dev := d2\<rparr>)" "ok d2" "blk d2 = blk d1"
        "page d2 = (page d1)(unat q := pg)"
        "\<forall>k<1024. ints_of pg ! k = ints_of (page d1 (unat q)) ! k +
          (if fst (inds ! i) = k div 32 then table_entry (blk d1) tid (snd (inds ! i)) (k mod 32) else 0)"
      unfolding d1(1) unvme.simps by (elim exE conjE) simp
    have sum: "sls_sum f (take (Suc i) inds) k = sls_sum f (take i inds) k +
        (if fst (inds ! i) = k div 32 then f (snd (inds ! i)) (k mod 32) else 0)" for f k
      using i by (simp add: sls_sum_def take_Suc_conv_app_nth split_def)
    have "?P (Suc i) (st\<lparr>dev := d2\<rparr>)"
      using d1 d2 by (intro exI [of _ d2]) (simp add: sum add.assoc)
    with d2(1) show "\<exists>s'. sls_body K (flat_ind inds) 32 (of_nat tid) q i s = Some s' \<and> ?P (Suc i) s'" by blast
  qed
  moreover have "nat (sint (of_nat (length inds) :: cint)) = length inds" using sint_of_nat_cint [OF assms(4)] by simp
  ultimately show ?thesis unfolding sls_requests_def by auto
qed

lemma sls_run:
  assumes "ok (dev st)" "fd_open st" "valid_inds cap tid inds" "length inds < 2147483648" "length mp = 4096"
    and "tsc_pos st < k" "0 < sint (tsc k - tsc (tsc_pos st))"
  shows "\<exists>map_page st'. unvme_sparse_length_sum K tsc a mp mem (flat_ind inds) 32 batchsize epr (of_nat tid) q
      (of_nat (length inds)) st =
      Some (take (unat (scast (sls_buffersize 32 batchsize (of_nat (length inds))) + 4 :: u64)) mem, map_page, st') \<and>
    ok (dev st') \<and> blk (dev st') = blk (dev st) \<and> page (dev st') = (page (dev st))(unat q := replicate 4096 0) \<and>
    printed st' = printed st \<and>
    (\<forall>k<1024. ints_of map_page ! k = ints_of (page (dev st) (unat q)) ! k + sls_sum (table_entry (blk (dev st)) tid) inds k)"
proof -
  let ?st = "st\<lparr>tsc_pos := tsc_pos st + 1\<rparr>"
  from sls_requests_run [of ?st tid inds q] assms(1-4) obtain d1 where
    d1: "sls_requests K (flat_ind inds) 32 (of_nat tid) q (of_nat (length inds)) ?st = Some (?st\<lparr>dev := d1\<rparr>)" "ok d1"
      "blk d1 = blk (dev st)" "\<forall>p. p \<noteq> unat q \<longrightarrow> page d1 p = page (dev st) p"
      "\<forall>k<1024. ints_of (page d1 (unat q)) ! k = ints_of (page (dev st) (unat q)) ! k +
        sls_sum (table_entry (blk (dev st)) tid) inds k" by auto
  from map_read_run [OF d1(2) drv_page_cmd_simps(1,2) assms(5)] obtain res d2 where
    d2: "ioctl_io_cmd K (cmd_page_read a q) mp d1 = (0, res, page d1 (unat q), d2)" "ok d2" "blk d2 = blk d1" "page d2 = page d1"
    unfolding drv_page_cmd_simps(3) by metis
  from map_clear_run [OF d2(2) drv_page_cmd_simps(4)] obtain res' buf' d3 where
    d3: "ioctl_io_cmd K (cmd_clear q) [] d2 = (0, res', buf', d3)" "ok d3" "blk d3 = blk d2"
      "page d3 = (page d2)(unat q := replicate 4096 0)"
    unfolding drv_page_cmd_simps(5) by metis
  from elapse_loop_Some [of tsc k "tsc (tsc_pos st)" "tsc_pos st + 1"] assms(6,7) obtain et k' where
    "elapse_loop tsc (tsc (tsc_pos st)) (tsc_pos st + 1) = Some (et, k')" by auto
  then have el: "rdtsc_elapse tsc (tsc (tsc_pos st)) (?st\<lparr>dev := d3\<rparr>) = Some (et, ?st\<lparr>dev := d3, tsc_pos := k'\<rparr>)"
    by (simp add: rdtsc_elapse_def)
  have "unvme_sparse_length_sum K tsc a mp mem (flat_ind inds) 32 batchsize epr (of_nat tid) q (of_nat (length inds)) st =
      Some (take (unat (scast (sls_buffersize 32 batchsize (of_nat (length inds))) + 4 :: u64)) mem, page d1 (unat q),
        ?st\<lparr>dev := d3, tsc_pos := k'\<rparr>)"
    unfolding unvme_sparse_length_sum_def Let_def rdtsc_def split_conv d1(1) Option.bind.simps drv_io_cmd_def
    using d2(1) d3(1) el assms(2) by (simp add: emit_def)
  moreover have "page d3 = (page (dev st))(unat q := replicate 4096 0)"
    using d1(4) d2(4) d3(4) by (auto simp: fun_eq_iff)
  ultimately show ?thesis using d1 d2 d3 by (intro exI conjI) (assumption, simp_all)
qed

end

interpretation ssd_emb: emb_ssd "ssd_kernel (min n 2147483648) embedding32" ssd_ok ssd_blk ssd_page ssd_rest "min n 2147483648" for n
  by unfold_locales simp

lemma ssd_emb_ref: "emb_ssd (ssd_kernel 300000 embedding32) ssd_ok ssd_blk ssd_page ssd_rest 300000"
  using ssd_emb.emb_ssd_axioms [of 300000] by simp

section \<open>A closed driver\<close>

lemma drv_closed [simp]:
  "\<not> fd_open st \<Longrightarrow> drv_io_cmd K c buf st = (-1, buf, st)"
  "\<not> fd_open st \<Longrightarrow> drv_submit_io K u buf st = (-1, buf, st)"
  by (simp_all add: drv_io_cmd_def drv_submit_io_def)

lemma emit_simps [simp]:
  "dev (emit es st) = dev st" "fd_open (emit es st) = fd_open st" "fromPageAlloc (emit es st) = fromPageAlloc st"
  "tsc_pos (emit es st) = tsc_pos st"
  by (simp_all add: emit_def)

lemma for_loop_closed:
  assumes "for_loop n f st = Some st'" "\<not> fd_open st"
    and "\<And>i st st'. \<not> fd_open st \<Longrightarrow> f i st = Some st' \<Longrightarrow> dev st' = dev st \<and> \<not> fd_open st'"
  shows "dev st' = dev st \<and> \<not> fd_open st'"
  using assms(1)
proof (induction n arbitrary: st')
  case (Suc n)
  then obtain s where "for_loop n f st = Some s" "f n s = Some st'" by (auto simp: bind_eq_Some_conv)
  with Suc.IH assms(3) [of s n st'] show ?case by simp
qed (use assms(2) in simp)

lemma write_table_closed:
  "unvme_write_table K a mem table vl rows tid st = Some st' \<Longrightarrow> \<not> fd_open st \<Longrightarrow> dev st' = dev st"
  by (auto simp: unvme_write_table_def bind_eq_Some_conv write_table_body_def dest!: for_loop_closed)

lemma sls_requests_closed:
  "sls_requests K flatInd vl tid q n st = Some st' \<Longrightarrow> \<not> fd_open st \<Longrightarrow> dev st' = dev st \<and> \<not> fd_open st'"
  unfolding sls_requests_def
  by (erule for_loop_closed) (auto simp: sls_body_def Let_def bind_eq_Some_conv)

lemma sls_closed:
  assumes "unvme_sparse_length_sum K tsc a mp mem flatInd vl bs epr tid q n st = Some (r, pg, st')" "\<not> fd_open st"
  shows "dev st' = dev st \<and> pg = mp"
proof -
  let ?st = "st\<lparr>tsc_pos := tsc_pos st + 1\<rparr>"
  from assms(1) obtain st1 where st1: "sls_requests K flatInd vl tid q n ?st = Some st1"
    by (cases "sls_requests K flatInd vl tid q n ?st") (simp_all add: unvme_sparse_length_sum_def rdtsc_def)
  from sls_requests_closed [OF st1] assms(2) have "dev st1 = dev st" "\<not> fd_open st1" by simp_all
  with assms(1) st1 show ?thesis
    by (auto simp: unvme_sparse_length_sum_def rdtsc_def Let_def rdtsc_elapse_def bind_eq_Some_conv)
qed

lemma rdtsc_second_dev [simp]: "dev (snd (rdtsc_second tsc st)) = dev st"
  by (simp add: rdtsc_second_def rdtsc_def Let_def)

lemma read_embedding_closed:
  "unvme_read_embedding K tsc quot a idx vl tid q st = Some (off, st') \<Longrightarrow> \<not> fd_open st \<Longrightarrow> dev st' = dev st"
  by (auto simp: unvme_read_embedding_def rdtsc_def Let_def rdtsc_elapse_def bind_eq_Some_conv split_def
      split: if_splits)

text \<open>What is returned is the allocation as it was.\<close>

lemma sls_result_mem:
  "unvme_sparse_length_sum K tsc a mp mem flatInd vl batchsize epr tid q n st = Some (res, map_page, st') \<Longrightarrow>
   res = take (unat (scast (sls_buffersize vl batchsize n) + 4 :: u64)) mem"
  by (auto simp: unvme_sparse_length_sum_def Let_def split_def bind_eq_Some_conv)

text \<open>The rows of a table that was written.\<close>

lemma written_row:
  assumes "length table = 4096 * n" "e div 32 < n" "j < 32"
  shows "table_entry (write_blocks f (table_base tid) n table) tid e j = ints_of table ! (32 * e + j)"
proof -
  have "Suc (e div 32) \<le> n" using assms(2) by simp
  then have "4096 * Suc (e div 32) \<le> 4096 * n" by (rule mult_le_mono2)
  then have len: "4096 * (e div 32) + 4096 \<le> length table" using assms(1) by simp
  have i: "32 * (e mod 32) + j < 1024" using assms(3) mod_less_divisor [of 32 e] by linarith
  have "int_at (take 4096 (drop (4096 * (e div 32)) table)) (32 * (e mod 32) + j) =
    int_at table (1024 * (e div 32) + (32 * (e mod 32) + j))"
    using len i by (simp add: int_at_def algebra_simps)
  moreover have "1024 * (e div 32) + (32 * (e mod 32) + j) = 32 * e + j"
    using div_mult_mod_eq [of e 32] by linarith
  moreover have "32 * e + j < length table div 4" using len i div_mult_mod_eq [of e 32] by linarith
  ultimately show ?thesis
    using assms(2) len i by (simp add: table_entry_def write_blocks_def nth_ints_of)
qed

section \<open>Properties\<close>

text \<open>
  C3: Embedding sums end to end. A table of 32-entry vectors is written with unvme-write-table; then
  unvme-sparse-length-sum with valid indices, on a clear map page and with a clock that advances,
  fetches from the SSD for every result id the sum of the table rows the request names, reports no
  error, and leaves the map page clear and the table in place.
\<close>

theorem sls_end_to_end:
  assumes "emb_ssd K ok blk page rest cap" "ok (dev st)" "fd_open st"
    and "length table = 4 * 32 * rows" "4 * 32 * rows < 2147483648" "32 dvd rows" "0 < rows"
    and "4 * 32 * rows + 4 \<le> length mem" "table_base tid + rows div 32 \<le> cap"
    and "\<forall>(r, e) \<in> set inds. r < 32 \<and> e < rows" "length inds < 2147483648"
    and "page (dev st) (unat q) = replicate 4096 0" "length mp = 4096"
    and "tsc_pos st < k" "0 < sint (tsc k - tsc (tsc_pos st))"
  shows "\<exists>st1 res map_page st2. unvme_write_table K a mem table 32 (of_nat rows) (of_nat tid) st = Some st1 \<and>
    unvme_sparse_length_sum K tsc a' mp mem' (flat_ind inds) 32 batchsize epr (of_nat tid) q (of_nat (length inds)) st1 =
      Some (res, map_page, st2) \<and>
    (\<forall>r<32. \<forall>j<32. ints_of map_page ! (32 * r + j) = (\<Sum>(r', e)\<leftarrow>inds. if r' = r then ints_of table ! (32 * e + j) else 0)) \<and>
    page (dev st2) = page (dev st) \<and> blk (dev st2) = blk (dev st1) \<and> printed st2 = printed st1"
proof -
  have rel: "reliable_ssd K ok blk page embedding32 rest cap" and cap: "cap \<le> 2147483648"
    using assms(1) by (simp_all add: emb_ssd_def emb_ssd_axioms_def)
  have n: "4 * 32 * rows div 4096 = rows div 32" by simp
  from reliable_ssd.write_table_run [OF rel assms(2,3) cap assms(4,5) _ assms(7,8), of tid a] assms(9) obtain d1 where
    w: "unvme_write_table K a mem table 32 (of_nat rows) (of_nat tid) st = Some (st\<lparr>dev := d1, printed := printed st @
        [Printf ''vector_length: %d / table_length: %d\<newline>'' [32, of_nat rows]]\<rparr>)" (is "_ = Some ?st1")
      "ok d1" "page d1 = page (dev st)" "blk d1 = write_blocks (blk (dev st)) (table_base tid) (rows div 32) table"
    unfolding n by auto
  have st1: "ok (dev ?st1)" "fd_open ?st1" "tsc_pos ?st1 < k" "0 < sint (tsc k - tsc (tsc_pos ?st1))"
    using w(2) assms(3,14,15) by simp_all
  have "e < rows \<Longrightarrow> 128 * e < 2147483648 \<and> e div 32 < rows div 32" for e
    using assms(5,6) by (auto elim!: dvdE)
  with assms(9,10) have v: "valid_inds cap tid inds"
    unfolding valid_inds_def by (auto dest!: bspec split: prod.splits) fastforce+
  from emb_ssd.sls_run [where st = ?st1 and tsc = tsc and k = k, OF assms(1) st1(1,2) v assms(11,13) st1(3,4),
      of a' mem' batchsize epr q] obtain map_page st2 where
    r: "unvme_sparse_length_sum K tsc a' mp mem' (flat_ind inds) 32 batchsize epr (of_nat tid) q (of_nat (length inds)) ?st1 =
        Some (take (unat (scast (sls_buffersize 32 batchsize (of_nat (length inds))) + 4 :: u64)) mem', map_page, st2)"
      "blk (dev st2) = blk d1" "page (dev st2) = (page d1)(unat q := replicate 4096 0)" "printed st2 = printed ?st1"
      "\<forall>k<1024. ints_of map_page ! k = ints_of (page d1 (unat q)) ! k + sls_sum (table_entry (blk d1) tid) inds k"
    by auto
  have "ints_of map_page ! (32 * r + j) = (\<Sum>(r', e)\<leftarrow>inds. if r' = r then ints_of table ! (32 * e + j) else 0)"
    if rj: "r < 32" "j < 32" for r j
  proof -
    have k: "32 * r + j < 1024" "(32 * r + j) div 32 = r" "(32 * r + j) mod 32 = j" using rj by simp_all
    have "table_entry (blk d1) tid e j = ints_of table ! (32 * e + j)" if "(r', e) \<in> set inds" for r' e
    proof -
      from that assms(10) have "e < rows" by auto
      with assms(6) have "e div 32 < rows div 32" by (auto elim!: dvdE)
      moreover have "length table = 4096 * (rows div 32)" using assms(4,6) by (auto elim!: dvdE)
      ultimately show ?thesis unfolding w(4) using rj(2) by (intro written_row)
    qed
    then have "sls_sum (table_entry (blk d1) tid) inds (32 * r + j) =
        (\<Sum>(r', e)\<leftarrow>inds. if r' = r then ints_of table ! (32 * e + j) else 0)"
      unfolding sls_sum_def k by (intro arg_cong [where f = sum_list] map_cong refl) (auto split: prod.splits)
    moreover have "ints_of (page d1 (unat q)) ! (32 * r + j) = 0"
      using w(3) assms(12) k(1) by simp
    ultimately show ?thesis using r(5) k(1) by simp
  qed
  moreover have "page (dev st2) = page (dev st)" using r(3) w(3) assms(12) by (auto simp: fun_eq_iff)
  ultimately show ?thesis using w(1) r by (intro exI conjI) (assumption | simp)+
qed

text \<open>A driver that has just opened a device, with a clock that counts.\<close>

definition ref_driver :: "ssd unvme" where
  "ref_driver = \<lparr>dev = ones_ssd, fd_open = True, fromPageAlloc = replicate 4096 0, tsc_pos = 0, tsc_ps = 0, printed = []\<rparr>"

lemma ref_driver_simps [simp]:
  "dev ref_driver = ones_ssd" "fd_open ref_driver" "fromPageAlloc ref_driver = replicate 4096 0" "tsc_pos ref_driver = 0"
  by (simp_all add: ref_driver_def)

theorem sls_end_to_end_witness:
  "\<exists>st1 res map_page st2.
    unvme_write_table (ssd_kernel 300000 embedding32) 0 (replicate 8200 7) (replicate 8192 1) 32 (of_nat 64) (of_nat 1) ref_driver = Some st1 \<and>
    unvme_sparse_length_sum (ssd_kernel 300000 embedding32) of_nat 0 (replicate 4096 9) [] (flat_ind [(0, 3), (1, 40), (0, 5)]) 32 2 2
      (of_nat 1) 2 (of_nat (length [(0 :: nat, 3 :: nat), (1, 40), (0, 5)])) st1 = Some (res, map_page, st2) \<and>
    (\<forall>r<32. \<forall>j<32. ints_of map_page ! (32 * r + j) =
      (\<Sum>(r', e)\<leftarrow>[(0, 3), (1, 40), (0, 5)]. if r' = r then ints_of (replicate 8192 1) ! (32 * e + j) else 0)) \<and>
    ssd_page (dev st2) = ssd_page (dev ref_driver) \<and> ssd_blk (dev st2) = ssd_blk (dev st1) \<and> printed st2 = printed st1"
  by (rule sls_end_to_end [OF ssd_emb_ref, where k = 1]) (simp_all add: table_base_def)

text \<open>
  What unvme-sparse-length-sum returns is memory it never wrote. In every run that returns, on any
  device, the returned buffer is the fresh allocation as \<open>malloc\<close> left it, whatever the tables hold;
  the sums are only in the page that is freed.
\<close>

lemma sls_result_uninitialised:
  assumes "unvme_sparse_length_sum K tsc a mp mem flatInd vl batchsize epr tid q n st = Some (res, map_page, st')"
  shows "res = take (unat (scast (sls_buffersize vl batchsize n) + 4 :: u64)) mem"
  using assms by (rule sls_result_mem)

text \<open>
  C14: Write and read back. After unvme-write-table of vectors that fill a page exactly,
  unvme-read-embedding of a row that is not the last one of its page returns without an error, and
  the vector at the returned offset of the page is the row that was written.
\<close>

theorem embedding_roundtrip:
  assumes "reliable_ssd K ok blk page prog rest cap" "cap \<le> 2147483648" "ok (dev st)" "fd_open st" "length (fromPageAlloc st) = 4096"
    and "vl * s = 1024" "s dvd rows" "length table = 4 * vl * rows" "4 * vl * rows < 2147483648" "4 * vl * rows + 4 \<le> length mem"
    and "table_base tid + 4 * vl * rows div 4096 \<le> cap" "idx < rows" "idx mod s + 1 < s"
    and "tsc_pos st < k" "0 < sint (tsc k - tsc (tsc_pos st))"
  shows "\<exists>st1 off st2. unvme_write_table K a mem table (of_nat vl) (of_nat rows) (of_nat tid) st = Some st1 \<and>
    unvme_read_embedding K tsc quot a' (of_nat idx) (of_nat vl) (of_nat tid) q st1 = Some (off, st2) \<and>
    take (4 * vl) (drop off (fromPageAlloc st2)) = take (4 * vl) (drop (4 * vl * idx) table) \<and> printed st2 = printed st1"
proof -
  have pos: "0 < vl" "0 < s" "0 < rows" using assms(6,12) by (auto intro: gr0I)
  from reliable_ssd.write_table_run [OF assms(1,3,4,2,8,9) pos(1,3) assms(10,11), of a] obtain d1 where
    w: "unvme_write_table K a mem table (of_nat vl) (of_nat rows) (of_nat tid) st = Some (st\<lparr>dev := d1, printed := printed st @
        [Printf ''vector_length: %d / table_length: %d\<newline>'' [of_nat vl, of_nat rows]]\<rparr>)" (is "_ = Some ?st1")
      "ok d1" "blk d1 = write_blocks (blk (dev st)) (table_base tid) (4 * vl * rows div 4096) table" by blast
  let ?q = "4 * vl * idx div 4096" and ?off = "4 * vl * (idx mod s)"
  note arith = slot_arith [OF assms(6)]
  have "4 * vl * idx < 4 * vl * rows" using assms(12) pos(1) by simp
  with assms(9) have small: "4 * vl * idx < 2147483648" by linarith
  obtain m where "rows = s * m" using assms(7) by (rule dvdE)
  then have "4 * vl * rows = 4 * (vl * s) * m" by simp
  then have m: "4 * vl * rows = 4096 * m" by (simp add: assms(6))
  with \<open>4 * vl * idx < 4 * vl * rows\<close> have "4 * vl * idx < m * 4096" by linarith
  then have "?q < m" by (rule less_mult_imp_div_less)
  then have q: "?q < 4 * vl * rows div 4096" unfolding m by simp
  have st1: "ok (dev ?st1)" "fd_open ?st1" "length (fromPageAlloc ?st1) = 4096" "tsc_pos ?st1 < k" "0 < sint (tsc k - tsc (tsc_pos ?st1))"
    using w(2) assms(4,5,14,15) by simp_all
  have b: "table_base tid + ?q < cap" using q assms(11) by linarith
  from reliable_ssd.read_embedding_run [where st = ?st1 and tsc = tsc and k = k and quot = quot and a = a' and qid = q,
      OF assms(1) st1(1-3) assms(2,6) small b st1(4,5)] obtain st' t where
    r: "unvme_read_embedding K tsc quot a' (of_nat idx) (of_nat vl) (of_nat tid) q ?st1 =
      do { pg \<leftarrow> st32 (blk d1 (table_base tid + ?q)) (vl * (idx mod s) + vl) t;
           Some (?off, st'\<lparr>fromPageAlloc := pg\<rparr>) }" "printed st' = printed ?st1" by auto
  let ?pg = "take 4096 (drop (4096 * ?q) table)"
  have pg: "blk d1 (table_base tid + ?q) = ?pg" using q by (simp add: w(3) write_blocks_def)
  have len: "length ?pg = 4096"
  proof -
    have "Suc ?q \<le> m" using q m by simp
    then have "4096 * Suc ?q \<le> 4096 * m" by (rule mult_le_mono2)
    then show ?thesis using assms(8) m by simp
  qed
  have "vl * (idx mod s + 1) < vl * s" using assms(13) pos(1) by (rule mult_less_mono2)
  then have i: "vl * (idx mod s) + vl < 1024" using assms(6) by simp
  have le: "?off + 4 * vl \<le> 4096" "4096 * ?q + ?off = 4 * vl * idx" using arith(6,7) [OF small] by simp_all
  have e: "4 * (vl * (idx mod s) + vl) = ?off + 4 * vl" by simp
  have "vl * (idx mod s) + vl < length ?pg div 4" unfolding len using i by simp
  from st32_prefix [OF this, of t] obtain pg where
    pg': "st32 ?pg (vl * (idx mod s) + vl) t = Some pg" "take (?off + 4 * vl) pg = take (?off + 4 * vl) ?pg"
    unfolding e by blast
  have "take (4 * vl) (drop ?off pg) = take (4 * vl) (drop ?off ?pg)"
    using pg'(2) by (rule take_drop_cong)
  also have "\<dots> = take (4 * vl) (drop (4096 * ?q + ?off) table)"
    using le(1) by (rule chunk_of_page)
  finally have "take (4 * vl) (drop ?off pg) = take (4 * vl) (drop (4 * vl * idx) table)" unfolding le(2) .
  with r pg pg'(1) w(1) show ?thesis by simp
qed

theorem embedding_roundtrip_witness:
  "\<exists>st1 off st2.
    unvme_write_table (ssd_kernel 300000 embedding32) 0 (replicate 8200 7) (replicate 8192 1) (of_nat 32) (of_nat 64) (of_nat 1) ref_driver = Some st1 \<and>
    unvme_read_embedding (ssd_kernel 300000 embedding32) of_nat (\<lambda>_ _. 0) 0 (of_nat 33) (of_nat 32) (of_nat 1) 0 st1 = Some (off, st2) \<and>
    take (4 * 32) (drop off (fromPageAlloc st2)) = take (4 * 32) (drop (4 * 32 * 33) (replicate 8192 1)) \<and> printed st2 = printed st1"
  by (rule embedding_roundtrip [OF emb_ssd.axioms(1) [OF ssd_emb_ref], where s = 32 and k = 1]) (simp_all add: table_base_def)

text \<open>
  C36: For the last vector of a page unvme-read-embedding stores the elapsed time behind the end of the
  page it allocated: with a clock that advances, the call leaves its allocation.
\<close>

theorem read_embedding_overflows_page:
  assumes "reliable_ssd K ok blk page prog rest cap" "cap \<le> 2147483648" "ok (dev st)" "fd_open st" "length (fromPageAlloc st) = 4096"
    and "vl * s = 1024" "4 * vl * idx < 2147483648" "table_base tid + 4 * vl * idx div 4096 < cap" "idx mod s + 1 = s"
    and "tsc_pos st < k" "0 < sint (tsc k - tsc (tsc_pos st))"
  shows "unvme_read_embedding K tsc quot a (of_nat idx) (of_nat vl) (of_nat tid) q st = None"
proof -
  from reliable_ssd.read_embedding_run [where st = st and tsc = tsc and k = k and quot = quot and a = a and qid = q,
      OF assms(1,3-5,2,6-8,10,11)] obtain st' t where
    r: "unvme_read_embedding K tsc quot a (of_nat idx) (of_nat vl) (of_nat tid) q st =
      do { pg \<leftarrow> st32 (blk (dev st) (table_base tid + 4 * vl * idx div 4096)) (vl * (idx mod s) + vl) t;
           Some (4 * vl * (idx mod s), st'\<lparr>fromPageAlloc := pg\<rparr>) }" by blast
  have "vl * (idx mod s) + vl = vl * (idx mod s + 1)" by simp
  also have "\<dots> = 1024" using assms(6,9) by simp
  finally have i: "vl * (idx mod s) + vl = 1024" .
  have "isp_ssd K ok blk page prog rest" using assms(1) by (simp add: reliable_ssd_def)
  from isp_ssd.blk_length [OF this assms(3)]
  have "st32 (blk (dev st) (table_base tid + 4 * vl * idx div 4096)) (vl * (idx mod s) + vl) t = None"
    unfolding i by (simp add: st32_def)
  with r show ?thesis by simp
qed

theorem read_embedding_overflows_page_witness:
  "unvme_read_embedding (ssd_kernel 300000 embedding32) of_nat (\<lambda>_ _. 0) 0 (of_nat 31) (of_nat 32) (of_nat 0) 0 ref_driver = None"
  by (rule read_embedding_overflows_page [OF emb_ssd.axioms(1) [OF ssd_emb_ref], where s = 32 and k = 1]) (simp_all add: table_base_def)

text \<open>
  unvme-write-table writes whole pages only: when the table does not end at a page boundary, the
  block its last rows belong to keeps its old content, though the call reports no error.
\<close>

lemma write_table_drops_partial_page:
  assumes "reliable_ssd K ok blk page prog rest cap" "cap \<le> 2147483648" "ok (dev st)" "fd_open st"
    and "length table = 4 * vl * rows" "4 * vl * rows < 2147483648" "0 < vl" "0 < rows" "4 * vl * rows + 4 \<le> length mem"
    and "table_base tid + 4 * vl * rows div 4096 \<le> cap"
  shows "\<exists>st1. unvme_write_table K a mem table (of_nat vl) (of_nat rows) (of_nat tid) st = Some st1 \<and>
    printed st1 = printed st @ [Printf ''vector_length: %d / table_length: %d\<newline>'' [of_nat vl, of_nat rows]] \<and>
    (\<forall>i < 4 * vl * rows div 4096. blk (dev st1) (table_base tid + i) = take 4096 (drop (4096 * i) table)) \<and>
    (\<forall>i \<ge> 4 * vl * rows div 4096. blk (dev st1) (table_base tid + i) = blk (dev st) (table_base tid + i))"
  using reliable_ssd.write_table_run [OF assms(1,3,4,2,5,6,7-10), of a] by (auto simp: write_blocks_def)

text \<open>
  rdtsc-elapse returns exactly when some later time stamp is ahead of the start as a signed
  number, and what it returns is positive: the difference at the first such time stamp.
\<close>

lemma rdtsc_elapse_returns_iff:
  "(\<exists>et st'. rdtsc_elapse tsc start st = Some (et, st')) = (\<exists>k\<ge>tsc_pos st. 0 < sint (tsc k - start)) \<and>
   (\<forall>et st'. rdtsc_elapse tsc start st = Some (et, st') \<longrightarrow>
      0 < sint et \<and> (\<exists>k\<ge>tsc_pos st. et = tsc k - start \<and> tsc_pos st' = k + 1 \<and> dev st' = dev st))"
proof (intro conjI)
  show "(\<exists>et st'. rdtsc_elapse tsc start st = Some (et, st')) = (\<exists>k\<ge>tsc_pos st. 0 < sint (tsc k - start))"
  proof
    assume "\<exists>et st'. rdtsc_elapse tsc start st = Some (et, st')"
    then show "\<exists>k\<ge>tsc_pos st. 0 < sint (tsc k - start)"
      by (auto simp: rdtsc_elapse_def bind_eq_Some_conv dest!: elapse_loop_result)
  next
    assume "\<exists>k\<ge>tsc_pos st. 0 < sint (tsc k - start)"
    then obtain k where "tsc_pos st \<le> k" "0 < sint (tsc k - start)" by blast
    from elapse_loop_Some [of tsc k start, OF this(2,1)] show "\<exists>et st'. rdtsc_elapse tsc start st = Some (et, st')"
      by (auto simp: rdtsc_elapse_def)
  qed
  show "\<forall>et st'. rdtsc_elapse tsc start st = Some (et, st') \<longrightarrow>
      0 < sint et \<and> (\<exists>k\<ge>tsc_pos st. et = tsc k - start \<and> tsc_pos st' = k + 1 \<and> dev st' = dev st)"
    by (auto simp: rdtsc_elapse_def bind_eq_Some_conv dest!: elapse_loop_result)
qed

text \<open>
  A closed driver is inert: after close-unvme no operation changes the device, on any kernel.
\<close>

lemma closed_driver_inert:
  "(unvme_write_table K a mem table vl rows tid (close_unvme st) = Some st1 \<longrightarrow> dev st1 = dev st) \<and>
   (unvme_sparse_length_sum K tsc a mp mem flatInd vl bs epr tid q n (close_unvme st) = Some (r, pg, st2) \<longrightarrow> dev st2 = dev st) \<and>
   (unvme_read_embedding K tsc quot a idx vl tid q (close_unvme st) = Some (off, st3) \<longrightarrow> dev st3 = dev st) \<and>
   dev (isp_stats_unvme K (close_unvme st)) = dev st \<and> dev (isp_stats_clear_unvme K (close_unvme st)) = dev st"
proof -
  have c: "\<not> fd_open (close_unvme st)" "dev (close_unvme st) = dev st" by (simp_all add: close_unvme_def)
  then show ?thesis
    using write_table_closed [of K a mem table vl rows tid "close_unvme st" st1]
      sls_closed [of K tsc a mp mem flatInd vl bs epr tid q n "close_unvme st" r pg st2]
      read_embedding_closed [of K tsc quot a idx vl tid q "close_unvme st" off st3]
    by (simp add: isp_stats_unvme_def isp_stats_clear_unvme_def)
qed

end
