(* ===== verification/Ioctl_Tools.thy ===== *)
theory Ioctl_Tools
  imports Unvme_Driver Fork_Model Pattern_Match
begin

text \<open>
  The small tools of \<open>src/ioctl\<close> that submit one request each (\<open>embedding.c\<close>, \<open>embedding_backup.c\<close>,
  \<open>submit_op.c\<close>, \<open>submit_prog.c\<close>, \<open>submit_io.c\<close>, \<open>page_read.c\<close>) or one from each of eight children
  (\<open>submit_op_fork.c\<close>), the counting programs \<open>mywc.c\<close> of \<open>src/ioctl\<close> and \<open>src/pattern_match\<close>, and
  the generator of test pages \<open>src/tpage/gen.c\<close>. The directory \<open>src/pattern_match\<close> holds identical
  copies of \<open>page_read.c\<close>, \<open>submit_io.c\<close> and \<open>submit_op.c\<close>. Clock readings are left out.
\<close>

section \<open>Files\<close>

text \<open>
  \<open>read(fd, buf, n)\<close> from position \<open>pos\<close> of a file: bytes the file does not have stay as they were in
  the buffer. A file that cannot be opened reads as an empty one. \<open>write\<close> at the start of a file that
  was not truncated when it was opened keeps the rest of the file.
\<close>

definition sys_read :: "buffer \<Rightarrow> nat \<Rightarrow> nat \<Rightarrow> buffer \<Rightarrow> buffer \<times> nat" where
  "sys_read file pos n buf = (let bs = take n (drop pos file) in (bs @ drop (length bs) buf, pos + length bs))"

definition file_write :: "buffer \<Rightarrow> buffer \<Rightarrow> buffer" where
  "file_write file bs = bs @ drop (length bs) file"

section \<open>One request\<close>

definition tool_cmd :: "byte \<Rightarrow> cint list \<Rightarrow> u64 \<Rightarrow> u64 \<Rightarrow> cint \<Rightarrow> cint \<Rightarrow> cint \<Rightarrow> cint \<Rightarrow> nvme_passthru_cmd" where
  "tool_cmd opc param md ad len s c12 res = \<lparr>opcode = opc, flags = 0, rsvd1 = 0, nsid = 1, cdw2 = param ! 0,
     cdw3 = param ! 1, metadata = md, addr = ad, metadata_len = 0, data_len = len, cdw10 = s, cdw11 = 0,
     cdw12 = c12, cdw13 = 0, cdw14 = 0, cdw15 = 0, timeout_ms = 0, result = res\<rparr>"

text \<open>\<open>(__u64)param[2] <<32 | param[3]\<close>\<close>

definition param_metadata :: "cint list \<Rightarrow> u64" where
  "param_metadata param = push_bit 32 (scast (param ! 2)) OR scast (param ! 3)"

subsection \<open>embedding and embedding-backup\<close>

text \<open>
  The shift of \<open>param23\<close> is an expression statement whose value is dropped; the argument \<open>slba\<close> is not used.
\<close>

definition embedding_callprog :: "'d kernel \<Rightarrow> cint \<Rightarrow> cint \<Rightarrow> cint list \<Rightarrow> 'd \<Rightarrow> cint \<times> 'd \<times> event list" where
  "embedding_callprog K slba nlb param d =
     (let param23 = scast (param ! 2) OR scast (param ! 3);
          (ret, res, buf, d) = ioctl_io_cmd K (tool_cmd 0x82 param 0 param23 0 1024 (nlb - 1) (-1)) [] d
      in (ret, d, [Printf ''ioctl time : %f\<newline>'' [], Printf ''eBPF result: %d\<newline>'' [res]]))"

text \<open>
  The loop over the arguments stores into an array of five ints; \<open>args\<close> are the values of \<open>atoi\<close> for
  the arguments after the program name.
\<close>

definition store_params :: "cint list \<Rightarrow> cint list option" where
  "store_params args = for_loop (length args)
     (\<lambda>i param. if i < length param then Some (param[i := args ! i]) else None) [0, 0, 0, 0, 0]"

definition embedding_main :: "'d kernel \<Rightarrow> cint list \<Rightarrow> 'd \<Rightarrow> ('d \<times> event list) option" where
  "embedding_main K args d =
     (if length args + 1 < 3 then Some (d, [Printf ''usage: ./embedding [param0] [param1] ...\<newline>'' []])
      else do {
        param \<leftarrow> store_params args;
        let (err, d, out) = embedding_callprog K 1024 1 param d
        in Some (d, out @ [Printf ''error code: 0x%x\<newline>'' [err]]) })"

definition backup_callprog :: "'d kernel \<Rightarrow> u64 \<Rightarrow> cint \<Rightarrow> cint \<Rightarrow> cint list \<Rightarrow> 'd \<Rightarrow> cint \<times> 'd \<times> event list" where
  "backup_callprog K a slba nlb param d =
     (let data = replicate (32768 * 16) 105;
          (ret, res, data, d) = ioctl_io_cmd K (tool_cmd 0x82 param (param_metadata param) a (4096 * nlb) 1024 (nlb - 1) 123) data d
      in (ret, d, [Printf ''ioctl time : %f\<newline>'' [], Printf ''eBPF result: %d\<newline>'' [res]]))"

definition embedding_backup_main :: "'d kernel \<Rightarrow> u64 \<Rightarrow> cint list \<Rightarrow> 'd \<Rightarrow> ('d \<times> event list) option" where
  "embedding_backup_main K a args d =
     (if length args + 1 < 3 then Some (d, [Printf ''usage: ./embedding [param0] [param1] ...\<newline>'' []])
      else do {
        param \<leftarrow> store_params args;
        let (err, d, out) = backup_callprog K a 1024 1 param d
        in Some (d, out @ [Printf ''error code: %d - %x\<newline>'' [err, err]]) })"

subsection \<open>submit-op and submit-prog\<close>

text \<open>
  \<open>submit_op.c\<close> writes to its file what an uninitialised pointer points to: \<open>stale\<close> is that memory, or
  None when the address is not mapped and the write fails.
\<close>

definition submit_op_callprog ::
  "'d kernel \<Rightarrow> buffer option \<Rightarrow> cint \<Rightarrow> cint \<Rightarrow> cint list \<Rightarrow> 'd \<times> buffer \<Rightarrow> cint \<times> ('d \<times> buffer) \<times> event list" where
  "submit_op_callprog K stale slba nlb param st =
     (let (d, read_txt) = st;
          (ret, res, buf, d) = ioctl_io_cmd K (tool_cmd 0x82 param (param_metadata param) 0 0 1024 (nlb - 1) 123) [] d;
          read_txt = (case stale of None \<Rightarrow> read_txt | Some data \<Rightarrow> file_write read_txt (take (unat (4096 * nlb)) data))
      in (ret, (d, read_txt), [Printf ''ioctl time : %f\<newline>'' [], Printf ''eBPF result: %d\<newline>'' [res]]))"

definition submit_op_main :: "'d kernel \<Rightarrow> buffer option \<Rightarrow> 'd \<times> buffer \<Rightarrow> ('d \<times> buffer) \<times> event list" where
  "submit_op_main K stale st =
     (let (err, st, out) = submit_op_callprog K stale 1024 1 [0, 1, 0, 0, 0] st
      in (st, out @ [Printf ''error code: %d\<newline>'' [err]]))"

definition submit_prog_callprog ::
  "'d kernel \<Rightarrow> u64 \<Rightarrow> cint \<Rightarrow> cint \<Rightarrow> cint list \<Rightarrow> 'd \<times> buffer \<Rightarrow> cint \<times> ('d \<times> buffer) \<times> event list" where
  "submit_prog_callprog K a slba nlb param st =
     (let (d, read_txt) = st;
          data = replicate (4096 * 4) 121;
          (ret, res, data, d) = ioctl_io_cmd K (tool_cmd 0x81 param (param_metadata param) a (4096 * nlb) slba (nlb - 1) 2) data d
      in (ret, (d, file_write read_txt (take (unat (4096 * nlb)) data)), [Printf ''ioctl time : %f\<newline>'' []]))"

definition submit_prog_main :: "'d kernel \<Rightarrow> u64 \<Rightarrow> 'd \<times> buffer \<Rightarrow> ('d \<times> buffer) \<times> event list" where
  "submit_prog_main K a st =
     (let (err, st, out) = submit_prog_callprog K a 10 4 [1, 4, 0, 0, 0] st
      in (st, out @ [Printf ''error code: %d\<newline>'' [err]]))"

subsection \<open>submit-io and page-read\<close>

definition tool_read_io :: "u64 \<Rightarrow> nvme_user_io" where
  "tool_read_io data = \<lparr>io_opcode = 0x02, io_flags = 0, control = 0, nblocks = 7, rsvd = 0, io_metadata = 0,
     io_addr = data, io_slba = 1024, dsmgmt = 0, reftag = 0, appmask = 0, apptag = 0\<rparr>"

definition submit_io_main :: "'d kernel \<Rightarrow> cint \<Rightarrow> u64 \<Rightarrow> buffer \<Rightarrow> 'd \<Rightarrow> buffer \<times> 'd \<times> event list" where
  "submit_io_main K fd a data d =
     (let (err, data, d) = ioctl_submit_io K (tool_read_io a) data d
      in (data, d, [Printf ''dev is %d\<newline>'' [fd], Printf ''error code: %x\<newline>'' [err]]))"

text \<open>The loop that prints 32 ints, eight on a line.\<close>

definition print_page :: "buffer \<Rightarrow> event list option" where
  "print_page data = for_loop 32 (\<lambda>i out. do {
     v \<leftarrow> ld32 data i;
     Some (out @ Printf ''%d '' [v] # (if i mod 8 = 7 then [Printf ''\<newline>'' []] else [])) }) []"

definition page_read_callprog ::
  "'d kernel \<Rightarrow> u64 \<Rightarrow> cint \<Rightarrow> cint \<Rightarrow> cint list \<Rightarrow> 'd \<times> buffer \<Rightarrow> (cint \<times> ('d \<times> buffer) \<times> event list) option" where
  "page_read_callprog K a slba nlb param st =
     (let (d, page_txt) = st;
          data = replicate 4096 0;
          (ret, res, data, d) = ioctl_io_cmd K (tool_cmd 0x84 param (param_metadata param) a (4096 * nlb) 1024 0 123) data d
      in do {
        out \<leftarrow> print_page data;
        Some (ret, (d, file_write page_txt (take 4096 data)), out) })"

definition page_read_main :: "'d kernel \<Rightarrow> u64 \<Rightarrow> 'd \<times> buffer \<Rightarrow> (('d \<times> buffer) \<times> event list) option" where
  "page_read_main K a st = do {
     (err, st, out) \<leftarrow> page_read_callprog K a 1024 1 [2, 8, 0, 0, 0] st;
     Some (st, out @ [Printf ''error code: %d\<newline>'' [err]]) }"

section \<open>Eight children\<close>

text \<open>Child \<open>t\<close> gets the first parameter the parent has counted up to, \<open>1 + t\<close>, and submits one request.\<close>

definition fork_callprog :: "'d kernel \<Rightarrow> u64 \<Rightarrow> cint \<Rightarrow> cint \<Rightarrow> cint list \<Rightarrow> 'd \<Rightarrow> cint \<times> 'd" where
  "fork_callprog K a slba nlb param d =
     (let data = replicate (32768 * 16) 105;
          (ret, res, data, d) = ioctl_io_cmd K (tool_cmd 0x82 param (param_metadata param) a (4096 * nlb) slba (nlb - 1) 0) data d
      in (ret, d))"

definition op_fork_body :: "'d kernel \<Rightarrow> u64 \<Rightarrow> nat \<Rightarrow> nat \<Rightarrow> 'd \<times> (cint option \<times> event list) \<Rightarrow> ('d \<times> (cint option \<times> event list)) option" where
  "op_fork_body K a t i st =
     (let (d, status, out) = st;
          (err, d) = fork_callprog K a 1024 1 [1 + of_nat t, 8, 0, 0, 0] d
      in Some (d, Some err, out @ [Printf ''param[0]: %d\<newline>'' [1 + of_nat t], Printf ''ISP request %d\<newline>'' [of_nat t]]))"

inductive submit_op_fork_main :: "'d kernel \<Rightarrow> u64 \<Rightarrow> 'd \<Rightarrow> 'd \<Rightarrow> (cint option \<times> event list) list \<Rightarrow> event list \<Rightarrow> bool" for K a where
  op_fork: "(fork_step (op_fork_body K a) 1)\<^sup>*\<^sup>* (forked 8 (None, []) d) (d', cs) \<Longrightarrow> all_exited 1 (d', cs) \<Longrightarrow>
    submit_op_fork_main K a d d' (map snd cs) [Printf ''time: %f\<newline>'' []]"

inductive_simps submit_op_fork_simps: "submit_op_fork_main K a d d' cs out"

section \<open>Counting programs\<close>

definition mywc_body :: "buffer \<Rightarrow> nat \<Rightarrow> (buffer \<times> nat \<times> cint) \<times> event list \<Rightarrow> ((buffer \<times> nat \<times> cint) \<times> event list) option" where
  "mywc_body file i st =
     (let ((buf, pos, ret), out) = st;
          (buf, pos) = sys_read file pos 4096 buf
      in do {
        cnt \<leftarrow> count_loop 4096 (\<lambda>j. do { c \<leftarrow> ld8 buf j; Some (c \<noteq> 32) }) 0;
        Some ((buf, pos, ret + cnt), out @ [Printf ''%d\<newline>'' [cnt]]) })"

definition mywc_main :: "buffer \<Rightarrow> buffer \<Rightarrow> event list option" where
  "mywc_main read_txt buf = do {
     ((buf, pos, ret), out) \<leftarrow> for_loop 8 (mywc_body read_txt) ((buf, 0, 0), []);
     Some (out @ [Printf ''result: %d\<newline>'' [ret]]) }"

definition pm_mywc_main :: "buffer \<Rightarrow> buffer \<Rightarrow> event list option" where
  "pm_mywc_main data_txt buf =
     (let (buf, pos) = sys_read data_txt 0 32768 buf
      in do {
        cnt \<leftarrow> pm_count (32768 - 10) buf (Lorem @ replicate 5 0) 5 0;
        Some [Printf ''%s: %d\<newline>'' [cnt]] })"

section \<open>Test pages\<close>

definition gen_main :: "buffer \<Rightarrow> buffer \<Rightarrow> buffer option" where
  "gen_main data data_txt = do {
     data \<leftarrow> for_loop (4096 div 4) (\<lambda>i data. st32 data i (of_nat i)) data;
     Some (file_write data_txt (take 4096 data)) }"

section \<open>What the tools compute\<close>

lemma tool_cmd_simps:
  "opcode (tool_cmd opc param md ad len s n r) = opc" "cdw2 (tool_cmd opc param md ad len s n r) = param ! 0"
  "cdw3 (tool_cmd opc param md ad len s n r) = param ! 1" "data_len (tool_cmd opc param md ad len s n r) = len"
  "slba_of (tool_cmd opc param md ad len s n r) = unat s" "nlb_of (tool_cmd opc param md ad len s n r) = unat n + 1"
  "cdw15 (tool_cmd opc param md ad len s n r) = 0"
  by (simp_all add: tool_cmd_def slba_of_def nlb_of_def)

lemma store_params_eq:
  "store_params args = (if length args \<le> 5 then Some (args @ replicate (5 - length args) 0) else None)"
proof -
  let ?f = "\<lambda>i param. if i < length param then Some (param[i := args ! i]) else None"
  have r: "[0, 0, 0, 0, 0] = replicate 5 (0 :: cint)" by (simp add: numeral_eq_Suc)
  have "n \<le> length args \<Longrightarrow> n \<le> 5 \<Longrightarrow> for_loop n ?f (replicate 5 0) = Some (take n args @ replicate (5 - n) 0)" for n
  proof (induction n)
    case (Suc n)
    then have "replicate (5 - n) (0 :: cint) = 0 # replicate (5 - Suc n) 0" by (metis Suc_diff_Suc Suc_le_lessD replicate_Suc)
    with Suc show ?case by (simp add: list_update_append take_Suc_conv_app_nth)
  qed simp
  note loop = this
  show ?thesis
  proof (cases "length args \<le> 5")
    case True
    with loop [of "length args"] show ?thesis unfolding store_params_def r by simp
  next
    case False
    with loop [of 5] have "for_loop (Suc 5) ?f (replicate 5 0) = None" unfolding for_loop.simps(2) by simp
    with False for_loop_fail [of "Suc 5" ?f _ "length args"] show ?thesis unfolding store_params_def r by simp
  qed
qed

lemma print_page_eq:
  assumes "128 \<le> length data"
  shows "print_page data = Some (concat (map (\<lambda>i. Printf ''%d '' [ints_of data ! i] # (if i mod 8 = 7 then [Printf ''\<newline>'' []] else [])) [0..<32]))"
proof -
  let ?L = "\<lambda>i. Printf ''%d '' [ints_of data ! i] # (if i mod 8 = 7 then [Printf ''\<newline>'' []] else [])"
  have "for_loop 32 (\<lambda>i out. do { v \<leftarrow> ld32 data i;
        Some (out @ Printf ''%d '' [v] # (if i mod 8 = 7 then [Printf ''\<newline>'' []] else [])) }) [] =
      for_loop 32 (\<lambda>i out. Some (out @ ?L i)) []"
    using assms by (intro for_loop_cong) (simp_all add: ld32_ints_of)
  also have "\<dots> = Some (concat (map ?L [0..<32]))"
    unfolding for_loop_Some for_do_pair_append by simp
  finally show ?thesis by (simp add: print_page_def)
qed

lemma gen_ints:
  assumes "length data = 4096" "gen_main data data_txt = Some file"
  shows "length file = max 4096 (length data_txt)" "ints_of (take 4096 file) = map of_nat [0..<1024]"
proof -
  have "\<exists>d. for_loop 1024 (\<lambda>i data. st32 data i (of_nat i)) data = Some d \<and> length d = 4096 \<and> (\<forall>k<1024. ints_of d ! k = of_nat k)"
  proof (rule for_loop_inv [where P = "\<lambda>n d. length d = 4096 \<and> (\<forall>k<n. ints_of d ! k = of_nat k)"], goal_cases)
    case (2 i d)
    then obtain d' where d': "st32 d i (of_nat i) = Some d'" using st32_Some [of i d] by auto
    with 2 st32_eq_Some [OF d'] st32_ints_of [OF d'] show ?case by (auto simp: nth_list_update less_Suc_eq)
  qed (simp add: assms(1))
  then obtain d where d: "for_loop 1024 (\<lambda>i data. st32 data i (of_nat i)) data = Some d" "length d = 4096"
    "\<forall>k<1024. ints_of d ! k = of_nat k" by blast
  with assms(2) have "file = d @ drop 4096 data_txt" by (simp add: gen_main_def file_write_def)
  moreover have "ints_of d = map of_nat [0..<1024]" using d(2,3) by (intro nth_equalityI) simp_all
  ultimately show "length file = max 4096 (length data_txt)" "ints_of (take 4096 file) = map of_nat [0..<1024]"
    using d(2) by simp_all
qed

lemma gen_returns:
  assumes "length data = 4096"
  shows "\<exists>file. gen_main data data_txt = Some file"
proof -
  have "\<exists>d. for_loop 1024 (\<lambda>i data. st32 data i (of_nat i)) data = Some d \<and> length d = 4096"
  proof (rule for_loop_inv, goal_cases)
    case (2 i d)
    then obtain d' where d': "st32 d i (of_nat i) = Some d'" using st32_Some [of i d] by auto
    with 2 st32_eq_Some [OF d'] show ?case by simp
  qed (simp add: assms)
  then show ?thesis by (auto simp: gen_main_def)
qed

subsection \<open>Counting\<close>

lemma sys_read_full:
  "pos + n \<le> length file \<Longrightarrow> sys_read file pos n buf = (take n (drop pos file) @ drop n buf, pos + n)"
  by (simp add: sys_read_def Let_def)

lemma mywc_loop:
  assumes "32768 \<le> length file" "length buf = 5000" "n \<le> 8"
  shows "\<exists>buf' cnts. for_loop n (mywc_body file) ((buf, 0, 0), []) =
      Some ((buf', 4096 * n, of_nat (length (filter (\<lambda>c. c \<noteq> 32) (take (4096 * n) file)))), map (\<lambda>c. Printf ''%d\<newline>'' [c]) cnts) \<and>
    length buf' = 5000 \<and> length cnts = n"
  using assms(3)
proof (induction n)
  case (Suc n)
  let ?N = "\<lambda>xs. of_nat (length (filter (\<lambda>c. c \<noteq> 32) xs)) :: cint" and ?p = "take 4096 (drop (4096 * n) file)"
  from Suc obtain buf1 cnts where ih: "for_loop n (mywc_body file) ((buf, 0, 0), []) =
      Some ((buf1, 4096 * n, ?N (take (4096 * n) file)), map (\<lambda>c. Printf ''%d\<newline>'' [c]) cnts)" "length buf1 = 5000" "length cnts = n"
    by auto
  have pos: "4096 * n + 4096 \<le> length file" using assms(1) Suc.prems by linarith
  have len: "length ?p = 4096" using pos by simp
  have "count_loop 4096 (\<lambda>j. do { c \<leftarrow> ld8 (?p @ drop 4096 buf1) j; Some (c \<noteq> 32) }) 0 = Some (?N ?p)"
    using count_loop_filter [of 4096 "?p @ drop 4096 buf1" "\<lambda>c. c \<noteq> 32"] len by simp
  then have "mywc_body file n ((buf1, 4096 * n, ?N (take (4096 * n) file)), map (\<lambda>c. Printf ''%d\<newline>'' [c]) cnts) =
      Some ((?p @ drop 4096 buf1, 4096 * n + 4096, ?N (take (4096 * n) file) + ?N ?p), map (\<lambda>c. Printf ''%d\<newline>'' [c]) (cnts @ [?N ?p]))"
    unfolding mywc_body_def using sys_read_full [OF pos, of buf1] by simp
  moreover have "take (4096 * Suc n) file = take (4096 * n) file @ ?p" by (simp add: take_add [symmetric] add.commute)
  then have "?N (take (4096 * n) file) + ?N ?p = ?N (take (4096 * Suc n) file)" by simp
  ultimately show ?case using ih len by (intro exI [of _ "?p @ drop 4096 buf1"] exI [of _ "cnts @ [?N ?p]"]) (simp add: add.commute)
qed (use assms(2) in simp)

lemma pm_mywc_count:
  assumes "32768 \<le> length file"
  shows "pm_mywc_main file buf = Some [Printf ''%s: %d\<newline>'' [of_nat (card {i. i < 32758 \<and> matches_at Lorem (take 32768 file) i})]]"
proof -
  let ?b = "take 32768 file @ drop 32768 buf"
  have L: "Lorem \<noteq> []" by (simp add: Lorem_def)
  have "pm_count 32758 ?b (Lorem @ replicate 5 0) (length Lorem) 0 = Some (0 + of_nat (card {i. i < 32758 \<and> matches_at Lorem ?b i}))"
    unfolding pm_count_def
  proof (rule count_loop_eq, rule word_test)
    fix i :: nat
    assume "i < 32758"
    then show "i + length Lorem \<le> length ?b" using assms by simp
  qed (simp_all add: L Lorem_no_NUL)
  moreover have "matches_at Lorem ?b i = matches_at Lorem (take 32768 file) i" if "i < 32758" for i
    using assms that by (intro matches_at_append1) simp
  then have "{i. i < 32758 \<and> matches_at Lorem ?b i} = {i. i < 32758 \<and> matches_at Lorem (take 32768 file) i}" by blast
  ultimately show ?thesis unfolding pm_mywc_main_def using sys_read_full [of 0 32768 "file" buf] assms by simp
qed

section \<open>Runs with embedding32 inserted\<close>

text \<open>What the children of \<open>submit_op_fork.c\<close> print and return.\<close>

definition fork_lines :: "nat \<Rightarrow> event list" where
  "fork_lines t = [Printf ''param[0]: %d\<newline>'' [1 + of_nat t], Printf ''ISP request %d\<newline>'' [of_nat t]]"

context emb_ssd
begin

lemma embedding_run:
  assumes "ok d" "1025 \<le> cap" "unat r < 32"
  obtains d' where "embedding_main K [r, e] d = Some (d', [Printf ''ioctl time : %f\<newline>'' [], Printf ''eBPF result: %d\<newline>'' [0],
      Printf ''error code: 0x%x\<newline>'' [0]])" "ok d'" "blk d' = blk d"
    "\<And>k. k < 1024 \<Longrightarrow> ints_of (page d' 0) ! k = ints_of (page d 0) ! k +
       (if unat r = k div 32 then ints_of (blk d 1024) ! (32 * (unat e mod 32) + k mod 32) else 0)"
proof -
  define param where "param = [r, e, 0, 0, 0]"
  have store: "store_params [r, e] = Some param" by (simp add: store_params_eq param_def numeral_eq_Suc)
  define ad :: u64 where "ad = scast (param ! 2) OR scast (param ! 3)"
  let ?c = "tool_cmd 0x82 param 0 ad 0 1024 (1 - 1) (- 1)"
  have p: "param ! 0 = r" "param ! 1 = e" by (simp_all add: param_def)
  have c: "slba_of ?c + nlb_of ?c \<le> cap" "unat (cdw2 ?c) < 32" using assms(2,3) by (simp_all add: tool_cmd_simps p)
  from emb_request [OF assms(1) tool_cmd_simps(1) c, of "[]"] obtain buf' d' pg where
    d': "ioctl_io_cmd K ?c [] d = (0, 0, buf', d')" "ok d'" "blk d' = blk d" "page d' = (page d)(unat (cdw15 ?c) := pg)"
    "\<And>k. k < 1024 \<Longrightarrow> ints_of pg ! k = ints_of (page d (unat (cdw15 ?c))) ! k + (if unat (cdw2 ?c) = k div 32
       then ints_of (extent (blk d) (slba_of ?c) (nlb_of ?c)) ! (32 * (unat (cdw3 ?c) mod 32) + k mod 32) else 0)" by metis
  have "embedding_main K [r, e] d = Some (d', [Printf ''ioctl time : %f\<newline>'' [], Printf ''eBPF result: %d\<newline>'' [0],
      Printf ''error code: 0x%x\<newline>'' [0]])"
    unfolding embedding_main_def store Option.bind.simps embedding_callprog_def ad_def [symmetric] Let_def d'(1) by simp
  moreover have q: "extent (blk d) (slba_of ?c) (nlb_of ?c) = blk d 1024" by (simp add: tool_cmd_simps)
  have "page d' 0 = pg" by (simp add: d'(4) tool_cmd_simps)
  ultimately show thesis using that [of d'] d'(2,3) d'(5) [unfolded q tool_cmd_simps p unat_0] by simp
qed

lemma page_read_run:
  assumes "ok d"
  obtains d' where "page_read_main K a (d, page_txt) = Some ((d', file_write page_txt (page d 0)),
      concat (map (\<lambda>i. Printf ''%d '' [ints_of (page d 0) ! i] # (if i mod 8 = 7 then [Printf ''\<newline>'' []] else [])) [0..<32]) @
      [Printf ''error code: %d\<newline>'' [0]])" "ok d'" "blk d' = blk d" "page d' = page d"
proof -
  define param :: "cint list" where "param = [2, 8, 0, 0, 0]"
  let ?c = "tool_cmd 0x84 param (param_metadata param) a (4096 * 1) 1024 0 123"
  from map_read_run [OF assms, of ?c "replicate 4096 0"] obtain res d' where
    d': "ioctl_io_cmd K ?c (replicate 4096 0) d = (0, res, page d (unat (cdw15 ?c)), d')" "ok d'" "blk d' = blk d" "page d' = page d"
    by (auto simp: tool_cmd_simps)
  have len: "length (page d 0) = 4096" by (rule page_length [OF assms])
  have "page_read_callprog K a 1024 1 param (d, page_txt) = Some (0, (d', file_write page_txt (page d 0)),
      concat (map (\<lambda>i. Printf ''%d '' [ints_of (page d 0) ! i] # (if i mod 8 = 7 then [Printf ''\<newline>'' []] else [])) [0..<32]))"
    unfolding page_read_callprog_def using d'(1) len print_page_eq [of "page d 0"] by (simp only: Let_def split_conv tool_cmd_simps) simp
  then have "page_read_main K a (d, page_txt) = Some ((d', file_write page_txt (page d 0)),
      concat (map (\<lambda>i. Printf ''%d '' [ints_of (page d 0) ! i] # (if i mod 8 = 7 then [Printf ''\<newline>'' []] else [])) [0..<32]) @
      [Printf ''error code: %d\<newline>'' [0]])"
    unfolding page_read_main_def param_def [symmetric] by (simp only: Option.bind.simps split_conv)
  with d'(2-) that show thesis by blast
qed

text \<open>How far the children are determines the map page.\<close>

definition fork_inv :: "'d \<Rightarrow> nat list \<Rightarrow> 'd \<Rightarrow> bool" where
  "fork_inv d ks e \<longleftrightarrow> ok e \<and> blk e = blk d \<and> (\<forall>k<1024. ints_of (page e 0) ! k = ints_of (page d 0) ! k +
     (if 1 \<le> k div 32 \<and> k div 32 \<le> 8 \<and> ks ! (k div 32 - 1) = 1 then ints_of (blk d 1024) ! (256 + k mod 32) else 0))"

lemma fork_inv_start: "ok d \<Longrightarrow> fork_inv d (replicate 8 0) d"
  by (auto simp: fork_inv_def)

lemma op_fork_step:
  assumes "fork_inv d ks e" "1025 \<le> cap" "t < 8" "length ks = 8" "ks ! t = 0"
  shows "\<exists>e'. op_fork_body K a t 0 (e, c) = Some (e', Some 0, snd c @ fork_lines t) \<and> fork_inv d (ks[t := 1]) e'"
proof -
  define param :: "cint list" where "param = [1 + of_nat t, 8, 0, 0, 0]"
  let ?c = "tool_cmd 0x82 param (param_metadata param) a (4096 * 1) 1024 (1 - 1) 0"
  from assms(1) have e: "ok e" "blk e = blk d" "\<And>k. k < 1024 \<Longrightarrow> ints_of (page e 0) ! k = ints_of (page d 0) ! k +
     (if 1 \<le> k div 32 \<and> k div 32 \<le> 8 \<and> ks ! (k div 32 - 1) = 1 then ints_of (blk d 1024) ! (256 + k mod 32) else 0)"
    by (simp_all add: fork_inv_def)
  have "(1 + of_nat t :: cint) = of_nat (1 + t)" by simp
  then have u: "unat (1 + of_nat t :: cint) = 1 + t" using assms(3) by (simp only: unat_of_nat_cint)
  have p: "param ! 0 = 1 + of_nat t" "param ! 1 = 8" by (simp_all add: param_def)
  have c: "slba_of ?c + nlb_of ?c \<le> cap" "unat (cdw2 ?c) < 32" using assms(2,3) by (simp_all add: tool_cmd_simps p u)
  from emb_request [OF e(1) tool_cmd_simps(1) c, of "replicate (32768 * 16) 105"] obtain buf' e' pg where
    e': "ioctl_io_cmd K ?c (replicate (32768 * 16) 105) e = (0, 0, buf', e')" "ok e'" "blk e' = blk e" "page e' = (page e)(unat (cdw15 ?c) := pg)"
    "\<And>k. k < 1024 \<Longrightarrow> ints_of pg ! k = ints_of (page e (unat (cdw15 ?c))) ! k + (if unat (cdw2 ?c) = k div 32
       then ints_of (extent (blk e) (slba_of ?c) (nlb_of ?c)) ! (32 * (unat (cdw3 ?c) mod 32) + k mod 32) else 0)" by metis
  have pg: "ints_of (page e' 0) ! k = ints_of (page e 0) ! k + (if 1 + t = k div 32 then ints_of (blk d 1024) ! (256 + k mod 32) else 0)"
    if "k < 1024" for k
  proof -
    have q: "extent (blk e) (slba_of ?c) (nlb_of ?c) = blk d 1024" by (simp add: tool_cmd_simps e(2))
    have "page e' 0 = pg" by (simp add: e'(4) tool_cmd_simps)
    then show ?thesis using e'(5) [OF that, unfolded q tool_cmd_simps p u unat_0] by (simp add: e(2))
  qed
  have "ints_of (page e' 0) ! k = ints_of (page d 0) ! k +
     (if 1 \<le> k div 32 \<and> k div 32 \<le> 8 \<and> ks[t := 1] ! (k div 32 - 1) = 1 then ints_of (blk d 1024) ! (256 + k mod 32) else 0)"
    if "k < 1024" for k
    using pg [OF that] e(3) [OF that] assms(3-5) by (cases "1 + t = k div 32") (auto simp: nth_list_update)
  then have "fork_inv d (ks[t := 1]) e'" using e' e(2) by (simp add: fork_inv_def)
  moreover have "fork_callprog K a 1024 1 param e = (0, e')" unfolding fork_callprog_def Let_def e'(1) by simp
  then have "op_fork_body K a t 0 (e, c) = Some (e', Some 0, snd c @ fork_lines t)"
    unfolding op_fork_body_def param_def [symmetric] fork_lines_def by (cases c) simp
  ultimately show ?thesis by blast
qed

lemma op_fork_workers:
  assumes "1025 \<le> cap"
  shows "workers (op_fork_body K a) 1 8 (None, []) (fork_inv d) (\<lambda>_. True) (\<lambda>t i c. (Some 0, snd c @ fork_lines t))"
proof (unfold_locales, goal_cases)
  case (2 ks e t c)
  then have "ks ! t = 0" by simp
  with op_fork_step [of d ks e t a c] 2 assms show ?case by simp
qed simp

end

section \<open>Properties\<close>

text \<open>
  C22: \<open>mywc\<close> on the host counts what \<open>wc\<close> counts in the SSD. On a file of at least 32 KB it prints eight counts and a
  result, and the result is the value wc returns for a request whose data begins with the same bytes.
\<close>

theorem mywc_agrees_with_wc:
  assumes "32768 \<le> length read_txt" "length buf = 5000" "take 32768 (ctx_data ctx) = take 32768 read_txt"
  shows "\<exists>cnts n. mywc_main read_txt buf = Some (map (\<lambda>c. Printf ''%d\<newline>'' [c]) cnts @ [Printf ''result: %d\<newline>'' [n]]) \<and>
    length cnts = 8 \<and> wc ctx = Some (n, ctx_map_page ctx)"
proof -
  let ?n = "of_nat (length (filter (\<lambda>c. c \<noteq> 32) (take 32768 read_txt))) :: cint"
  obtain buf' cnts where l: "for_loop 8 (mywc_body read_txt) ((buf, 0, 0), []) =
      Some ((buf', 4096 * 8, ?n), map (\<lambda>c. Printf ''%d\<newline>'' [c]) cnts)" "length cnts = 8"
    using mywc_loop [OF assms(1,2), of 8] by auto
  have "length (take 32768 (ctx_data ctx)) = 32768" using assms(1,3) by simp
  then have "32768 \<le> length (ctx_data ctx)" by simp
  with wc_eq [of ctx] assms(3) have "wc ctx = Some (?n, ctx_map_page ctx)" by simp
  with l show ?thesis by (intro exI [of _ cnts] exI [of _ ?n]) (simp add: mywc_main_def)
qed

theorem mywc_agrees_with_wc_witness:
  "\<exists>cnts n. mywc_main (replicate 40000 65) (replicate 5000 0) = Some (map (\<lambda>c. Printf ''%d\<newline>'' [c]) cnts @ [Printf ''result: %d\<newline>'' [n]]) \<and>
    length cnts = 8 \<and> wc \<lparr>param0 = 0, param1 = 0, param2 = 0, param3 = 0, param4 = 0, ctx_data = replicate 32768 65,
      ctx_map_page = []\<rparr> = Some (n, [])"
  using mywc_agrees_with_wc [of "replicate 40000 65" "replicate 5000 0" "\<lparr>param0 = 0, param1 = 0, param2 = 0, param3 = 0,
    param4 = 0, ctx_data = replicate 32768 65, ctx_map_page = []\<rparr>"] by simp

text \<open>
  The counting program of \<open>src/pattern_match\<close> stops ten bytes before the end of the 32 KB it reads: what it prints and
  the occurrences that begin in the last ten bytes make up all occurrences.
\<close>

lemma pm_mywc_misses_tail:
  assumes "32768 \<le> length data_txt"
  shows "\<exists>n. pm_mywc_main data_txt buf = Some [Printf ''%s: %d\<newline>'' [of_nat n]] \<and>
    occurrences Lorem (take 32768 data_txt) = n + card {i. 32758 \<le> i \<and> i < 32764 \<and> matches_at Lorem (take 32768 data_txt) i}"
proof -
  let ?m = "matches_at Lorem (take 32768 data_txt)"
  have "occurrences Lorem (take 32768 data_txt) = card {i. i < 32764 \<and> ?m i}"
    using occurrences_prefix [of Lorem "take 32768 data_txt"] assms by simp
  also have "{i. i < 32764 \<and> ?m i} = {i. i < 32758 \<and> ?m i} \<union> {i. 32758 \<le> i \<and> i < 32764 \<and> ?m i}" by auto
  also have "card \<dots> = card {i. i < 32758 \<and> ?m i} + card {i. 32758 \<le> i \<and> i < 32764 \<and> ?m i}"
    by (rule card_Un_disjoint) auto
  finally show ?thesis using pm_mywc_count [OF assms, of buf] by blast
qed

text \<open>
  Test page, embedding and page read together. When block 1024 holds the page that \<open>gen\<close> of \<open>src/tpage\<close> wrote and the
  map page is clear, \<open>embedding 0 e\<close> reports no error and \<open>page_read\<close> then prints the 32 numbers from 32 times (e mod 32) on.
\<close>

lemma test_page_embedding:
  assumes "emb_ssd K ok blk page rest cap" "ok d" "1025 \<le> cap" "length data = 4096"
    and "gen_main data [] = Some (blk d 1024)" "page d 0 = replicate 4096 0"
  shows "\<exists>d1 d2 page_txt'. embedding_main K [0, e] d = Some (d1, [Printf ''ioctl time : %f\<newline>'' [], Printf ''eBPF result: %d\<newline>'' [0],
      Printf ''error code: 0x%x\<newline>'' [0]]) \<and>
    page_read_main K a (d1, page_txt) = Some ((d2, page_txt'),
      concat (map (\<lambda>i. Printf ''%d '' [of_nat (32 * (unat e mod 32) + i)] # (if i mod 8 = 7 then [Printf ''\<newline>'' []] else [])) [0..<32]) @
      [Printf ''error code: %d\<newline>'' [0]])"
proof -
  from emb_ssd.embedding_run [OF assms(1-3), of 0 e] obtain d1 where
    d1: "embedding_main K [0, e] d = Some (d1, [Printf ''ioctl time : %f\<newline>'' [], Printf ''eBPF result: %d\<newline>'' [0], Printf ''error code: 0x%x\<newline>'' [0]])"
      "ok d1" "\<And>k. k < 1024 \<Longrightarrow> ints_of (page d1 0) ! k = ints_of (page d 0) ! k +
       (if unat 0 = k div 32 then ints_of (blk d 1024) ! (32 * (unat e mod 32) + k mod 32) else 0)" by auto
  have g: "ints_of (blk d 1024) = map of_nat [0..<1024]" using gen_ints [OF assms(4,5)] by simp
  have v: "ints_of (page d1 0) ! i = of_nat (32 * (unat e mod 32) + i)" if "i < 32" for i
  proof -
    have "32 * (unat e mod 32) + i < 1024" using that mod_less_divisor [of 32 "unat e"] by linarith
    with d1(3) [of i] that show ?thesis by (simp add: g assms(6) del: of_nat_add of_nat_mult)
  qed
  then have L: "map (\<lambda>i. Printf ''%d '' [ints_of (page d1 0) ! i] # (if i mod 8 = 7 then [Printf ''\<newline>'' []] else [])) [0..<32] =
      map (\<lambda>i. Printf ''%d '' [of_nat (32 * (unat e mod 32) + i)] # (if i mod 8 = 7 then [Printf ''\<newline>'' []] else [])) [0..<32]"
    by (intro map_cong) (simp_all del: of_nat_add of_nat_mult)
  from emb_ssd.page_read_run [OF assms(1) d1(2), of a page_txt] d1(1) show ?thesis unfolding L by blast
qed

definition test_page :: buffer where
  "test_page = bytes_of (map of_nat [0..<1024])"

lemma gen_main_test_page: "gen_main (replicate 4096 0) [] = Some test_page"
proof -
  obtain g where f: "gen_main (replicate 4096 0) [] = Some g" using gen_returns [of "replicate 4096 0" "[]"] by auto
  from gen_ints [OF _ f] have "length g = 4096" "ints_of (take 4096 g) = map of_nat [0..<1024]" by simp_all
  then have "g = test_page" using ints_of_inject [of g test_page] by (simp add: test_page_def)
  with f show ?thesis by simp
qed

text \<open>
  \<open>embedding\<close> and \<open>embedding_backup\<close> store their arguments into an array of five: on any kernel they leave the array
  exactly when they get more than five arguments.
\<close>

lemma embedding_args_safe_iff:
  "(embedding_main K args d = None \<longleftrightarrow> 5 < length args) \<and> (embedding_backup_main K a args d = None \<longleftrightarrow> 5 < length args)"
  by (auto simp: embedding_main_def embedding_backup_main_def store_params_eq split: prod.splits)

text \<open>
  C29: The children of \<open>submit_op_fork\<close> may run in any order. With embedding32 inserted a run to the end exists, and after every
  such run each child has printed its two lines and exited with 0, and slots 1 to 8 of the map page have
  gained row 8 of block 1024, each once.
\<close>

theorem submit_op_fork_any_order:
  assumes "emb_ssd K ok blk page rest cap" "ok d" "1025 \<le> cap"
  shows "(\<exists>e cs out. submit_op_fork_main K a d e cs out) \<and>
    (\<forall>e cs out. submit_op_fork_main K a d e cs out \<longrightarrow> cs = map (\<lambda>t. (Some 0, fork_lines t)) [0..<8] \<and> blk e = blk d \<and>
      (\<forall>k<1024. ints_of (page e 0) ! k = ints_of (page d 0) ! k +
        (if 1 \<le> k div 32 \<and> k div 32 \<le> 8 then ints_of (blk d 1024) ! (256 + k mod 32) else 0)))"
proof (intro conjI allI impI)
  note w = emb_ssd.op_fork_workers [OF assms(1,3), of a d]
  note start = emb_ssd.fork_inv_start [OF assms(1,2)]
  from workers.run_exists [OF w workers.good_forked [OF w start]] obtain st where
    "(fork_step (op_fork_body K a) 1)\<^sup>*\<^sup>* (forked 8 (None, []) d) st" "all_exited 1 st" by blast
  then show "\<exists>e cs out. submit_op_fork_main K a d e cs out" using submit_op_fork_main.op_fork [of K a d] by (metis surj_pair)
  fix e cs out
  assume "submit_op_fork_main K a d e cs out"
  then obtain cs' where r: "(fork_step (op_fork_body K a) 1)\<^sup>*\<^sup>* (forked 8 (None, []) d) (e, cs')" "all_exited 1 (e, cs')" "cs = map snd cs'"
    by (auto simp: submit_op_fork_simps)
  from workers.run_result [OF w r(1) start r(2)] have "cs = map (\<lambda>t. workers.priv (None, []) (\<lambda>t i c. (Some 0, snd c @ fork_lines t)) t 1) [0..<8]"
    and i: "emb_ssd.fork_inv ok blk page d (replicate 8 1) e" using r(3) by simp_all
  then show "cs = map (\<lambda>t. (Some 0, fork_lines t)) [0..<8]" by (simp add: workers.priv.simps [OF w])
  from i show "blk e = blk d" by (simp add: emb_ssd.fork_inv_def [OF assms(1)])
  fix k :: nat
  assume "k < 1024"
  with i show "ints_of (page e 0) ! k = ints_of (page d 0) ! k +
      (if 1 \<le> k div 32 \<and> k div 32 \<le> 8 then ints_of (blk d 1024) ! (256 + k mod 32) else 0)"
    by (auto simp: emb_ssd.fork_inv_def [OF assms(1)])
qed

theorem submit_op_fork_any_order_witness:
  "\<exists>e cs out. submit_op_fork_main (ssd_kernel 300000 embedding32) 0 ones_ssd e cs out \<and> cs = map (\<lambda>t. (Some 0, fork_lines t)) [0..<8] \<and>
     (\<forall>k<1024. ints_of (ssd_page e 0) ! k = ints_of (ssd_page ones_ssd 0) ! k +
        (if 1 \<le> k div 32 \<and> k div 32 \<le> 8 then ints_of (ssd_blk ones_ssd 1024) ! (256 + k mod 32) else 0))"
proof -
  have "1025 \<le> (300000 :: nat)" by simp
  from submit_op_fork_any_order [OF ssd_emb_ref ssd_ok_ones this, of 0] show ?thesis by blast
qed

end
