(* ===== verification/Fio_Sync.thy ===== *)
theory Fio_Sync
  imports Reference_Ssd
begin

text \<open>
  The synchronous engines of fio that the repository changes, \<open>src/fio/engines/sync.c\<close>: \<open>sync\<close> (lseek and
  read), \<open>psync\<close>, \<open>pvsync\<close> and \<open>pvsync2\<close> (pread) and the repository's own \<open>ispsync\<close>, which turns a read into
  a program request to the SSD; with the helpers they call from \<open>io_u.c\<close>, \<open>io_ddir.h\<close> and \<open>fio.h\<close>. The
  engine \<open>vsync\<close> is in theory Fio-Vsync.

  The system calls are a parameter: a record of functions over an unknown system state. A \<open>ssize_t\<close> is a
  64-bit word; \<open>int ret\<close> is its low half. The file of an io-u is a number. Zoned block devices, parent
  threads and log messages are left out; \<open>td->error\<close> is modelled.
\<close>

section \<open>Requests, threads and the operating system\<close>

datatype fio_ddir = DDIR_READ | DDIR_WRITE | DDIR_TRIM | DDIR_SYNC | DDIR_DATASYNC | DDIR_SYNC_FILE_RANGE |
  DDIR_WAIT | DDIR_LAST | DDIR_INVAL

definition ddir_sync :: "fio_ddir \<Rightarrow> bool" where
  "ddir_sync d \<longleftrightarrow> d = DDIR_SYNC \<or> d = DDIR_DATASYNC \<or> d = DDIR_SYNC_FILE_RANGE"

definition ddir_rw :: "fio_ddir \<Rightarrow> bool" where
  "ddir_rw d \<longleftrightarrow> d = DDIR_READ \<or> d = DDIR_WRITE \<or> d = DDIR_TRIM"

datatype fio_q_status = FIO_Q_COMPLETED | FIO_Q_QUEUED | FIO_Q_BUSY

record io_u =
  u_ddir :: fio_ddir
  u_file :: nat
  u_offset :: u64
  xfer_buf :: buffer
  xfer_buflen :: u64
  resid :: u64
  u_error :: cint

record 'k fio_td =
  sys :: 'k
  engine_pos :: "nat \<Rightarrow> u64"
  td_error :: cint
  opt_write :: bool
  opt_trim :: bool
  write_range :: "nat \<Rightarrow> u64 \<times> u64"

text \<open>
  The system calls get the file, the user's buffer and its length where they transfer data; a vector of
  one buffer and flags in the case of \<open>preadv2\<close> and \<open>pwritev2\<close> (flags 0 for \<open>preadv\<close> and \<open>pwritev\<close>).
\<close>

record 'k fio_os =
  os_read :: "nat \<Rightarrow> buffer \<Rightarrow> u64 \<Rightarrow> 'k \<Rightarrow> u64 \<times> buffer \<times> 'k"
  os_write :: "nat \<Rightarrow> buffer \<Rightarrow> u64 \<Rightarrow> 'k \<Rightarrow> u64 \<times> 'k"
  os_pread :: "nat \<Rightarrow> buffer \<Rightarrow> u64 \<Rightarrow> u64 \<Rightarrow> 'k \<Rightarrow> u64 \<times> buffer \<times> 'k"
  os_pwrite :: "nat \<Rightarrow> buffer \<Rightarrow> u64 \<Rightarrow> u64 \<Rightarrow> 'k \<Rightarrow> u64 \<times> 'k"
  os_preadv2 :: "nat \<Rightarrow> buffer \<Rightarrow> u64 \<Rightarrow> u64 \<Rightarrow> cint \<Rightarrow> 'k \<Rightarrow> u64 \<times> buffer \<times> 'k"
  os_pwritev2 :: "nat \<Rightarrow> buffer \<Rightarrow> u64 \<Rightarrow> u64 \<Rightarrow> cint \<Rightarrow> 'k \<Rightarrow> u64 \<times> 'k"
  os_readv :: "nat \<Rightarrow> buffer list \<Rightarrow> 'k \<Rightarrow> u64 \<times> buffer list \<times> 'k"
  os_writev :: "nat \<Rightarrow> buffer list \<Rightarrow> 'k \<Rightarrow> u64 \<times> 'k"
  os_lseek :: "nat \<Rightarrow> u64 \<Rightarrow> 'k \<Rightarrow> u64 \<times> 'k"
  os_discard :: "nat \<Rightarrow> u64 \<Rightarrow> u64 \<Rightarrow> 'k \<Rightarrow> cint \<times> 'k"
  os_fsync :: "nat \<Rightarrow> 'k \<Rightarrow> cint \<times> 'k"
  os_fdatasync :: "nat \<Rightarrow> 'k \<Rightarrow> cint \<times> 'k"
  os_sync_file_range :: "nat \<Rightarrow> u64 \<Rightarrow> u64 \<Rightarrow> 'k \<Rightarrow> cint \<times> 'k"
  os_errno :: "'k \<Rightarrow> cint"

section \<open>Helpers\<close>

text \<open>The first error of a thread is kept.\<close>

definition td_verror :: "cint \<Rightarrow> 'k fio_td \<Rightarrow> 'k fio_td" where
  "td_verror e td = (if td_error td \<noteq> 0 then td else td\<lparr>td_error := e\<rparr>)"

definition fio_ro_check :: "'k fio_td \<Rightarrow> io_u \<Rightarrow> bool" where
  "fio_ro_check td u \<longleftrightarrow> \<not> (u_ddir u = DDIR_WRITE \<and> \<not> opt_write td) \<and> \<not> (u_ddir u = DDIR_TRIM \<and> \<not> opt_trim td)"

definition do_sync_file_range :: "'k fio_os \<Rightarrow> nat \<Rightarrow> 'k fio_td \<Rightarrow> cint \<times> 'k fio_td" where
  "do_sync_file_range S f td =
     (let (first_write, last_write) = write_range td f; nbytes = last_write - first_write
      in if nbytes = 0 then (0, td)
         else let (ret, k) = os_sync_file_range S f first_write nbytes (sys td) in (ret, td\<lparr>sys := k\<rparr>))"

definition do_io_u_sync :: "'k fio_os \<Rightarrow> 'k fio_td \<Rightarrow> io_u \<Rightarrow> cint \<times> io_u \<times> 'k fio_td" where
  "do_io_u_sync S td u =
     (let (ret, u, td) =
        (if u_ddir u = DDIR_SYNC then let (ret, k) = os_fsync S (u_file u) (sys td) in (ret, u, td\<lparr>sys := k\<rparr>)
         else if u_ddir u = DDIR_DATASYNC then let (ret, k) = os_fdatasync S (u_file u) (sys td) in (ret, u, td\<lparr>sys := k\<rparr>)
         else if u_ddir u = DDIR_SYNC_FILE_RANGE then let (ret, td) = do_sync_file_range S (u_file u) td in (ret, u, td)
         else (ucast (xfer_buflen u), u\<lparr>u_error := 22\<rparr>, td))
      in (ret, if sint ret < 0 then u\<lparr>u_error := os_errno S (sys td)\<rparr> else u, td))"

definition os_trim :: "'k fio_os \<Rightarrow> nat \<Rightarrow> u64 \<Rightarrow> u64 \<Rightarrow> 'k \<Rightarrow> cint \<times> 'k" where
  "os_trim S f start len k =
     (let (ret, k) = os_discard S f start len k in if ret = 0 then (0, k) else (os_errno S k, k))"

definition do_io_u_trim :: "'k fio_os \<Rightarrow> 'k fio_td \<Rightarrow> io_u \<Rightarrow> cint \<times> io_u \<times> 'k fio_td" where
  "do_io_u_trim S td u =
     (let (ret, k) = os_trim S (u_file u) (u_offset u) (xfer_buflen u) (sys td); td = td\<lparr>sys := k\<rparr>
      in if ret = 0 then (ucast (xfer_buflen u), u, td) else (0, u\<lparr>u_error := ret\<rparr>, td))"

section \<open>The engines sync, psync, pvsync and pvsync2\<close>

definition fio_syncio_prep :: "'k fio_os \<Rightarrow> 'k fio_td \<Rightarrow> io_u \<Rightarrow> cint \<times> 'k fio_td" where
  "fio_syncio_prep S td u =
     (let f = u_file u in
      if \<not> ddir_rw (u_ddir u) then (0, td)
      else if engine_pos td f \<noteq> -1 \<and> engine_pos td f = u_offset u then (0, td)
      else
        (let (r, k) = os_lseek S f (u_offset u) (sys td); td = td\<lparr>sys := k\<rparr>
         in if r = -1 then (1, td_verror (os_errno S k) td) else (0, td)))"

definition fio_io_end :: "'k fio_os \<Rightarrow> 'k fio_td \<Rightarrow> io_u \<Rightarrow> cint \<Rightarrow> fio_q_status \<times> io_u \<times> 'k fio_td" where
  "fio_io_end S td u ret =
     (let td = (if 0 \<le> sint ret \<and> ddir_rw (u_ddir u)
                then td\<lparr>engine_pos := (engine_pos td)(u_file u := u_offset u + scast ret)\<rparr> else td)
      in if ret \<noteq> ucast (xfer_buflen u) \<and> 0 \<le> sint ret
         then (FIO_Q_COMPLETED, u\<lparr>resid := xfer_buflen u - scast ret, u_error := 0\<rparr>, td)
         else
           (let u = (if ret \<noteq> ucast (xfer_buflen u) then u\<lparr>u_error := os_errno S (sys td)\<rparr> else u)
            in (FIO_Q_COMPLETED, u, if u_error u \<noteq> 0 then td_verror (u_error u) td else td)))"

definition fio_pvsyncio_queue :: "'k fio_os \<Rightarrow> 'k fio_td \<Rightarrow> io_u \<Rightarrow> (fio_q_status \<times> io_u \<times> 'k fio_td) option" where
  "fio_pvsyncio_queue S td u =
     (if \<not> fio_ro_check td u then None
      else if u_ddir u = DDIR_READ then
        let (r, b, k) = os_preadv2 S (u_file u) (xfer_buf u) (xfer_buflen u) (u_offset u) 0 (sys td)
        in Some (fio_io_end S (td\<lparr>sys := k\<rparr>) (u\<lparr>xfer_buf := b\<rparr>) (ucast r))
      else if u_ddir u = DDIR_WRITE then
        let (r, k) = os_pwritev2 S (u_file u) (xfer_buf u) (xfer_buflen u) (u_offset u) 0 (sys td)
        in Some (fio_io_end S (td\<lparr>sys := k\<rparr>) u (ucast r))
      else if u_ddir u = DDIR_TRIM then
        let (ret, u, td) = do_io_u_trim S td u in Some (FIO_Q_COMPLETED, u, td)
      else let (ret, u, td) = do_io_u_sync S td u in Some (fio_io_end S td u ret))"

text \<open>
  The options of \<open>pvsync2\<close>; \<open>r\<close> is the number \<open>rand_between\<close> draws from 1 to 100 when \<open>hipri\<close> is set.
\<close>

record psyncv2_options =
  hipri :: bool
  hipri_percentage :: cint
  uncached :: bool
  nowait :: bool
  odirect :: bool

definition pvsync2_flags :: "psyncv2_options \<Rightarrow> cint \<Rightarrow> cint" where
  "pvsync2_flags opts r =
     (if hipri opts \<and> r \<le> hipri_percentage opts then 1 else 0) OR
     (if \<not> odirect opts \<and> uncached opts then 0x40 else 0) OR (if nowait opts then 8 else 0)"

definition fio_pvsyncio2_queue ::
  "'k fio_os \<Rightarrow> psyncv2_options \<Rightarrow> cint \<Rightarrow> 'k fio_td \<Rightarrow> io_u \<Rightarrow> (fio_q_status \<times> io_u \<times> 'k fio_td) option" where
  "fio_pvsyncio2_queue S opts rnd td u =
     (let flags = pvsync2_flags opts rnd in
      if \<not> fio_ro_check td u then None
      else if u_ddir u = DDIR_READ then
        let (r, b, k) = os_preadv2 S (u_file u) (xfer_buf u) (xfer_buflen u) (u_offset u) flags (sys td)
        in Some (fio_io_end S (td\<lparr>sys := k\<rparr>) (u\<lparr>xfer_buf := b\<rparr>) (ucast r))
      else if u_ddir u = DDIR_WRITE then
        let (r, k) = os_pwritev2 S (u_file u) (xfer_buf u) (xfer_buflen u) (u_offset u) flags (sys td)
        in Some (fio_io_end S (td\<lparr>sys := k\<rparr>) u (ucast r))
      else if u_ddir u = DDIR_TRIM then
        let (ret, u, td) = do_io_u_trim S td u in Some (FIO_Q_COMPLETED, u, td)
      else let (ret, u, td) = do_io_u_sync S td u in Some (fio_io_end S td u ret))"

definition fio_psyncio_queue :: "'k fio_os \<Rightarrow> 'k fio_td \<Rightarrow> io_u \<Rightarrow> (fio_q_status \<times> io_u \<times> 'k fio_td) option" where
  "fio_psyncio_queue S td u =
     (if \<not> fio_ro_check td u then None
      else if u_ddir u = DDIR_READ then
        let (r, b, k) = os_pread S (u_file u) (xfer_buf u) (xfer_buflen u) (u_offset u) (sys td)
        in Some (fio_io_end S (td\<lparr>sys := k\<rparr>) (u\<lparr>xfer_buf := b\<rparr>) (ucast r))
      else if u_ddir u = DDIR_WRITE then
        let (r, k) = os_pwrite S (u_file u) (xfer_buf u) (xfer_buflen u) (u_offset u) (sys td)
        in Some (fio_io_end S (td\<lparr>sys := k\<rparr>) u (ucast r))
      else if u_ddir u = DDIR_TRIM then
        let (ret, u, td) = do_io_u_trim S td u in Some (FIO_Q_COMPLETED, u, td)
      else let (ret, u, td) = do_io_u_sync S td u in Some (fio_io_end S td u ret))"

definition fio_syncio_queue :: "'k fio_os \<Rightarrow> 'k fio_td \<Rightarrow> io_u \<Rightarrow> (fio_q_status \<times> io_u \<times> 'k fio_td) option" where
  "fio_syncio_queue S td u =
     (if \<not> fio_ro_check td u then None
      else if u_ddir u = DDIR_READ then
        let (r, b, k) = os_read S (u_file u) (xfer_buf u) (xfer_buflen u) (sys td)
        in Some (fio_io_end S (td\<lparr>sys := k\<rparr>) (u\<lparr>xfer_buf := b\<rparr>) (ucast r))
      else if u_ddir u = DDIR_WRITE then
        let (r, k) = os_write S (u_file u) (xfer_buf u) (xfer_buflen u) (sys td)
        in Some (fio_io_end S (td\<lparr>sys := k\<rparr>) u (ucast r))
      else if u_ddir u = DDIR_TRIM then
        let (ret, u, td) = do_io_u_trim S td u in Some (FIO_Q_COMPLETED, u, td)
      else let (ret, u, td) = do_io_u_sync S td u in Some (fio_io_end S td u ret))"

section \<open>The engine ispsync\<close>

definition isp_queue_cmd :: "u64 \<Rightarrow> io_u \<Rightarrow> nvme_passthru_cmd" where
  "isp_queue_cmd a u = \<lparr>opcode = 0x82, flags = 0, rsvd1 = 0, nsid = 1, cdw2 = 0, cdw3 = 0, metadata = 0,
     addr = a, metadata_len = 0, data_len = ucast (xfer_buflen u), cdw10 = ucast (u_offset u div 4096), cdw11 = 0,
     cdw12 = ucast (xfer_buflen u div 4096 - 1), cdw13 = 0, cdw14 = 0, cdw15 = 0, timeout_ms = 0, result = 0\<rparr>"

definition fio_ispsyncio_queue ::
  "'k kernel \<Rightarrow> 'k fio_os \<Rightarrow> u64 \<Rightarrow> 'k fio_td \<Rightarrow> io_u \<Rightarrow> (fio_q_status \<times> io_u \<times> 'k fio_td) option" where
  "fio_ispsyncio_queue K S a td u =
     (if \<not> fio_ro_check td u then None
      else if u_ddir u = DDIR_READ then
        let (err, res, b, k) = ioctl_io_cmd K (isp_queue_cmd a u) (xfer_buf u) (sys td);
            ret = (if err = 0 then ucast (xfer_buflen u) else -1)
        in Some (fio_io_end S (td\<lparr>sys := k\<rparr>) (u\<lparr>xfer_buf := b\<rparr>) ret)
      else if u_ddir u = DDIR_WRITE then Some (fio_io_end S td u (-1))
      else if u_ddir u = DDIR_TRIM then Some (FIO_Q_COMPLETED, u, td)
      else let (ret, u, td) = do_io_u_sync S td u in Some (fio_io_end S td u ret))"

section \<open>The contract of the file calls\<close>

text \<open>
  What POSIX promises of the calls the engines make on a file that is not in append mode. \<open>core k\<close> is all of
  the system state but the file positions \<open>pos k\<close>. A positioned read or write depends on the core only
  and does not move a position; a read or write does what the positioned one does at the current position
  and then moves it by what was transferred; a failed call sets \<open>errno\<close>.
\<close>

locale posix_files =
  fixes S :: "'k fio_os"
    and core :: "'k \<Rightarrow> 'c"
    and pos :: "'k \<Rightarrow> nat \<Rightarrow> u64"
  assumes lseek_law: "unat off < 2 ^ 63 \<Longrightarrow> os_lseek S f off k = (r, k') \<Longrightarrow> r = off \<and> core k' = core k \<and> pos k' = (pos k)(f := off)"
    and pread_law: "os_pread S f b n off k = (r, b', k') \<Longrightarrow> pos k' = pos k \<and> (0 \<le> sint r \<longrightarrow> r \<le> n) \<and> (sint r < 0 \<longrightarrow> r = -1 \<and> os_errno S k' \<noteq> 0)"
    and pread_core_law: "core k1 = core k2 \<Longrightarrow> os_pread S f b n off k1 = (r, b', k1') \<Longrightarrow> \<exists>k2'. os_pread S f b n off k2 = (r, b', k2') \<and> core k1' = core k2'"
    and read_law: "os_pread S f b n (pos k f) k = (r, b', k') \<Longrightarrow> 0 \<le> sint r \<Longrightarrow>
      \<exists>k''. os_read S f b n k = (r, b', k'') \<and> core k'' = core k' \<and> pos k'' = (pos k)(f := pos k f + r)"
    and pwrite_law: "os_pwrite S f b n off k = (r, k') \<Longrightarrow> pos k' = pos k \<and> (0 \<le> sint r \<longrightarrow> r \<le> n) \<and> (sint r < 0 \<longrightarrow> r = -1 \<and> os_errno S k' \<noteq> 0)"
    and pwrite_core_law: "core k1 = core k2 \<Longrightarrow> os_pwrite S f b n off k1 = (r, k1') \<Longrightarrow> \<exists>k2'. os_pwrite S f b n off k2 = (r, k2') \<and> core k1' = core k2'"
    and write_law: "os_pwrite S f b n (pos k f) k = (r, k') \<Longrightarrow> 0 \<le> sint r \<Longrightarrow>
      \<exists>k''. os_write S f b n k = (r, k'') \<and> core k'' = core k' \<and> pos k'' = (pos k)(f := pos k f + r)"
    and discard_law: "os_discard S f off n k = (e, k') \<Longrightarrow> pos k' = pos k"

text \<open>How fio runs a request on a synchronous engine: prepare, then queue.\<close>

definition sync_io :: "'k fio_os \<Rightarrow> 'k fio_td \<Rightarrow> io_u \<Rightarrow> (io_u \<times> 'k fio_td) option" where
  "sync_io S td u =
     (let (r, td) = fio_syncio_prep S td u
      in if r \<noteq> 0 then None else do { (q, u, td) \<leftarrow> fio_syncio_queue S td u; Some (u, td) })"

definition psync_io :: "'k fio_os \<Rightarrow> 'k fio_td \<Rightarrow> io_u \<Rightarrow> (io_u \<times> 'k fio_td) option" where
  "psync_io S td u = do { (q, u, td) \<leftarrow> fio_psyncio_queue S td u; Some (u, td) }"

fun run_ios :: "('t \<Rightarrow> io_u \<Rightarrow> (io_u \<times> 't) option) \<Rightarrow> 't \<Rightarrow> io_u list \<Rightarrow> (io_u list \<times> 't) option" where
  "run_ios step td [] = Some ([], td)"
| "run_ios step td (u # us) = do {
     (u, td) \<leftarrow> step td u;
     (us, td) \<leftarrow> run_ios step td us;
     Some (u # us, td) }"

lemma offset_not_minus_one: "unat (off :: u64) < 2 ^ 63 \<Longrightarrow> off \<noteq> -1"
  by (auto simp: unsigned_minus_1_eq_mask mask_eq_exp_minus_1)

text \<open>Requests within the range of the C types.\<close>

definition plain_io :: "io_u \<Rightarrow> bool" where
  "plain_io u \<longleftrightarrow> (u_ddir u = DDIR_READ \<or> u_ddir u = DDIR_WRITE) \<and> unat (u_offset u) < 2 ^ 63 \<and> unat (xfer_buflen u) < 2 ^ 31"

lemma small_ret:
  assumes "(r :: u64) \<le> n" "unat n < 2 ^ 31"
  shows "scast (ucast r :: cint) = r" "0 \<le> sint (ucast r :: cint)"
proof -
  have "unat r \<le> unat n" "(2 :: nat) ^ 31 = 2147483648" using assms(1) by (simp_all add: word_le_nat_alt)
  with assms(2) have r: "unat r < 2147483648" by linarith
  have "unat (ucast r :: cint) = take_bit 32 (unat r)" by (simp add: unsigned_ucast_eq)
  also have "\<dots> = unat r" using r by (intro take_bit_nat_eq_self) simp
  finally have "unat (ucast r :: cint) = unat r" .
  with r have s: "sint (ucast r :: cint) = int (unat r)" using sint_cint [of "ucast r"] by metis
  then show "0 \<le> sint (ucast r :: cint)" by linarith
  have "(scast (ucast r :: cint) :: u64) = word_of_int (sint (ucast r :: cint))" by (rule scast_eq)
  also have "\<dots> = r" unfolding s by simp
  finally show "scast (ucast r :: cint) = r" .
qed

lemma ucast_minus_one [simp]: "ucast (-1 :: u64) = (-1 :: cint)"
  by (simp add: bit_eq_iff bit_simps)

lemma fio_io_end_ok:
  assumes "(r :: u64) \<le> xfer_buflen u" "unat (xfer_buflen u) < 2 ^ 31" "ddir_rw (u_ddir u)"
  shows "fio_io_end S td u (ucast r) =
    (FIO_Q_COMPLETED, if r = xfer_buflen u then u else u\<lparr>resid := xfer_buflen u - r, u_error := 0\<rparr>,
     let td = td\<lparr>engine_pos := (engine_pos td)(u_file u := u_offset u + r)\<rparr>
     in if r = xfer_buflen u \<and> u_error u \<noteq> 0 then td_verror (u_error u) td else td)"
proof -
  note r = small_ret [OF assms(1,2)] small_ret [OF order_refl assms(2)]
  have "(ucast r :: cint) = ucast (xfer_buflen u) \<longleftrightarrow> r = xfer_buflen u" using r by metis
  with r assms(3) show ?thesis by (simp add: fio_io_end_def Let_def)
qed

lemma fio_io_end_failed:
  assumes "unat (xfer_buflen u) < 2 ^ 31"
  shows "fio_io_end S td u (-1) = (FIO_Q_COMPLETED, u\<lparr>u_error := os_errno S (sys td)\<rparr>,
     if os_errno S (sys td) \<noteq> 0 then td_verror (os_errno S (sys td)) td else td)"
proof -
  have "0 \<le> sint (ucast (xfer_buflen u) :: cint)" by (rule small_ret(2) [OF order_refl assms])
  then have "(-1 :: cint) \<noteq> ucast (xfer_buflen u)" by (metis linorder_not_less sint_n1 zero_less_one neg_less_0_iff_less)
  then show ?thesis by (simp add: fio_io_end_def Let_def)
qed

context posix_files
begin

text \<open>The two threads agree, and the engine's idea of each position is the system's.\<close>

definition rel :: "'k fio_td \<Rightarrow> 'k fio_td \<Rightarrow> bool" where
  "rel s p \<longleftrightarrow> core (sys s) = core (sys p) \<and> engine_pos s = engine_pos p \<and> td_error s = td_error p \<and> opt_write s = opt_write p \<and>
     opt_trim s = opt_trim p \<and> write_range s = write_range p \<and> pos (sys s) = engine_pos s"

lemma prep_run:
  assumes "rel s p" "plain_io u"
  shows "\<exists>k. fio_syncio_prep S s u = (0, s\<lparr>sys := k\<rparr>) \<and> core k = core (sys p) \<and> pos k = (engine_pos s)(u_file u := u_offset u)"
proof (cases "engine_pos s (u_file u) = u_offset u")
  case True
  then have "(engine_pos s)(u_file u := u_offset u) = engine_pos s" by auto
  moreover have "u_offset u \<noteq> -1" using assms(2) by (intro offset_not_minus_one) (simp add: plain_io_def)
  ultimately show ?thesis
    using True assms by (intro exI [of _ "sys s"]) (simp add: fio_syncio_prep_def rel_def plain_io_def ddir_rw_def Let_def)
next
  case False
  obtain r k where r: "os_lseek S (u_file u) (u_offset u) (sys s) = (r, k)" by fastforce
  have o: "unat (u_offset u) < 2 ^ 63" using assms(2) by (simp add: plain_io_def)
  have "u_offset u \<noteq> -1" by (rule offset_not_minus_one [OF o])
  with lseek_law [OF o r] False r assms show ?thesis
    by (intro exI [of _ k]) (auto simp: fio_syncio_prep_def rel_def plain_io_def ddir_rw_def Let_def)
qed

lemma end_rel:
  assumes "rel s p" "r \<le> xfer_buflen u" "unat (xfer_buflen u) < 2 ^ 31" "ddir_rw (u_ddir u)"
    and "core k3 = core k1" "pos k3 = (engine_pos s)(u_file u := u_offset u + r)"
    and "fio_io_end S (p\<lparr>sys := k1\<rparr>) u (ucast r) = (q, u', p')"
  shows "\<exists>s'. fio_io_end S (s\<lparr>sys := k3\<rparr>) u (ucast r) = (q, u', s') \<and> rel s' p'"
proof -
  let ?e = "\<lambda>td :: 'k fio_td. td\<lparr>engine_pos := (engine_pos td)(u_file u := u_offset u + r)\<rparr>"
  let ?v = "\<lambda>td. if r = xfer_buflen u \<and> u_error u \<noteq> 0 then td_verror (u_error u) td else td"
  note e = fio_io_end_ok [OF assms(2-4), unfolded Let_def]
  have "rel (?e (s\<lparr>sys := k3\<rparr>)) (?e (p\<lparr>sys := k1\<rparr>))" using assms(1,5,6) by (simp add: rel_def)
  then have "rel (?v (?e (s\<lparr>sys := k3\<rparr>))) (?v (?e (p\<lparr>sys := k1\<rparr>)))" by (auto simp: rel_def td_verror_def)
  with assms(7) show ?thesis unfolding e by blast
qed

lemma sync_read:
  assumes "rel s p" "plain_io u" "u_ddir u = DDIR_READ" "psync_io S p u = Some (u', p')" "u_error u' = 0"
  shows "\<exists>s'. sync_io S s u = Some (u', s') \<and> rel s' p'"
proof -
  let ?f = "u_file u" and ?n = "xfer_buflen u"
  from prep_run [OF assms(1,2)] obtain k where
    k: "fio_syncio_prep S s u = (0, s\<lparr>sys := k\<rparr>)" "core k = core (sys p)" "pos k = (engine_pos s)(?f := u_offset u)" by blast
  have n: "unat ?n < 2 ^ 31" using assms(2) by (simp add: plain_io_def)
  have chk: "fio_ro_check p u" "fio_ro_check (s\<lparr>sys := k\<rparr>) u" using assms(3) by (simp_all add: fio_ro_check_def)
  obtain r b k1 where r: "os_pread S ?f (xfer_buf u) ?n (u_offset u) (sys p) = (r, b, k1)" by (metis prod_cases3)
  obtain q where q: "fio_io_end S (p\<lparr>sys := k1\<rparr>) (u\<lparr>xfer_buf := b\<rparr>) (ucast r) = (q, u', p')"
    using assms(4) chk(1) assms(3) r by (auto simp: psync_io_def fio_psyncio_queue_def split: prod.splits)
  have pos_r: "0 \<le> sint r"
  proof (rule ccontr)
    assume "\<not> 0 \<le> sint r"
    with pread_law [OF r] have "r = -1" "os_errno S k1 \<noteq> 0" by simp_all
    with q fio_io_end_failed [of "u\<lparr>xfer_buf := b\<rparr>" S "p\<lparr>sys := k1\<rparr>"] n assms(5) show False by auto
  qed
  with pread_law [OF r] have le: "r \<le> ?n" by simp
  obtain k2 where k2: "os_pread S ?f (xfer_buf u) ?n (u_offset u) k = (r, b, k2)" "core k1 = core k2"
    using pread_core_law [OF k(2) [symmetric] r] by blast
  have pf: "pos k ?f = u_offset u" by (simp add: k(3))
  from read_law [of ?f "xfer_buf u" ?n k r b k2] k2(1) pf pos_r obtain k3 where
    k3: "os_read S ?f (xfer_buf u) ?n k = (r, b, k3)" "core k3 = core k2" "pos k3 = (pos k)(?f := u_offset u + r)" by auto
  have "ddir_rw (u_ddir u)" using assms(3) by (simp add: ddir_rw_def)
  with end_rel [OF assms(1), of r "u\<lparr>xfer_buf := b\<rparr>" k3 k1 q u' p'] le n k3 k2(2) k(3) q obtain s' where
    s': "fio_io_end S (s\<lparr>sys := k3\<rparr>) (u\<lparr>xfer_buf := b\<rparr>) (ucast r) = (q, u', s')" "rel s' p'" by auto
  have "fio_syncio_queue S (s\<lparr>sys := k\<rparr>) u = Some (q, u', s')"
    using chk(2) assms(3) k3(1) s'(1) by (simp add: fio_syncio_queue_def)
  with k(1) s'(2) show ?thesis by (simp add: sync_io_def)
qed

lemma sync_write:
  assumes "rel s p" "plain_io u" "u_ddir u = DDIR_WRITE" "psync_io S p u = Some (u', p')" "u_error u' = 0"
  shows "\<exists>s'. sync_io S s u = Some (u', s') \<and> rel s' p'"
proof -
  let ?f = "u_file u" and ?n = "xfer_buflen u"
  from prep_run [OF assms(1,2)] obtain k where
    k: "fio_syncio_prep S s u = (0, s\<lparr>sys := k\<rparr>)" "core k = core (sys p)" "pos k = (engine_pos s)(?f := u_offset u)" by blast
  have n: "unat ?n < 2 ^ 31" using assms(2) by (simp add: plain_io_def)
  have chk: "fio_ro_check p u" using assms(4) by (auto simp: psync_io_def fio_psyncio_queue_def split: if_splits)
  then have chk': "fio_ro_check (s\<lparr>sys := k\<rparr>) u" using assms(1) by (simp add: fio_ro_check_def rel_def)
  obtain r k1 where r: "os_pwrite S ?f (xfer_buf u) ?n (u_offset u) (sys p) = (r, k1)" by fastforce
  obtain q where q: "fio_io_end S (p\<lparr>sys := k1\<rparr>) u (ucast r) = (q, u', p')"
    using assms(4) chk assms(3) r by (auto simp: psync_io_def fio_psyncio_queue_def split: prod.splits)
  have pos_r: "0 \<le> sint r"
  proof (rule ccontr)
    assume "\<not> 0 \<le> sint r"
    with pwrite_law [OF r] have "r = -1" "os_errno S k1 \<noteq> 0" by simp_all
    with q fio_io_end_failed [of u S "p\<lparr>sys := k1\<rparr>"] n assms(5) show False by auto
  qed
  with pwrite_law [OF r] have le: "r \<le> ?n" by simp
  obtain k2 where k2: "os_pwrite S ?f (xfer_buf u) ?n (u_offset u) k = (r, k2)" "core k1 = core k2"
    using pwrite_core_law [OF k(2) [symmetric] r] by blast
  have pf: "pos k ?f = u_offset u" by (simp add: k(3))
  from write_law [of ?f "xfer_buf u" ?n k r k2] k2(1) pf pos_r obtain k3 where
    k3: "os_write S ?f (xfer_buf u) ?n k = (r, k3)" "core k3 = core k2" "pos k3 = (pos k)(?f := u_offset u + r)" by auto
  have "ddir_rw (u_ddir u)" using assms(3) by (simp add: ddir_rw_def)
  with end_rel [OF assms(1) le n, of k3 k1 q u' p'] k3 k2(2) k(3) q obtain s' where
    s': "fio_io_end S (s\<lparr>sys := k3\<rparr>) u (ucast r) = (q, u', s')" "rel s' p'" by auto
  have "fio_syncio_queue S (s\<lparr>sys := k\<rparr>) u = Some (q, u', s')"
    using chk' assms(3) k3(1) s'(1) by (simp add: fio_syncio_queue_def)
  with k(1) s'(2) show ?thesis by (simp add: sync_io_def)
qed

lemma sync_step:
  "rel s p \<Longrightarrow> plain_io u \<Longrightarrow> psync_io S p u = Some (u', p') \<Longrightarrow> u_error u' = 0 \<Longrightarrow> \<exists>s'. sync_io S s u = Some (u', s') \<and> rel s' p'"
  using sync_read sync_write by (auto simp: plain_io_def)

lemma sync_run:
  assumes "rel s p" "\<forall>u \<in> set us. plain_io u" "run_ios (psync_io S) p us = Some (us', p')" "\<forall>u \<in> set us'. u_error u = 0"
  shows "\<exists>s'. run_ios (sync_io S) s us = Some (us', s') \<and> rel s' p'"
  using assms
proof (induction us arbitrary: s p us')
  case (Cons u us)
  then obtain v q vs where v: "psync_io S p u = Some (v, q)" "run_ios (psync_io S) q us = Some (vs, p')" "us' = v # vs"
    by (auto simp: bind_eq_Some_conv)
  with sync_step [OF Cons.prems(1) _ v(1)] Cons.prems obtain s1 where s1: "sync_io S s u = Some (v, s1)" "rel s1 q" by auto
  with Cons.IH [OF s1(2) _ v(2)] Cons.prems v(3) show ?case by auto
qed simp

end

section \<open>A file system that meets the contract\<close>

text \<open>
  File contents and positions; a write past the end fills the gap with zeros, and a call transfers at most
  2147479552 bytes. Every call succeeds.
\<close>

record fs =
  fs_data :: "nat \<Rightarrow> buffer"
  fs_pos :: "nat \<Rightarrow> u64"

definition fs_get :: "nat \<Rightarrow> buffer \<Rightarrow> u64 \<Rightarrow> u64 \<Rightarrow> fs \<Rightarrow> buffer" where
  "fs_get f b n off k = take (min (unat n) 2147479552) (drop (unat off) (fs_data k f))"

definition fs_put :: "nat \<Rightarrow> buffer \<Rightarrow> u64 \<Rightarrow> u64 \<Rightarrow> fs \<Rightarrow> nat \<times> fs" where
  "fs_put f b n off k =
     (let bs = take (min (unat n) 2147479552) b; c = fs_data k f
      in (length bs, k\<lparr>fs_data := (fs_data k)(f := take (unat off) (c @ replicate (unat off) 0) @ bs @ drop (unat off + length bs) c)\<rparr>))"

definition fs_pread :: "nat \<Rightarrow> buffer \<Rightarrow> u64 \<Rightarrow> u64 \<Rightarrow> fs \<Rightarrow> u64 \<times> buffer \<times> fs" where
  "fs_pread f b n off k = (let bs = fs_get f b n off k in (of_nat (length bs), bs @ drop (length bs) b, k))"

definition fs_pwrite :: "nat \<Rightarrow> buffer \<Rightarrow> u64 \<Rightarrow> u64 \<Rightarrow> fs \<Rightarrow> u64 \<times> fs" where
  "fs_pwrite f b n off k = (let (m, k) = fs_put f b n off k in (of_nat m, k))"

definition fs_os :: "fs fio_os" where
  "fs_os = \<lparr>
     os_read = (\<lambda>f b n k. let (r, b, k) = fs_pread f b n (fs_pos k f) k in (r, b, k\<lparr>fs_pos := (fs_pos k)(f := fs_pos k f + r)\<rparr>)),
     os_write = (\<lambda>f b n k. let (r, k) = fs_pwrite f b n (fs_pos k f) k in (r, k\<lparr>fs_pos := (fs_pos k)(f := fs_pos k f + r)\<rparr>)),
     os_pread = fs_pread, os_pwrite = fs_pwrite,
     os_preadv2 = (\<lambda>f b n off flags. fs_pread f b n off), os_pwritev2 = (\<lambda>f b n off flags. fs_pwrite f b n off),
     os_readv = (\<lambda>f bs k. let c = take (length (concat bs)) (drop (unat (fs_pos k f)) (fs_data k f)) in
       (of_nat (length c), map (\<lambda>i. let o' = length (concat (take i bs)) in take (length (bs ! i)) (drop o' c) @
          drop (length c - o') (bs ! i)) [0..<length bs], k)),
     os_writev = (\<lambda>f bs. fs_pwrite f (concat bs) (of_nat (length (concat bs))) 0),
     os_lseek = (\<lambda>f off k. (off, k\<lparr>fs_pos := (fs_pos k)(f := off)\<rparr>)),
     os_discard = (\<lambda>f off n k. (0, k)), os_fsync = (\<lambda>f k. (0, k)), os_fdatasync = (\<lambda>f k. (0, k)),
     os_sync_file_range = (\<lambda>f off n k. (0, k)), os_errno = (\<lambda>k. 5)\<rparr>"

lemma fs_count:
  assumes "m \<le> min (unat (n :: u64)) 2147479552"
  shows "0 \<le> sint (of_nat m :: u64) \<and> (of_nat m :: u64) \<le> n"
proof -
  have m: "m < 2 ^ 31" "m \<le> unat n" using assms by simp_all
  then have u: "unat (of_nat m :: u64) = m" by (intro unat_of_nat_u64) simp
  then have "(of_nat m :: u64) \<le> n" using m(2) by (simp add: word_le_nat_alt)
  moreover have "0 \<le> sint (of_nat m :: u64)"
  proof -
    have "int m < 2 ^ 63" "- (2 ^ 63) \<le> int m" using m(1) by simp_all
    then have "signed_take_bit 63 (int m) = int m" by (intro signed_take_bit_int_eq_self)
    moreover have "uint (of_nat m :: u64) = int m" using u by (metis of_nat_unat)
    ultimately show ?thesis by (simp add: sint_uint)
  qed
  ultimately show ?thesis by blast
qed

interpretation fsx: posix_files fs_os fs_data fs_pos
proof (unfold_locales, goal_cases)
  case (2 f b n off k r b' k')
  then have "r = of_nat (length (fs_get f b n off k))" "k' = k" by (auto simp: fs_os_def fs_pread_def Let_def)
  moreover have "length (fs_get f b n off k) \<le> min (unat n) 2147479552" by (simp only: fs_get_def length_take min.cobounded2)
  ultimately show ?case using fs_count by force
next
  case (3 k1 k2 f b n off r b' k1')
  then show ?case by (auto simp: fs_os_def fs_pread_def Let_def fs_get_def)
next
  case (5 f b n off k r k')
  then have "r = of_nat (length (take (min (unat n) 2147479552) b))" "fs_pos k' = fs_pos k"
    by (auto simp: fs_os_def fs_pwrite_def fs_put_def Let_def)
  moreover have "length (take (min (unat n) 2147479552) b) \<le> min (unat n) 2147479552" by (simp only: length_take min.cobounded2)
  ultimately show ?case using fs_count by force
next
  case (6 k1 k2 f b n off r k1')
  then show ?case by (auto simp: fs_os_def fs_pwrite_def fs_put_def Let_def)
qed (auto simp: fs_os_def fs_pread_def fs_pwrite_def fs_put_def Let_def)

section \<open>Block numbers in 32-bit fields\<close>

lemma block_field:
  fixes m N :: nat
  assumes "0 < N"
  shows "m div 4096 mod N * 4096 = m \<longleftrightarrow> 4096 dvd m \<and> m < 4096 * N"
proof
  assume h: "m div 4096 mod N * 4096 = m"
  then have "4096 dvd m" by (metis dvd_triv_right)
  moreover have "m div 4096 mod N < N" using assms by simp
  then have "m div 4096 mod N * 4096 < N * 4096" by (intro mult_strict_right_mono) simp_all
  ultimately show "4096 dvd m \<and> m < 4096 * N" using h by (simp add: mult.commute)
next
  assume "4096 dvd m \<and> m < 4096 * N"
  then obtain q where "m = 4096 * q" "q < N" by auto
  then show "m div 4096 mod N * 4096 = m" by simp
qed

lemma length_field:
  fixes n N :: nat
  assumes "0 < N" "0 < n div 4096"
  shows "((n div 4096 - 1) mod N + 1) * 4096 = n \<longleftrightarrow> 4096 dvd n \<and> n \<le> 4096 * N"
proof
  assume h: "((n div 4096 - 1) mod N + 1) * 4096 = n"
  then have "4096 dvd n" by (metis dvd_triv_right)
  moreover have "(n div 4096 - 1) mod N + 1 \<le> N" using assms(1) by (simp add: Suc_leI)
  then have "((n div 4096 - 1) mod N + 1) * 4096 \<le> N * 4096" by (rule mult_le_mono1)
  ultimately show "4096 dvd n \<and> n \<le> 4096 * N" using h by (simp add: mult.commute)
next
  assume "4096 dvd n \<and> n \<le> 4096 * N"
  then obtain q where q: "n = 4096 * q" "q \<le> N" by auto
  with assms(2) have "0 < q" by simp
  with q(2) have "(q - 1) mod N + 1 = q" by simp
  with q(1) show "((n div 4096 - 1) mod N + 1) * 4096 = n" by simp
qed

section \<open>Properties\<close>

text \<open>
  C8: The engine \<open>sync\<close> implements \<open>psync\<close>. On files that behave as POSIX says, from states that agree and in which the
  engine's record of each position is the system's, every sequence of reads and writes that psync runs without an
  error gives the same requests with the same data and residual counts on sync, although sync skips the \<open>lseek\<close>
  when it thinks the position is right; and the states agree again.
\<close>

theorem sync_implements_psync:
  assumes "posix_files S core pos" "posix_files.rel core pos s p" "\<forall>u \<in> set us. plain_io u"
    and "run_ios (psync_io S) p us = Some (us', p')" "\<forall>u \<in> set us'. u_error u = 0"
  shows "\<exists>s'. run_ios (sync_io S) s us = Some (us', s') \<and> posix_files.rel core pos s' p'"
  by (rule posix_files.sync_run [OF assms])

definition fs_td :: "fs fio_td" where
  "fs_td = \<lparr>sys = \<lparr>fs_data = (\<lambda>_. replicate 16 7), fs_pos = (\<lambda>_. 0)\<rparr>, engine_pos = (\<lambda>_. 0), td_error = 0, opt_write = True,
     opt_trim = True, write_range = (\<lambda>_. (0, 0))\<rparr>"

definition fs_read_u :: "u64 \<Rightarrow> io_u" where
  "fs_read_u off = \<lparr>u_ddir = DDIR_READ, u_file = 0, u_offset = off, xfer_buf = replicate 8 0, xfer_buflen = 8, resid = 0, u_error = 0\<rparr>"

theorem sync_implements_psync_witness:
  "\<exists>s'. run_ios (sync_io fs_os) fs_td [fs_read_u 4, fs_read_u 12] =
     Some ([fs_read_u 4\<lparr>xfer_buf := replicate 8 7\<rparr>, fs_read_u 12\<lparr>xfer_buf := replicate 4 7 @ replicate 4 0, resid := 4\<rparr>], s')"
proof -
  have r: "posix_files.rel fs_data fs_pos fs_td fs_td" by (simp add: fsx.rel_def fs_td_def)
  have p: "\<forall>u \<in> set [fs_read_u 4, fs_read_u 12]. plain_io u" by (simp add: plain_io_def fs_read_u_def)
  obtain p' where "run_ios (psync_io fs_os) fs_td [fs_read_u 4, fs_read_u 12] =
     Some ([fs_read_u 4\<lparr>xfer_buf := replicate 8 7\<rparr>, fs_read_u 12\<lparr>xfer_buf := replicate 4 7 @ replicate 4 0, resid := 4\<rparr>], p')"
    by (simp add: psync_io_def fio_psyncio_queue_def fio_ro_check_def fio_io_end_def Let_def fs_os_def fs_pread_def fs_get_def
        fs_td_def fs_read_u_def ddir_rw_def)
  from sync_implements_psync [OF fsx.posix_files_axioms r p this] show ?thesis by (auto simp: fs_read_u_def)
qed

text \<open>
  A trim makes \<open>sync\<close> read the wrong place. A trim moves the file position to its offset but not the engine's
  record of it; a read at the recorded position is then not preceded by an \<open>lseek\<close> and returns the bytes at the
  offset of the trim.
\<close>

lemma sync_trim_misplaces_read:
  assumes "posix_files S core pos" "pos (sys s) = engine_pos s" "opt_trim s"
    and "u_ddir t = DDIR_TRIM" "u_file t = f" "unat (u_offset t) < 2 ^ 63" "u_offset t \<noteq> engine_pos s f"
    and "u_ddir u = DDIR_READ" "u_file u = f" "u_offset u = engine_pos s f" "u_offset u \<noteq> -1" "unat (xfer_buflen u) < 2 ^ 31"
    and "sync_io S s t = Some (t', s1)" "os_pread S f (xfer_buf u) (xfer_buflen u) (u_offset t) (sys s1) = (r, b, k)" "0 \<le> sint r"
  shows "\<exists>u' s2. sync_io S s1 u = Some (u', s2) \<and> xfer_buf u' = b"
proof -
  obtain r0 k0 where l: "os_lseek S f (u_offset t) (sys s) = (r0, k0)" by fastforce
  from posix_files.lseek_law [OF assms(1,6) l] have l': "r0 = u_offset t" "pos k0 = (pos (sys s))(f := u_offset t)" by simp_all
  have "u_offset t \<noteq> -1" by (rule offset_not_minus_one [OF assms(6)])
  with l l' assms(4,5,7) have prep: "fio_syncio_prep S s t = (0, s\<lparr>sys := k0\<rparr>)"
    by (auto simp: fio_syncio_prep_def ddir_rw_def)
  obtain e k1 where d: "os_discard S f (u_offset t) (xfer_buflen t) k0 = (e, k1)" by fastforce
  from posix_files.discard_law [OF assms(1) d] have k1: "pos k1 = pos k0" .
  have s1: "sys s1 = k1" "engine_pos s1 = engine_pos s"
    using assms(13) prep d assms(3-5)
    by (auto simp: sync_io_def fio_syncio_queue_def fio_ro_check_def do_io_u_trim_def os_trim_def Let_def split: if_splits)
  have "fio_syncio_prep S s1 u = (0, s1)" using assms(8-11) s1(2) by (simp add: fio_syncio_prep_def)
  moreover have "pos (sys s1) f = u_offset t" using s1(1) k1 l'(2) by simp
  with posix_files.read_law [OF assms(1), of f "xfer_buf u" "xfer_buflen u" "sys s1" r b k] assms(14,15) obtain k2 where
    "os_read S f (xfer_buf u) (xfer_buflen u) (sys s1) = (r, b, k2)" by auto
  then have "fio_syncio_queue S s1 u = Some (fio_io_end S (s1\<lparr>sys := k2\<rparr>) (u\<lparr>xfer_buf := b\<rparr>) (ucast r))"
    using assms(8,9) by (simp add: fio_syncio_queue_def fio_ro_check_def)
  moreover have "\<exists>q u' s2. fio_io_end S (s1\<lparr>sys := k2\<rparr>) (u\<lparr>xfer_buf := b\<rparr>) (ucast r) = (q, u', s2) \<and> xfer_buf u' = b"
    by (auto simp: fio_io_end_def Let_def)
  ultimately show ?thesis by (auto simp: sync_io_def)
qed

text \<open>
  C40: \<open>ispsync\<close> can lose an error. Writes are refused, and a read fails when the SSD reports an error, but the error that is
  stored is \<open>errno\<close>, which neither a refused write nor a positive NVMe status sets: while \<open>errno\<close> is 0 the request
  completes without an error and without a residual count.
\<close>

theorem ispsync_failure_unreported:
  assumes "unat (xfer_buflen u) < 2 ^ 31" "os_errno S k = 0"
    and "u_ddir u = DDIR_WRITE \<and> opt_write td \<and> b = xfer_buf u \<and> k = sys td \<or>
      u_ddir u = DDIR_READ \<and> ioctl_io_cmd K (isp_queue_cmd a u) (xfer_buf u) (sys td) = (err, res, b, k) \<and> err \<noteq> 0"
  shows "fio_ispsyncio_queue K S a td u = Some (FIO_Q_COMPLETED, u\<lparr>xfer_buf := b, u_error := 0\<rparr>, td\<lparr>sys := k\<rparr>)"
  using assms fio_io_end_failed [of u S td] fio_io_end_failed [of "u\<lparr>xfer_buf := b\<rparr>" S "td\<lparr>sys := k\<rparr>"]
  by (auto simp: fio_ispsyncio_queue_def fio_ro_check_def)

definition failing_kernel :: "fs kernel" where
  "failing_kernel = \<lparr>ioctl_io_cmd = (\<lambda>c b k. (2, 0, b, k)), ioctl_submit_io = (\<lambda>c b k. (2, b, k)), sys_pread = (\<lambda>n off b k. (-1, b, k))\<rparr>"

theorem ispsync_failure_unreported_witness:
  "fio_ispsyncio_queue failing_kernel (fs_os\<lparr>os_errno := \<lambda>k. 0\<rparr>) 0 fs_td (fs_read_u 0) =
     Some (FIO_Q_COMPLETED, (fs_read_u 0)\<lparr>xfer_buf := replicate 8 0, u_error := 0\<rparr>, fs_td\<lparr>sys := sys fs_td\<rparr>)"
  by (rule ispsync_failure_unreported [where err = 2 and res = 0]) (simp_all add: failing_kernel_def fs_read_u_def)


end
