(* ===== verification/Fio_Vsync.thy ===== *)
theory Fio_Vsync
  imports Fio_Sync
begin

text \<open>
  The engine \<open>vsync\<close> of \<open>src/fio/engines/sync.c\<close>: requests that follow each other in a file are collected
  in an array of at most \<open>iodepth\<close> entries and submitted as one \<open>readv\<close> or \<open>writev\<close>. The array holds the
  requests themselves; an iovec is the buffer of the request at the same index. \<open>None\<close> stands for an entry
  the fresh allocation does not yet hold.
\<close>

section \<open>The engine's state and operations\<close>

record syncio_data =
  io_us :: "io_u option list"
  queued :: cint
  events :: cint
  queued_bytes :: u64
  last_offset :: u64
  last_file :: "nat option"
  last_ddir :: fio_ddir

definition fio_vsyncio_init :: "cint \<Rightarrow> syncio_data" where
  "fio_vsyncio_init iodepth = \<lparr>io_us = replicate (unat iodepth) None, queued = 0, events = 0, queued_bytes = 0,
     last_offset = -1, last_file = None, last_ddir = DDIR_READ\<rparr>"

definition fio_vsyncio_getevents :: "cint \<Rightarrow> syncio_data \<Rightarrow> cint \<times> syncio_data" where
  "fio_vsyncio_getevents min_ev sd = (if min_ev \<noteq> 0 then (events sd, sd\<lparr>events := 0\<rparr>) else (0, sd))"

definition fio_vsyncio_event :: "syncio_data \<Rightarrow> nat \<Rightarrow> io_u option" where
  "fio_vsyncio_event sd ev = (if ev < length (io_us sd) then io_us sd ! ev else None)"

definition fio_vsyncio_append :: "syncio_data \<Rightarrow> io_u \<Rightarrow> bool" where
  "fio_vsyncio_append sd u \<longleftrightarrow> \<not> ddir_sync (u_ddir u) \<and>
     u_offset u = last_offset sd \<and> Some (u_file u) = last_file sd \<and> u_ddir u = last_ddir sd"

definition fio_vsyncio_set_iov :: "syncio_data \<Rightarrow> io_u \<Rightarrow> cint \<Rightarrow> syncio_data option" where
  "fio_vsyncio_set_iov sd u idx =
     (if unat idx < length (io_us sd)
      then Some (sd\<lparr>io_us := (io_us sd)[unat idx := Some u], last_offset := u_offset u + xfer_buflen u,
        last_file := Some (u_file u), last_ddir := u_ddir u, queued_bytes := queued_bytes sd + xfer_buflen u,
        queued := queued sd + 1\<rparr>)
      else None)"

definition fio_vsyncio_queue ::
  "'k fio_os \<Rightarrow> cint \<Rightarrow> 'k fio_td \<Rightarrow> syncio_data \<Rightarrow> io_u \<Rightarrow> (fio_q_status \<times> io_u \<times> 'k fio_td \<times> syncio_data) option" where
  "fio_vsyncio_queue S iodepth td sd u =
     (if \<not> fio_ro_check td u then None
      else if \<not> fio_vsyncio_append sd u then
        (if queued sd \<noteq> 0 then Some (FIO_Q_BUSY, u, td, sd)
         else if ddir_sync (u_ddir u) then
           let (ret, u, td) = do_io_u_sync S td u; (q, u, td) = fio_io_end S td u ret in Some (q, u, td, sd)
         else do {
           sd \<leftarrow> fio_vsyncio_set_iov (sd\<lparr>queued := 0, queued_bytes := 0\<rparr>) u 0;
           Some (FIO_Q_QUEUED, u, td, sd) })
      else if queued sd = iodepth then Some (FIO_Q_BUSY, u, td, sd)
      else do {
        sd \<leftarrow> fio_vsyncio_set_iov sd u (queued sd);
        Some (FIO_Q_QUEUED, u, td, sd) })"

text \<open>One iteration of the loop that hands the transferred bytes out to the requests.\<close>

definition vsync_end_body :: "cint \<Rightarrow> nat \<Rightarrow> u64 \<times> syncio_data \<Rightarrow> (u64 \<times> syncio_data) option" where
  "vsync_end_body err i st =
     (let (bytes, sd) = st in do {
        u \<leftarrow> fio_vsyncio_event sd i;
        if bytes = -1 then Some (bytes, sd\<lparr>io_us := (io_us sd)[i := Some (u\<lparr>u_error := err\<rparr>)]\<rparr>)
        else
          let this_io = (if xfer_buflen u < ucast (ucast bytes :: cint) then ucast (xfer_buflen u) else ucast bytes) :: cint
          in Some (bytes - ucast this_io,
               sd\<lparr>io_us := (io_us sd)[i := Some (u\<lparr>resid := xfer_buflen u - ucast this_io, u_error := 0\<rparr>)]\<rparr>) })"

definition fio_vsyncio_end ::
  "'k fio_os \<Rightarrow> 'k fio_td \<Rightarrow> syncio_data \<Rightarrow> u64 \<Rightarrow> (cint \<times> 'k fio_td \<times> syncio_data) option" where
  "fio_vsyncio_end S td sd bytes =
     (if bytes = queued_bytes sd then Some (0, td, sd)
      else let err = os_errno S (sys td) in do {
        (bytes, sd) \<leftarrow> for_loop (unat (queued sd)) (vsync_end_body err) (bytes, sd);
        Some (if bytes = -1 then (- err, td_verror err td, sd) else (0, td, sd)) })"

text \<open>The requests whose buffers a \<open>readv\<close> filled.\<close>

definition put_bufs :: "io_u option list \<Rightarrow> buffer list \<Rightarrow> io_u option list" where
  "put_bufs us bs = map (\<lambda>i. if i < length bs then map_option (\<lambda>u. u\<lparr>xfer_buf := bs ! i\<rparr>) (us ! i) else us ! i) [0..<length us]"

definition iovecs :: "syncio_data \<Rightarrow> buffer list option" where
  "iovecs sd = those (map (map_option (\<lambda>u. take (unat (xfer_buflen u)) (xfer_buf u))) (take (unat (queued sd)) (io_us sd)))"

definition fio_vsyncio_commit ::
  "'k fio_os \<Rightarrow> 'k fio_td \<Rightarrow> syncio_data \<Rightarrow> (cint \<times> 'k fio_td \<times> syncio_data) option" where
  "fio_vsyncio_commit S td sd =
     (if queued sd = 0 then Some (0, td, sd)
      else do {
        f \<leftarrow> last_file sd;
        u0 \<leftarrow> fio_vsyncio_event sd 0;
        iov \<leftarrow> iovecs sd;
        let (r, k) = os_lseek S f (u_offset u0) (sys td); td = td\<lparr>sys := k\<rparr>
        in if r = -1 then Some (- os_errno S k, td_verror (os_errno S k) td, sd)
           else
             let (ret, sd, td) =
               (if last_ddir sd = DDIR_READ
                then let (r, bs, k) = os_readv S f iov (sys td) in (r, sd\<lparr>io_us := put_bufs (io_us sd) bs\<rparr>, td\<lparr>sys := k\<rparr>)
                else let (r, k) = os_writev S f iov (sys td) in (r, sd, td\<lparr>sys := k\<rparr>))
             in fio_vsyncio_end S td (sd\<lparr>events := queued sd, queued := 0\<rparr>) ret })"

section \<open>Runs of the engine\<close>

text \<open>
  fio queues requests, commits, and collects the events, in any order. The file contract does not matter
  here: the system calls may do anything.
\<close>

inductive vsync_step :: "'k fio_os \<Rightarrow> cint \<Rightarrow> 'k fio_td \<times> syncio_data \<Rightarrow> 'k fio_td \<times> syncio_data \<Rightarrow> bool" for S iodepth where
  vs_queue: "fio_vsyncio_queue S iodepth td sd u = Some (q, u', td', sd') \<Longrightarrow> vsync_step S iodepth (td, sd) (td', sd')"
| vs_commit: "fio_vsyncio_commit S td sd = Some (ret, td', sd') \<Longrightarrow> vsync_step S iodepth (td, sd) (td', sd')"
| vs_getevents: "fio_vsyncio_getevents m sd = (n, sd') \<Longrightarrow> vsync_step S iodepth (td, sd) (td, sd')"

text \<open>The queued requests are reads or writes of one file, one behind the other.\<close>

definition batch_ok :: "cint \<Rightarrow> syncio_data \<Rightarrow> bool" where
  "batch_ok iodepth sd \<longleftrightarrow> length (io_us sd) = unat iodepth \<and> queued sd \<le> iodepth \<and>
     (\<exists>us. take (unat (queued sd)) (io_us sd) = map Some us \<and>
       (\<forall>i < length us. Some (u_file (us ! i)) = last_file sd \<and> u_ddir (us ! i) = last_ddir sd \<and>
          u_offset (us ! i) = u_offset (us ! 0) + (\<Sum>j<i. xfer_buflen (us ! j))) \<and>
       (us \<noteq> [] \<longrightarrow> last_offset sd = u_offset (us ! 0) + (\<Sum>j<length us. xfer_buflen (us ! j))))"

lemma batch_ok_empty: "length (io_us sd) = unat iodepth \<Longrightarrow> queued sd = 0 \<Longrightarrow> batch_ok iodepth sd"
  by (simp add: batch_ok_def)

lemma batch_ok_init: "batch_ok iodepth (fio_vsyncio_init iodepth)"
  by (rule batch_ok_empty) (simp_all add: fio_vsyncio_init_def)

lemma batch_set_iov_first:
  assumes "fio_vsyncio_set_iov (sd\<lparr>queued := 0, queued_bytes := 0\<rparr>) u 0 = Some sd'" "length (io_us sd) = unat iodepth"
  shows "batch_ok iodepth sd'"
proof -
  have d: "0 < unat iodepth" using assms by (simp add: fio_vsyncio_set_iov_def split: if_splits)
  then have le: "(1 :: cint) \<le> iodepth" by (simp add: word_le_nat_alt)
  obtain x xs where x: "io_us sd = x # xs" using d assms(2) by (cases "io_us sd") auto
  have sd': "io_us sd' = Some u # xs" "queued sd' = 1" "last_file sd' = Some (u_file u)" "last_ddir sd' = u_ddir u"
    "last_offset sd' = u_offset u + xfer_buflen u"
    using assms x by (auto simp: fio_vsyncio_set_iov_def split: if_splits)
  have "length (Some u # xs) = unat iodepth" using assms(2) x by simp
  moreover have "take (unat (queued sd')) (io_us sd') = map Some [u]" using sd' by simp
  ultimately show ?thesis unfolding batch_ok_def sd' using le by (intro conjI exI [of _ "[u]"]) simp_all
qed

lemma take_Suc_update: "n < length xs \<Longrightarrow> take (Suc n) (xs[n := y]) = take n xs @ [y]"
  by (simp add: take_Suc_conv_app_nth)

lemma batch_set_iov_next:
  assumes "fio_vsyncio_set_iov sd u (queued sd) = Some sd'" "batch_ok iodepth sd" "fio_vsyncio_append sd u" "queued sd \<noteq> iodepth"
  shows "batch_ok iodepth sd'"
proof -
  let ?q = "unat (queued sd)"
  from assms(2) obtain us where us: "take ?q (io_us sd) = map Some us" "length (io_us sd) = unat iodepth" "queued sd \<le> iodepth"
    "\<forall>i < length us. Some (u_file (us ! i)) = last_file sd \<and> u_ddir (us ! i) = last_ddir sd \<and>
       u_offset (us ! i) = u_offset (us ! 0) + (\<Sum>j<i. xfer_buflen (us ! j))"
    "us \<noteq> [] \<longrightarrow> last_offset sd = u_offset (us ! 0) + (\<Sum>j<length us. xfer_buflen (us ! j))"
    unfolding batch_ok_def by blast
  have "queued sd < iodepth" using us(3) assms(4) by simp
  then have less: "?q < unat iodepth" by (simp add: word_less_nat_alt)
  have "unat iodepth < 2 ^ LENGTH(32)" by (rule unsigned_less)
  with less have "queued sd + 1 = of_nat (Suc ?q)" "Suc ?q < 4294967296" by simp_all
  then have q1: "unat (queued sd + 1) = Suc ?q" by (simp only: unat_of_nat_cint)
  have len: "length us = ?q" using us(1,2) less by (metis length_map length_take less_imp_le_nat min.absorb2)
  have sd': "io_us sd' = (io_us sd)[?q := Some u]" "queued sd' = queued sd + 1" "last_file sd' = Some (u_file u)" "last_ddir sd' = u_ddir u"
    "last_offset sd' = u_offset u + xfer_buflen u"
    using assms(1) by (auto simp: fio_vsyncio_set_iov_def split: if_splits)
  have app: "u_offset u = last_offset sd" "Some (u_file u) = last_file sd" "u_ddir u = last_ddir sd"
    using assms(3) by (simp_all add: fio_vsyncio_append_def)
  let ?us = "us @ [u]"
  have t: "take (unat (queued sd')) (io_us sd') = map Some ?us"
    unfolding sd' q1 using less us(1,2) by (simp add: take_Suc_update)
  have s: "(\<Sum>j<i. xfer_buflen (?us ! j)) = (\<Sum>j<i. xfer_buflen (us ! j))" if "i \<le> length us" for i
    using that by (intro sum.cong) (auto simp: nth_append)
  have z: "u_offset (?us ! 0) + (\<Sum>j<length us. xfer_buflen (us ! j)) = u_offset u"
    using us(5) app(1) by (cases "us = []") (simp_all add: nth_append)
  have b: "Some (u_file (?us ! i)) = last_file sd' \<and> u_ddir (?us ! i) = last_ddir sd' \<and>
      u_offset (?us ! i) = u_offset (?us ! 0) + (\<Sum>j<i. xfer_buflen (?us ! j))" if "i < length ?us" for i
  proof (cases "i < length us")
    case True
    then have "?us ! i = us ! i" "?us ! 0 = us ! 0" by (auto simp: nth_append)
    with True us(4) s [of i] sd' app show ?thesis by simp
  next
    case False
    with that have "i = length us" by simp
    with z s [of i] sd' show ?thesis by simp
  qed
  have e: "last_offset sd' = u_offset (?us ! 0) + (\<Sum>j<length ?us. xfer_buflen (?us ! j))"
    using z s [of "length us"] sd'(5) by (simp add: add.assoc [symmetric])
  have le: "queued sd' \<le> iodepth" unfolding sd' word_le_nat_alt q1 using less by simp
  have "length (io_us sd') = unat iodepth" using us(2) sd'(1) by simp
  with t b e le show ?thesis unfolding batch_ok_def by blast
qed

lemma batch_ok_queue:
  assumes "fio_vsyncio_queue S iodepth td sd u = Some (q, u', td', sd')" "batch_ok iodepth sd"
  shows "batch_ok iodepth sd'"
proof (cases "fio_vsyncio_append sd u")
  case True
  with assms show ?thesis
    by (auto simp: fio_vsyncio_queue_def bind_eq_Some_conv split: if_splits intro: batch_set_iov_next)
next
  case False
  have "length (io_us sd) = unat iodepth" using assms(2) by (simp add: batch_ok_def)
  with False assms show ?thesis
    by (auto simp: fio_vsyncio_queue_def bind_eq_Some_conv Let_def split: if_splits prod.splits intro: batch_set_iov_first)
qed

lemma length_put_bufs [simp]: "length (put_bufs us bs) = length us"
  by (simp add: put_bufs_def)

lemma vsync_end_idle: "queued sd = 0 \<Longrightarrow> \<exists>ret td'. fio_vsyncio_end S td sd bytes = Some (ret, td', sd)"
  by (simp add: fio_vsyncio_end_def Let_def)

lemma commit_shape:
  assumes "queued sd \<noteq> 0" "last_file sd = Some f" "fio_vsyncio_event sd 0 = Some u0" "iovecs sd = Some iov"
  shows "(\<exists>ret td'. fio_vsyncio_commit S td sd = Some (ret, td', sd)) \<or>
    (\<exists>ret td' us. fio_vsyncio_commit S td sd = Some (ret, td', sd\<lparr>io_us := us, events := queued sd, queued := 0\<rparr>) \<and> length us = length (io_us sd))"
proof -
  obtain p k0 where p: "os_lseek S f (u_offset u0) (sys td) = (p, k0)" by fastforce
  obtain r bs k1 where r: "os_readv S f iov k0 = (r, bs, k1)" by (metis prod_cases3)
  obtain w k2 where w: "os_writev S f iov k0 = (w, k2)" by fastforce
  let ?sd = "\<lambda>us. sd\<lparr>io_us := us, events := queued sd, queued := 0\<rparr>"
  have idle: "\<exists>ret td'. fio_vsyncio_end S td1 (?sd us) bytes = Some (ret, td', ?sd us)" for td1 us bytes
    by (rule vsync_end_idle) simp
  have "sd\<lparr>events := queued sd, queued := 0\<rparr> = ?sd (io_us sd)" by simp
  then have "fio_vsyncio_commit S td sd = (if p = -1 then Some (- os_errno S k0, td_verror (os_errno S k0) (td\<lparr>sys := k0\<rparr>), sd)
      else if last_ddir sd = DDIR_READ then fio_vsyncio_end S (td\<lparr>sys := k1\<rparr>) (?sd (put_bufs (io_us sd) bs)) r
      else fio_vsyncio_end S (td\<lparr>sys := k2\<rparr>) (?sd (io_us sd)) w)"
    using assms p r w by (simp add: fio_vsyncio_commit_def)
  then show ?thesis
    using idle [of "td\<lparr>sys := k1\<rparr>" "put_bufs (io_us sd) bs" r] idle [of "td\<lparr>sys := k2\<rparr>" "io_us sd" w]
    by (cases "p = -1"; cases "last_ddir sd = DDIR_READ") (metis length_put_bufs)+
qed

lemma batch_ok_commit:
  assumes "fio_vsyncio_commit S td sd = Some (ret, td', sd')" "batch_ok iodepth sd"
  shows "batch_ok iodepth sd'"
proof (cases "queued sd = 0")
  case True
  with assms show ?thesis by (simp add: fio_vsyncio_commit_def)
next
  case False
  with assms(1) obtain f u0 iov where "last_file sd = Some f" "fio_vsyncio_event sd 0 = Some u0" "iovecs sd = Some iov"
    unfolding fio_vsyncio_commit_def by (simp only: if_False bind_eq_Some_conv) blast
  from commit_shape [OF False this, of S td] assms(1) have "sd' = sd \<or> queued sd' = 0 \<and> length (io_us sd') = length (io_us sd)" by auto
  moreover have "length (io_us sd) = unat iodepth" using assms(2) by (simp add: batch_ok_def)
  ultimately show ?thesis using assms(2) batch_ok_empty by metis
qed

lemma batch_ok_events: "batch_ok iodepth (sd\<lparr>events := e\<rparr>) = batch_ok iodepth sd"
  unfolding batch_ok_def by (cases sd) (simp only: syncio_data.select_convs syncio_data.update_convs)

lemma batch_ok_step: "vsync_step S iodepth st st' \<Longrightarrow> batch_ok iodepth (snd st) \<Longrightarrow> batch_ok iodepth (snd st')"
proof (induction rule: vsync_step.induct)
  case (vs_queue td sd u q u' td' sd')
  then show ?case using batch_ok_queue by simp
next
  case (vs_commit td sd ret td' sd')
  then show ?case using batch_ok_commit by simp
next
  case (vs_getevents m sd n sd' td)
  then have "sd' = sd \<or> sd' = sd\<lparr>events := 0\<rparr>" by (auto simp: fio_vsyncio_getevents_def split: if_splits)
  with vs_getevents(2) batch_ok_events [where sd = sd and e = 0] show ?case by auto
qed

lemma batch_ok_reachable:
  "(vsync_step S iodepth)\<^sup>*\<^sup>* (td, fio_vsyncio_init iodepth) st \<Longrightarrow> batch_ok iodepth (snd st)"
proof (induction rule: rtranclp_induct)
  case base
  show ?case by (simp add: batch_ok_init)
next
  case (step st st')
  then show ?case using batch_ok_step by blast
qed

lemma those_Some: "those (map Some xs) = Some xs"
  by (induction xs) simp_all

lemma queue_no_fault:
  assumes "batch_ok iodepth sd" "iodepth \<noteq> 0"
  shows "fio_vsyncio_queue S iodepth td sd u \<noteq> None \<longleftrightarrow> fio_ro_check td u"
proof -
  have len: "length (io_us sd) = unat iodepth" "queued sd \<le> iodepth" using assms(1) by (auto simp: batch_ok_def)
  have "0 < unat iodepth" using assms(2) by (simp add: unat_gt_0)
  then have first: "fio_vsyncio_set_iov (sd\<lparr>queued := 0, queued_bytes := 0\<rparr>) u 0 \<noteq> None"
    using len by (simp add: fio_vsyncio_set_iov_def)
  have nxt: "queued sd \<noteq> iodepth \<Longrightarrow> fio_vsyncio_set_iov sd u (queued sd) \<noteq> None"
    using len by (simp add: fio_vsyncio_set_iov_def word_less_nat_alt [symmetric])
  show ?thesis using first nxt by (auto simp: fio_vsyncio_queue_def Let_def split: prod.splits)
qed

lemma commit_no_fault:
  assumes "batch_ok iodepth sd"
  shows "fio_vsyncio_commit S td sd \<noteq> None"
proof (cases "queued sd = 0")
  case False
  let ?q = "unat (queued sd)"
  from assms obtain us where us: "take ?q (io_us sd) = map Some us" "length (io_us sd) = unat iodepth" "queued sd \<le> iodepth"
    "\<forall>i < length us. Some (u_file (us ! i)) = last_file sd" unfolding batch_ok_def by blast
  have le: "?q \<le> length (io_us sd)" using us(2,3) by (simp add: word_le_nat_alt)
  then have len: "length us = ?q" using us(1) by (metis length_map length_take min.absorb2)
  have pos: "0 < ?q" using False by (simp add: unat_gt_0)
  have "io_us sd ! 0 = Some (us ! 0)" using us(1) pos len by (metis length_greater_0_conv list.size(3) nat_less_le nth_map nth_take)
  moreover have "0 < length (io_us sd)" using le pos by linarith
  ultimately have u0: "fio_vsyncio_event sd 0 = Some (us ! 0)" by (simp add: fio_vsyncio_event_def)
  have f: "last_file sd = Some (u_file (us ! 0))" using us(4) pos len by simp
  have "map (map_option (\<lambda>u. take (unat (xfer_buflen u)) (xfer_buf u))) (map Some us) = map Some (map (\<lambda>u. take (unat (xfer_buflen u)) (xfer_buf u)) us)" by simp
  then obtain iov where iov: "iovecs sd = Some iov" unfolding iovecs_def us(1) by (simp only: those_Some)
  from commit_shape [OF False f u0 iov, of S td] show ?thesis by auto
qed (simp add: fio_vsyncio_commit_def)

section \<open>Properties\<close>

text \<open>
  C13: What \<open>vsync\<close> collects is one contiguous transfer. From a fresh engine, whatever fio queues, commits and collects and
  whatever the system calls do, the queued requests are at most \<open>iodepth\<close>, all of one file and one direction, each
  beginning where the one before it ends; no operation writes outside the arrays, and a commit never meets an
  entry that was not set.
\<close>

theorem vsync_batch_contiguous:
  assumes "(vsync_step S iodepth)\<^sup>*\<^sup>* (td, fio_vsyncio_init iodepth) (td', sd)" "iodepth \<noteq> 0"
  shows "batch_ok iodepth sd \<and> (fio_vsyncio_queue S iodepth td' sd u \<noteq> None \<longleftrightarrow> fio_ro_check td' u) \<and>
    fio_vsyncio_commit S td' sd \<noteq> None"
proof -
  have "batch_ok iodepth sd" using batch_ok_reachable [OF assms(1)] by simp
  with queue_no_fault [OF this assms(2)] commit_no_fault [OF this] show ?thesis by blast
qed

theorem vsync_batch_contiguous_witness:
  "\<exists>sd. (vsync_step fs_os 4)\<^sup>*\<^sup>* (fs_td, fio_vsyncio_init 4) (fs_td, sd) \<and> queued sd = 2 \<and> batch_ok 4 sd \<and>
    fio_vsyncio_commit fs_os fs_td sd \<noteq> None"
proof -
  obtain sd1 where q1: "fio_vsyncio_queue fs_os 4 fs_td (fio_vsyncio_init 4) (fs_read_u 0) = Some (FIO_Q_QUEUED, fs_read_u 0, fs_td, sd1)"
    "length (io_us sd1) = 4" "queued sd1 = 1" "last_offset sd1 = 8" "last_file sd1 = Some 0" "last_ddir sd1 = DDIR_READ"
    by (simp add: fio_vsyncio_queue_def fio_vsyncio_init_def fio_vsyncio_append_def fio_vsyncio_set_iov_def fio_ro_check_def fs_read_u_def
        ddir_sync_def)
  obtain sd2 where q2: "fio_vsyncio_queue fs_os 4 fs_td sd1 (fs_read_u 8) = Some (FIO_Q_QUEUED, fs_read_u 8, fs_td, sd2)" "queued sd2 = 2"
    using q1 by (simp add: fio_vsyncio_queue_def fio_vsyncio_append_def fio_vsyncio_set_iov_def fio_ro_check_def fs_read_u_def ddir_sync_def)
  have "vsync_step fs_os 4 (fs_td, fio_vsyncio_init 4) (fs_td, sd1)" by (rule vs_queue [OF q1(1)])
  moreover have "vsync_step fs_os 4 (fs_td, sd1) (fs_td, sd2)" by (rule vs_queue [OF q2(1)])
  ultimately have r: "(vsync_step fs_os 4)\<^sup>*\<^sup>* (fs_td, fio_vsyncio_init 4) (fs_td, sd2)" by (meson converse_rtranclp_into_rtranclp r_into_rtranclp)
  have "(4 :: cint) \<noteq> 0" by simp
  from vsync_batch_contiguous [OF r this] r q2(2) show ?thesis by blast
qed

text \<open>
  A short transfer of \<open>vsync\<close> goes unnoticed. The commit sets the number of queued requests to zero before the loop
  that hands the transferred bytes out to them: when \<open>readv\<close> delivers fewer bytes than asked for, even none, the
  commit returns 0, reports all queued requests as events, and leaves the residual count and the error of every
  request as they were.
\<close>

lemma vsync_short_read_unreported:
  assumes "queued sd \<noteq> 0" "last_file sd = Some f" "fio_vsyncio_event sd 0 = Some u0" "iovecs sd = Some iov" "last_ddir sd = DDIR_READ"
    and "os_lseek S f (u_offset u0) (sys td) = (p, k0)" "p \<noteq> -1" "os_readv S f iov k0 = (r, bs, k1)" "r \<noteq> -1"
  shows "\<exists>sd'. fio_vsyncio_commit S td sd = Some (0, td\<lparr>sys := k1\<rparr>, sd') \<and> events sd' = queued sd \<and>
    map (map_option (\<lambda>u. (resid u, u_error u))) (io_us sd') = map (map_option (\<lambda>u. (resid u, u_error u))) (io_us sd)"
proof -
  let ?sd = "sd\<lparr>io_us := put_bufs (io_us sd) bs, events := queued sd, queued := 0\<rparr>"
  have "fio_vsyncio_commit S td sd = fio_vsyncio_end S (td\<lparr>sys := k1\<rparr>) ?sd r"
    using assms by (simp add: fio_vsyncio_commit_def)
  also have "\<dots> = Some (0, td\<lparr>sys := k1\<rparr>, ?sd)" using assms(9) by (simp add: fio_vsyncio_end_def Let_def)
  finally have c: "fio_vsyncio_commit S td sd = Some (0, td\<lparr>sys := k1\<rparr>, ?sd)" .
  have "map (map_option (\<lambda>u. (resid u, u_error u))) (put_bufs us bs) = map (map_option (\<lambda>u. (resid u, u_error u))) us" for us
    by (intro nth_equalityI) (simp_all add: put_bufs_def option.map_comp comp_def)
  with c show ?thesis by (intro exI [of _ ?sd]) simp
qed

end
