(* ===== verification/Python_Prelude.thy ===== *)
theory Python_Prelude
  imports C_Prelude
begin

text \<open>
  What the Python programs under \<open>src/RecSSD-RecInfra-fixed.32\<close> share: exceptions as values of a sum
  type, \<open>for\<close> loops over lists whose body may raise, list indexing with Python's negative indices, and
  the calls of the C library, whose faults end the process.
\<close>

named_theorems py_simps \<open>computation rules for exceptions and loops\<close>

datatype py_error = IndexError | KeyError | ValueError | AttributeError | ZeroDivisionError | TypeError | OverflowError | NameError | SystemExit | Crash

type_synonym 'a py = "py_error + 'a"

definition py_bind :: "'a py \<Rightarrow> ('a \<Rightarrow> 'b py) \<Rightarrow> 'b py" where
  "py_bind m f = (case m of Inl e \<Rightarrow> Inl e | Inr x \<Rightarrow> f x)"

primrec py_for :: "('x \<Rightarrow> 's \<Rightarrow> 's py) \<Rightarrow> 'x list \<Rightarrow> 's \<Rightarrow> 's py" where
  "py_for f [] s = Inr s"
| "py_for f (x # xs) s = py_bind (f x s) (py_for f xs)"

text \<open>\<open>xs[i]\<close>: a negative index counts from the end.\<close>

definition py_nth :: "'a list \<Rightarrow> int \<Rightarrow> 'a py" where
  "py_nth xs i =
     (let j = (if i < 0 then i + int (length xs) else i)
      in if 0 \<le> j \<and> j < int (length xs) then Inr (xs ! nat j) else Inl IndexError)"

text \<open>A value that may be missing, with the exception its absence raises.\<close>

definition py_opt :: "py_error \<Rightarrow> 'a option \<Rightarrow> 'a py" where
  "py_opt e x = (case x of None \<Rightarrow> Inl e | Some y \<Rightarrow> Inr y)"

lemma py_bind_simps [simp, py_simps]: "py_bind (Inl e) f = Inl e" "py_bind (Inr x) f = f x"
  by (simp_all add: py_bind_def)

lemma py_opt_simps [simp, py_simps]: "py_opt e None = Inl e" "py_opt e (Some x) = Inr x"
  by (simp_all add: py_opt_def)

lemma py_bind_Inr: "py_bind m f = Inr y \<longleftrightarrow> (\<exists>x. m = Inr x \<and> f x = Inr y)"
  by (cases m) simp_all

lemma py_nth_nat [simp, py_simps]: "i < length xs \<Longrightarrow> py_nth xs (int i) = Inr (xs ! i)"
  by (simp add: py_nth_def)

lemma py_nth_Inr: "py_nth xs i = Inr x \<Longrightarrow> x \<in> set xs"
  by (auto simp: py_nth_def Let_def split: if_splits)

lemma py_for_append [py_simps]: "py_for f (xs @ ys) s = py_bind (py_for f xs s) (py_for f ys)"
proof (induction xs arbitrary: s)
  case (Cons x xs)
  then show ?case by (cases "f x s") simp_all
qed simp

text \<open>The rule for a loop over \<open>range(n)\<close> that raises nothing.\<close>

lemma py_for_range:
  assumes "P 0 s" "\<And>i s. i < n \<Longrightarrow> P i s \<Longrightarrow> \<exists>s'. f i s = Inr s' \<and> P (Suc i) s'"
  shows "\<exists>s'. py_for f [0..<n] s = Inr s' \<and> P n s'"
  using assms(2)
proof (induction n)
  case 0
  show ?case using assms(1) by simp
next
  case (Suc n)
  have "\<exists>s'. py_for f [0..<n] s = Inr s' \<and> P n s'" by (rule Suc.IH) (use Suc.prems in auto)
  then obtain s1 where "py_for f [0..<n] s = Inr s1" "P n s1" by blast
  with Suc.prems [of n s1] show ?case by (auto simp: py_for_append)
qed

text \<open>The rule for a loop over the elements of a list, with the elements done so far.\<close>

lemma py_for_list:
  assumes "P [] s" "\<And>ys x zs s. xs = ys @ x # zs \<Longrightarrow> P ys s \<Longrightarrow> \<exists>s'. f x s = Inr s' \<and> P (ys @ [x]) s'"
  shows "\<exists>s'. py_for f xs s = Inr s' \<and> P xs s'"
  using assms(2)
proof (induction xs rule: rev_induct)
  case Nil
  show ?case using assms(1) by simp
next
  case (snoc x xs)
  have "\<exists>s'. py_for f xs s = Inr s' \<and> P xs s'" by (rule snoc.IH) (use snoc.prems in auto)
  then obtain s1 where "py_for f xs s = Inr s1" "P xs s1" by blast
  with snoc.prems [of xs x "[]" s1] show ?case by (auto simp: py_for_append)
qed

text \<open>The rule for a loop that may raise: an invariant of the states it reaches.\<close>

lemma py_for_inv:
  assumes "py_for f xs s = Inr s'" "P s" "\<And>x s s'. x \<in> set xs \<Longrightarrow> P s \<Longrightarrow> f x s = Inr s' \<Longrightarrow> P s'"
  shows "P s'"
  using assms
proof (induction xs arbitrary: s)
  case (Cons x xs)
  from Cons.prems(1) obtain s1 where s1: "f x s = Inr s1" "py_for f xs s1 = Inr s'" by (auto simp: py_bind_Inr)
  show ?case by (rule Cons.IH [OF s1(2)]) (use s1(1) Cons.prems(2,3) in auto)
qed simp

text \<open>Two loops over the same list, with a relation between their states.\<close>

lemma py_for_rel:
  assumes "py_for f xs s = Inr t" "py_for g xs s' = Inr t'" "R s s'"
    and "\<And>x s s' t t'. R s s' \<Longrightarrow> f x s = Inr t \<Longrightarrow> g x s' = Inr t' \<Longrightarrow> R t t'"
  shows "R t t'"
  using assms(1-3)
proof (induction xs arbitrary: s s')
  case (Cons x xs)
  then obtain u u' where u: "f x s = Inr u" "py_for f xs u = Inr t" "g x s' = Inr u'" "py_for g xs u' = Inr t'"
    by (auto simp: py_bind_Inr)
  from Cons.IH [OF u(2,4) assms(4) [OF Cons.prems(3) u(1,3)]] show ?case .
qed simp

end
