(* ===== verification/Lru_Cache.thy ===== *)
theory Lru_Cache
  imports Python_Prelude "HOL-Library.AList" "HOL-Library.Multiset"
begin

text \<open>
  The cache of embedding rows that \<open>models/dlrm_s_caffe2.py\<close> keeps for each table, and the pass over
  the input data that fills it (static partitioning). The cache is the class \<open>LRU\<close> of the package
  lru-dict: an argument of the model, with the documented behaviour as the laws of a locale.
\<close>

section \<open>The package lru-dict\<close>

record 'c lru_ops =
  lru_new :: "nat \<Rightarrow> 'c"
  lru_has :: "int \<Rightarrow> 'c \<Rightarrow> bool"
  lru_get :: "int \<Rightarrow> 'c \<Rightarrow> (cint list \<times> 'c) option"
  lru_put :: "int \<Rightarrow> cint list \<Rightarrow> 'c \<Rightarrow> 'c"

text \<open>
  The entries of a cache, the one used last first. A lookup makes its entry the most recent one, as does
  an assignment, and an assignment to a full cache drops the entry that was not used for longest.
\<close>

locale lru_dict =
  fixes C :: "'c lru_ops"
    and entries :: "'c \<Rightarrow> (int \<times> cint list) list"
    and room :: "'c \<Rightarrow> nat"
  assumes new_law: "entries (lru_new C n) = [] \<and> room (lru_new C n) = n"
    and has_law: "lru_has C k c \<longleftrightarrow> map_of (entries c) k \<noteq> None"
    and get_law: "map_of (entries c) k = Some v \<Longrightarrow>
      \<exists>c'. lru_get C k c = Some (v, c') \<and> entries c' = (k, v) # AList.delete k (entries c) \<and> room c' = room c"
    and put_law: "entries (lru_put C k v c) = take (room c) ((k, v) # AList.delete k (entries c)) \<and>
      room (lru_put C k v c) = room c"
begin

lemma set_entries_put: "set (entries (lru_put C k v c)) \<subseteq> insert (k, v) (set (entries c))"
  using put_law set_take_subset [of "room c" "(k, v) # AList.delete k (entries c)"] by (auto simp: AList.delete_eq)

lemma set_entries_get:
  "map_of (entries c) k = Some v \<Longrightarrow> lru_get C k c = Some (v', c') \<Longrightarrow> v' = v \<and> set (entries c') \<subseteq> set (entries c)"
  using get_law [of c k v] by (auto simp: AList.delete_eq dest: map_of_SomeD)

text \<open>Rows put one after the other under different keys into a new cache: it keeps the last ones.\<close>

lemma entries_puts:
  "distinct (map fst xs) \<Longrightarrow>
   entries (fold (\<lambda>(k, v). lru_put C k v) xs (lru_new C n)) = take n (rev xs) \<and>
   room (fold (\<lambda>(k, v). lru_put C k v) xs (lru_new C n)) = n"
proof (induction xs rule: rev_induct)
  case Nil
  then show ?case using new_law by simp
next
  case (snoc x xs)
  obtain k v where x: "x = (k, v)" by fastforce
  let ?c = "fold (\<lambda>(k, v). lru_put C k v) xs (lru_new C n)"
  from snoc have c: "entries ?c = take n (rev xs)" "room ?c = n" by simp_all
  have "k \<notin> fst ` set (take n (rev xs))" using snoc.prems set_take_subset [of n "rev xs"] by (force simp: x)
  then have "AList.delete k (take n (rev xs)) = take n (rev xs)" by (force simp: AList.delete_eq filter_id_conv)
  then show ?case using put_law [of k v ?c] c by (cases n) (simp_all add: x)
qed

end

section \<open>Static partitioning\<close>

text \<open>
  \<open>profile[index] += 1\<close>, or \<open>profile[index] = 1\<close> for a new index. The order of \<open>profile.items()\<close> is up to the
  interpreter and an argument; \<open>sorted(..., reverse=True)\<close> is stable.
\<close>

definition count_index :: "int \<Rightarrow> (int \<times> nat) list \<Rightarrow> (int \<times> nat) list" where
  "count_index k prof =
     (case map_of prof k of Some n \<Rightarrow> AList.update k (n + 1) prof | None \<Rightarrow> AList.update k 1 prof)"

definition profile_table :: "nat \<Rightarrow> int list list list \<Rightarrow> nat \<Rightarrow> (int \<times> nat) list py" where
  "profile_table num_lookups lS_i i =
     py_for (\<lambda>batch prof. py_bind (py_nth batch (int i)) (\<lambda>inds. Inr (fold count_index (take num_lookups inds) prof))) lS_i []"

definition rank :: "(int \<times> nat) list \<Rightarrow> (int \<times> nat) list" where
  "rank prof = sort_key (\<lambda>x. - int (snd x)) prof"

text \<open>The loop leaves after the pass with \<open>k == 2000\<close>, so it makes 2001 passes.\<close>

definition preload_rows ::
  "'c lru_ops \<Rightarrow> cint list list \<Rightarrow> (int \<times> nat) list \<Rightarrow> 'c \<times> nat \<Rightarrow> ('c \<times> nat) py" where
  "preload_rows C W ranked =
     py_for (\<lambda>(key, value) (c, expected_hits).
       py_bind (py_nth W key) (\<lambda>row. Inr (lru_put C key row c, expected_hits + value))) (take 2001 ranked)"

definition static_partition ::
  "'c lru_ops \<Rightarrow> ((int \<times> nat) list \<Rightarrow> (int \<times> nat) list) \<Rightarrow> cint list list \<Rightarrow> nat \<Rightarrow> int list list list \<Rightarrow> nat \<Rightarrow>
   ('c list \<times> nat) py" where
  "static_partition C dict_order W num_lookups lS_i tables =
     py_for (\<lambda>i (lru, expected_hits).
       py_bind (profile_table num_lookups lS_i i) (\<lambda>prof.
       py_bind (preload_rows C W (rank (dict_order prof)) (lru_new C 2000, expected_hits)) (\<lambda>(c, expected_hits).
       Inr (lru @ [c], expected_hits)))) [0..<tables] ([], 0)"

section \<open>The profile\<close>

lemma distinct_count_index: "distinct (map fst prof) \<Longrightarrow> distinct (map fst (count_index k prof))"
  by (simp add: count_index_def distinct_update split: option.split)

lemma map_of_count_index:
  "map_of (count_index k prof) = (map_of prof)(k \<mapsto> (case map_of prof k of Some n \<Rightarrow> n + 1 | None \<Rightarrow> 1))"
  by (simp add: count_index_def update_conv' split: option.split)

text \<open>A profile of a sequence of indices: each of them once, with the number of its occurrences.\<close>

definition profiles :: "(int \<times> nat) list \<Rightarrow> int list \<Rightarrow> bool" where
  "profiles prof xs \<longleftrightarrow> distinct (map fst prof) \<and>
     (\<forall>k. map_of prof k = (if k \<in> set xs then Some (count_list xs k) else None))"

lemma profiles_Nil [simp]: "profiles [] []"
  by (simp add: profiles_def)

lemma count_list_0: "k \<notin> set xs \<Longrightarrow> count_list xs k = 0"
  by simp

lemma profiles_count_index: "profiles prof xs \<Longrightarrow> profiles (count_index k prof) (xs @ [k])"
  by (auto simp: profiles_def distinct_count_index map_of_count_index)

lemma profiles_fold: "profiles prof xs \<Longrightarrow> profiles (fold count_index ys prof) (xs @ ys)"
proof (induction ys arbitrary: prof xs)
  case (Cons y ys)
  from Cons.IH [OF profiles_count_index [OF Cons.prems, of y]] show ?case by simp
qed simp

text \<open>The indices of table \<open>i\<close> in all batches.\<close>

definition table_indices :: "nat \<Rightarrow> int list list list \<Rightarrow> nat \<Rightarrow> int list" where
  "table_indices num_lookups lS_i i = concat (map (\<lambda>batch. take num_lookups (batch ! i)) lS_i)"

lemma profile_table_run:
  assumes "\<forall>batch \<in> set lS_i. i < length batch"
  shows "\<exists>prof. profile_table n lS_i i = Inr prof \<and> profiles prof (table_indices n lS_i i)"
  unfolding profile_table_def table_indices_def
  by (rule py_for_list [where P = "\<lambda>bs prof. profiles prof (concat (map (\<lambda>b. take n (b ! i)) bs))"])
    (use assms in \<open>auto intro: profiles_fold\<close>)

lemma profiles_length: "profiles prof xs \<Longrightarrow> length prof = card (set xs)"
proof -
  assume p: "profiles prof xs"
  then have "set (map fst prof) = set xs"
    by (auto simp: profiles_def) (metis map_of_eq_None_iff option.distinct(1) fst_conv image_iff, metis map_of_eq_None_iff option.distinct(1))
  with p show ?thesis by (metis distinct_card length_map profiles_def)
qed

lemma profiles_entry: "profiles prof xs \<Longrightarrow> (k, n) \<in> set prof \<Longrightarrow> k \<in> set xs \<and> n = count_list xs k"
  by (auto simp: profiles_def split: if_splits) (metis map_of_is_SomeI option.distinct(1) option.inject)+

lemma profiles_mset:
  assumes "profiles prof xs" "mset prof' = mset prof"
  shows "profiles prof' xs"
proof -
  have "distinct (map fst prof')" using assms mset_eq_imp_distinct_iff [of "map fst prof'" "map fst prof"]
    by (simp add: profiles_def)
  moreover from this have "map_of prof' = map_of prof"
    using assms map_of_inject_set [of prof' prof] mset_eq_setD [OF assms(2)] by (simp add: profiles_def)
  ultimately show ?thesis using assms(1) by (simp add: profiles_def)
qed

lemma profiles_rank: "profiles prof xs \<Longrightarrow> profiles (rank prof) xs"
  by (erule profiles_mset) (simp add: rank_def)

lemma rank_head: "rank prof = x # ranked \<Longrightarrow> y \<in> set ranked \<Longrightarrow> snd y \<le> snd x"
  using sorted_sort_key [of "\<lambda>x. - int (snd x)" prof] by (auto simp: rank_def)

section \<open>What is preloaded\<close>

definition rows_of :: "cint list list \<Rightarrow> (int \<times> nat) list \<Rightarrow> (int \<times> cint list) list" where
  "rows_of W ranked = map (\<lambda>(key, n). (key, W ! nat key)) ranked"

lemma preload_rows_run:
  assumes "\<forall>(k, n) \<in> set ranked. 0 \<le> k \<and> k < int (length W)"
  shows "\<exists>e'. preload_rows C W ranked (c, e) = Inr (fold (\<lambda>(k, v). lru_put C k v) (rows_of W (take 2001 ranked)) c, e')"
proof -
  let ?P = "\<lambda>xs s. \<exists>e' :: nat. s = (fold (\<lambda>(k, v). lru_put C k v) (rows_of W xs) c, e')"
  have "\<exists>s. preload_rows C W ranked (c, e) = Inr s \<and> ?P (take 2001 ranked) s"
    unfolding preload_rows_def
  proof (rule py_for_list [where P = ?P])
    fix ys x zs s
    assume *: "take 2001 ranked = ys @ x # zs" "?P ys s"
    then have "x \<in> set ranked" by (metis in_set_conv_decomp in_set_takeD)
    moreover obtain k n where "x = (k, n)" by fastforce
    ultimately show "\<exists>s'. (case x of (key, value) \<Rightarrow> \<lambda>(c, expected_hits).
        py_bind (py_nth W key) (\<lambda>row. Inr (lru_put C key row c, expected_hits + value))) s = Inr s' \<and> ?P (ys @ [x]) s'"
      using assms *(2) by (auto simp: py_nth_def rows_of_def)
  qed (simp add: rows_of_def)
  then show ?thesis by auto
qed

context lru_dict
begin

lemma preload_entries:
  assumes "profiles prof xs" "\<forall>k \<in> set xs. 0 \<le> k \<and> k < int (length W)"
  shows "\<exists>c e'. preload_rows C W (rank prof) (lru_new C 2000, e) = Inr (c, e') \<and> room c = 2000 \<and>
    entries c = take 2000 (rev (rows_of W (take 2001 (rank prof))))"
proof -
  note pr = profiles_rank [OF assms(1)]
  have "\<forall>(k, n) \<in> set (rank prof). 0 \<le> k \<and> k < int (length W)"
    using profiles_entry [OF pr] assms(2) by auto
  from preload_rows_run [OF this, of C "lru_new C 2000" e] obtain e' where
    "preload_rows C W (rank prof) (lru_new C 2000, e) =
      Inr (fold (\<lambda>(k, v). lru_put C k v) (rows_of W (take 2001 (rank prof))) (lru_new C 2000), e')" by blast
  moreover have "map fst (rows_of W xs) = map fst xs" for xs by (simp add: rows_of_def split_def)
  then have "distinct (map fst (rows_of W (take 2001 (rank prof))))"
    using pr by (simp add: profiles_def distinct_take flip: take_map)
  ultimately show ?thesis using entries_puts by blast
qed

text \<open>Of more than 2000 different indices the most frequent one is dropped when the last row goes in.\<close>

lemma preload_hottest:
  assumes "entries c = take 2000 (rev (rows_of W (take 2001 ranked)))" "ranked = x # rest" "profiles ranked xs" "2000 \<le> length rest"
  shows "map_of (entries c) (fst x) = None" "length (entries c) = 2000"
proof -
  have t: "take 2001 ranked = x # take 2000 rest" using assms(2) by (simp add: numeral_eq_Suc)
  have l: "length (rows_of W (take 2000 rest)) = 2000" using assms(4) by (simp add: rows_of_def)
  then have e: "entries c = rev (rows_of W (take 2000 rest))"
    unfolding assms(1) t by (simp add: rows_of_def split: prod.split)
  have "fst x \<notin> fst ` set rest" using assms(2,3) by (simp add: profiles_def)
  moreover have "fst ` set (entries c) \<subseteq> fst ` set rest"
    unfolding e rows_of_def by (auto dest!: in_set_takeD intro: rev_image_eqI)
  ultimately have "fst x \<notin> fst ` set (entries c)" by blast
  then show "map_of (entries c) (fst x) = None" by (simp add: map_of_eq_None_iff)
  show "length (entries c) = 2000" using e l by simp
qed

end

section \<open>All tables\<close>

context lru_dict
begin

lemma static_partition_run:
  assumes "\<forall>batch \<in> set lS_i. length batch = tables" "\<And>prof. mset (dict_order prof) = mset prof"
    and "\<forall>i<tables. \<forall>k \<in> set (table_indices n lS_i i). 0 \<le> k \<and> k < int (length W)"
  shows "\<exists>lru e. static_partition C dict_order W n lS_i tables = Inr (lru, e) \<and> length lru = tables \<and>
    (\<forall>i<tables. \<exists>ranked. profiles ranked (table_indices n lS_i i) \<and> ranked = rank ranked \<and> room (lru ! i) = 2000 \<and>
       entries (lru ! i) = take 2000 (rev (rows_of W (take 2001 ranked))))"
proof -
  let ?Q = "\<lambda>i c. \<exists>ranked. profiles ranked (table_indices n lS_i i) \<and> ranked = rank ranked \<and> room c = 2000 \<and>
       entries c = take 2000 (rev (rows_of W (take 2001 ranked)))"
  let ?P = "\<lambda>m s. \<exists>lru (e :: nat). s = (lru, e) \<and> length lru = m \<and> (\<forall>i<m. ?Q i (lru ! i))"
  have "\<exists>s. static_partition C dict_order W n lS_i tables = Inr s \<and> ?P tables s"
    unfolding static_partition_def
  proof (rule py_for_range [where P = ?P])
    fix m s
    assume m: "m < tables" and "?P m s"
    then obtain lru e where s: "s = (lru, e)" "length lru = m" "\<forall>i<m. ?Q i (lru ! i)" by blast
    from m assms(1) have "\<forall>batch \<in> set lS_i. m < length batch" by simp
    from profile_table_run [OF this, of n] obtain prof where
      prof: "profile_table n lS_i m = Inr prof" "profiles prof (table_indices n lS_i m)" by blast
    have p: "profiles (dict_order prof) (table_indices n lS_i m)" using prof(2) assms(2) by (rule profiles_mset)
    from preload_entries [OF p, of W e] assms(3) m obtain c e' where
      c: "preload_rows C W (rank (dict_order prof)) (lru_new C 2000, e) = Inr (c, e')" "room c = 2000"
        "entries c = take 2000 (rev (rows_of W (take 2001 (rank (dict_order prof)))))" by blast
    have "rank (rank xs) = rank xs" for xs unfolding rank_def by (rule sort_key_id_if_sorted) (rule sorted_sort_key)
    with c p have "?Q m c" using profiles_rank by (intro exI [of _ "rank (dict_order prof)"]) simp
    with s have "?P (Suc m) (lru @ [c], e')" by (auto simp: nth_append less_Suc_eq)
    moreover have "(\<lambda>(lru, expected_hits).
       py_bind (profile_table n lS_i m) (\<lambda>prof.
       py_bind (preload_rows C W (rank (dict_order prof)) (lru_new C 2000, expected_hits)) (\<lambda>(c, expected_hits).
       Inr (lru @ [c], expected_hits)))) s = Inr (lru @ [c], e')"
      using s(1) prof(1) c(1) by simp
    ultimately show "\<exists>s'. (\<lambda>(lru, expected_hits).
       py_bind (profile_table n lS_i m) (\<lambda>prof.
       py_bind (preload_rows C W (rank (dict_order prof)) (lru_new C 2000, expected_hits)) (\<lambda>(c, expected_hits).
       Inr (lru @ [c], expected_hits)))) s = Inr s' \<and> ?P (Suc m) s'" by blast
  qed simp
  then show ?thesis by auto
qed

text \<open>What a preloaded cache holds: rows of the one table \<open>W\<close>, under indices of the input.\<close>

lemma preloaded_rows:
  assumes "entries c = take 2000 (rev (rows_of W (take 2001 ranked)))" "profiles ranked xs" "(k, v) \<in> set (entries c)"
  shows "k \<in> set xs \<and> v = W ! nat k"
proof -
  from assms(1,3) have "(k, v) \<in> set (rows_of W (take 2001 ranked))" by (auto dest: in_set_takeD)
  then obtain m where "(k, m) \<in> set ranked" "v = W ! nat k" by (auto simp: rows_of_def dest: in_set_takeD)
  with profiles_entry [OF assms(2)] show ?thesis by blast
qed

end

section \<open>A cache as a list\<close>

text \<open>The reference instance of the package's behaviour: the capacity and the entries.\<close>

definition list_lru :: "(nat \<times> (int \<times> cint list) list) lru_ops" where
  "list_lru = \<lparr>lru_new = \<lambda>n. (n, []), lru_has = \<lambda>k (n, es). map_of es k \<noteq> None,
     lru_get = \<lambda>k (n, es). (case map_of es k of None \<Rightarrow> None | Some v \<Rightarrow> Some (v, (n, (k, v) # AList.delete k es))),
     lru_put = \<lambda>k v (n, es). (n, take n ((k, v) # AList.delete k es))\<rparr>"

interpretation llru: lru_dict list_lru snd fst
  by unfold_locales (auto simp: list_lru_def split: option.splits)

section \<open>Properties\<close>

text \<open>
  C35: Static partitioning drops the row it should keep first. The loop puts 2001 rows into a cache of
  2000: whenever the input names more than 2000 different rows of a table, an index that no other index
  exceeds in frequency is missing from the cache of that table, which is full. The cached rows of every
  table are rows of the one array W.
\<close>

theorem preload_evicts_hottest:
  assumes "lru_dict C entries room" "\<forall>batch \<in> set lS_i. length batch = tables" "\<And>prof. mset (dict_order prof) = mset prof"
    and "\<forall>i<tables. \<forall>k \<in> set (table_indices n lS_i i). 0 \<le> k \<and> k < int (length W)"
  shows "\<exists>lru e. static_partition C dict_order W n lS_i tables = Inr (lru, e) \<and> length lru = tables \<and>
    (\<forall>i<tables. (\<forall>(k, v) \<in> set (entries (lru ! i)). k \<in> set (table_indices n lS_i i) \<and> v = W ! nat k) \<and>
      (2000 < card (set (table_indices n lS_i i)) \<longrightarrow> length (entries (lru ! i)) = 2000 \<and>
        (\<exists>h \<in> set (table_indices n lS_i i). map_of (entries (lru ! i)) h = None \<and>
          (\<forall>k. count_list (table_indices n lS_i i) k \<le> count_list (table_indices n lS_i i) h))))"
proof -
  from lru_dict.static_partition_run [OF assms] obtain lru e where
    r: "static_partition C dict_order W n lS_i tables = Inr (lru, e)" "length lru = tables"
      "\<And>i. i < tables \<Longrightarrow> \<exists>ranked. profiles ranked (table_indices n lS_i i) \<and> ranked = rank ranked \<and> room (lru ! i) = 2000 \<and>
         entries (lru ! i) = take 2000 (rev (rows_of W (take 2001 ranked)))" by blast
  have "\<exists>h \<in> set (table_indices n lS_i i). map_of (entries (lru ! i)) h = None \<and> length (entries (lru ! i)) = 2000 \<and>
      (\<forall>k. count_list (table_indices n lS_i i) k \<le> count_list (table_indices n lS_i i) h)"
    if i: "i < tables" and big: "2000 < card (set (table_indices n lS_i i))" for i
  proof -
    from r(3) [OF i] obtain ranked where
      k: "profiles ranked (table_indices n lS_i i)" "ranked = rank ranked"
         "entries (lru ! i) = take 2000 (rev (rows_of W (take 2001 ranked)))" by blast
    from big profiles_length [OF k(1)] obtain x rest where x: "ranked = x # rest" "2000 \<le> length rest"
      by (cases ranked) simp_all
    obtain h m where h: "x = (h, m)" by fastforce
    from profiles_entry [OF k(1), of h m] x(1) h have h': "h \<in> set (table_indices n lS_i i)" "m = count_list (table_indices n lS_i i) h" by simp_all
    have "count_list (table_indices n lS_i i) l \<le> m" for l
    proof (cases "l \<in> set (table_indices n lS_i i)")
      case True
      then have "(l, count_list (table_indices n lS_i i) l) \<in> set ranked" using k(1) by (simp add: profiles_def map_of_SomeD)
      with x(1) h rank_head [of ranked x rest] k(2) show ?thesis by (force simp: h'(2))
    qed simp
    with h' lru_dict.preload_hottest [OF assms(1) k(3) x(1) k(1) x(2)] h show ?thesis by auto
  qed
  moreover have "\<forall>(k, v) \<in> set (entries (lru ! i)). k \<in> set (table_indices n lS_i i) \<and> v = W ! nat k" if "i < tables" for i
    using r(3) [OF that] lru_dict.preloaded_rows [OF assms(1)] by blast
  ultimately show ?thesis using r(1,2) by (intro exI conjI allI impI) blast+
qed

theorem preload_evicts_hottest_witness:
  "\<exists>lru e. static_partition list_lru id (replicate 3000 [7]) 5000 [[0 # map int [0..<2500]]] 1 = Inr (lru, e) \<and>
     length (snd (lru ! 0)) = 2000 \<and> (\<exists>h. map_of (snd (lru ! 0)) h = None \<and> 2 \<le> count_list (0 # map int [0..<2500]) h)"
proof -
  define m :: nat where "m = 2500"
  let ?xs = "0 # map int [0..<m]"
  have m: "2000 < m" "m < 3000" by (simp_all add: m_def)
  have t: "table_indices 5000 [[?xs]] i = ?xs" if "i < 1" for i using that m by (simp add: table_indices_def)
  have s: "set ?xs = int ` {0..<m}" using m by auto
  then have c: "card (set ?xs) = m" by (simp add: card_image)
  have "\<forall>i<1. \<forall>k \<in> set (table_indices 5000 [[?xs]] i). 0 \<le> k \<and> k < int (length (replicate 3000 [7 :: cint]))"
    using t s m by auto
  from preload_evicts_hottest [OF llru.lru_dict_axioms _ _ this, of id] obtain lru e where
    r: "static_partition list_lru id (replicate 3000 [7]) 5000 [[?xs]] 1 = Inr (lru, e)"
      "2000 < card (set (table_indices 5000 [[?xs]] 0)) \<longrightarrow> length (snd (lru ! 0)) = 2000 \<and>
        (\<exists>h \<in> set (table_indices 5000 [[?xs]] 0). map_of (snd (lru ! 0)) h = None \<and>
          (\<forall>k. count_list (table_indices 5000 [[?xs]] 0) k \<le> count_list (table_indices 5000 [[?xs]] 0) h))"
    by auto
  have "0 \<in> set (map int [0..<m])" using m by force
  then have "count_list (map int [0..<m]) 0 \<noteq> 0" by (simp only: count_list_0_iff not_not simp_thms)
  then have "2 \<le> count_list ?xs 0" by simp
  moreover have "2000 < card (set ?xs)" unfolding c by (rule m(1))
  with r(2) obtain h where "length (snd (lru ! 0)) = 2000" "map_of (snd (lru ! 0)) h = None"
      "count_list ?xs 0 \<le> count_list ?xs h"
    unfolding t [OF zero_less_one] by blast
  ultimately have "length (snd (lru ! 0)) = 2000 \<and> (\<exists>h. map_of (snd (lru ! 0)) h = None \<and> 2 \<le> count_list ?xs h)"
    by (blast intro: le_trans)
  with r(1) have "\<exists>lru e. static_partition list_lru id (replicate 3000 [7]) 5000 [[?xs]] 1 = Inr (lru, e) \<and>
     length (snd (lru ! 0)) = 2000 \<and> (\<exists>h. map_of (snd (lru ! 0)) h = None \<and> 2 \<le> count_list ?xs h)" by blast
  then show ?thesis unfolding m_def .
qed

end
