(* ===== verification/Rec_Sls.thy ===== *)
theory Rec_Sls
  imports Unvme_Driver Lru_Cache
begin

text \<open>
  The recommendation model \<open>src/RecSSD-RecInfra-fixed.32/models/dlrm_s_caffe2.py\<close>, as far as it uses the
  embedding driver: the tables it writes to the SSD, the sparse length sums of a batch (\<open>slsload\<close>) read
  row by row (\<open>base\<close>) or summed in the SSD (\<open>ndp\<close>), the blobs it feeds to the network, and the main
  program around them. The driver is the one of \<open>Unvme_Driver\<close>, loaded as a shared library.

  The network itself is Caffe2 and only sees the blobs. Floating point arithmetic is that of numpy and
  an argument of the model, as are the random tables and input data. Time measurements are left out;
  the worker threads the program starts never get a batch and have no definition.
\<close>

section \<open>Arguments\<close>

text \<open>
  numpy: \<open>0.0\<close>, addition of floats, the conversions \<open>astype(np.float32)\<close> of a float, of an int that is an
  operand of \<open>np.add\<close>, \<open>v.astype(np.float32) / 1000000.0\<close> and \<open>float(v) / 1000000.0\<close> of an int, the hit
  rate of two counters, and \<open>np.split\<close> of a list for a batch size.
\<close>

record 'f numpy =
  np_zero :: 'f
  np_plus :: "'f \<Rightarrow> 'f \<Rightarrow> 'f"
  np_single :: "'f \<Rightarrow> 'f"
  np_int :: "cint \<Rightarrow> 'f"
  np_scale :: "cint \<Rightarrow> 'f"
  np_micro :: "cint \<Rightarrow> 'f"
  np_percent :: "nat \<Rightarrow> nat \<Rightarrow> 'f"
  np_split :: "int list \<Rightarrow> nat \<Rightarrow> int list list py"

text \<open>The library with the device, the processor's clock, and what the allocations of its calls contain.\<close>

record 'd rec_lib =
  lib_kernel :: "'d kernel"
  lib_tsc :: "nat \<Rightarrow> u64"
  lib_quot :: "u64 \<Rightarrow> u64 \<Rightarrow> cint"
  lib_addr :: u64
  lib_page :: "nat \<Rightarrow> buffer"
  lib_mem :: "nat \<Rightarrow> buffer"

text \<open>The state: the library's globals, the caches, the hit counters, and the number of calls so far.\<close>

record ('d, 'c) rec_state =
  drv :: "'d unvme"
  lru :: "'c list"
  hits :: nat
  misses :: nat
  localhits :: nat
  localmisses :: nat
  calls :: nat

text \<open>\<open>np.add\<close> of two vectors, with the broadcasting of a vector of one entry.\<close>

definition np_add :: "'f numpy \<Rightarrow> 'f list \<Rightarrow> 'f list \<Rightarrow> 'f list py" where
  "np_add N xs ys =
     (if length xs = length ys then Inr (map2 (np_plus N) xs ys)
      else if length xs = 1 then Inr (map (np_plus N (hd xs)) ys)
      else if length ys = 1 then Inr (map (\<lambda>x. np_plus N x (hd ys)) xs)
      else Inl ValueError)"

section \<open>slsload, type base\<close>

definition hit :: "nat \<Rightarrow> 'c \<Rightarrow> ('d, 'c) rec_state \<Rightarrow> ('d, 'c) rec_state" where
  "hit i c st = st\<lparr>lru := (lru st)[i := c], hits := hits st + 1, localhits := localhits st + 1\<rparr>"

definition miss :: "nat \<Rightarrow> 'c \<Rightarrow> ('d, 'c) rec_state \<Rightarrow> ('d, 'c) rec_state" where
  "miss i c st = st\<lparr>lru := (lru st)[i := c], misses := misses st + 1, localmisses := localmisses st + 1\<rparr>"

text \<open>One embedding: from the cache, or from the SSD through the library and then into the cache.\<close>

definition fetch_row ::
  "'d rec_lib \<Rightarrow> 'c lru_ops \<Rightarrow> nat \<Rightarrow> nat \<Rightarrow> nat \<Rightarrow> int \<Rightarrow> ('d, 'c) rec_state \<Rightarrow> (cint list \<times> ('d, 'c) rec_state) py" where
  "fetch_row L C m_spa qid i embedidx st =
     py_bind (py_nth (lru st) (int i)) (\<lambda>cache.
     if lru_has C embedidx cache then
       py_bind (py_opt KeyError (lru_get C embedidx cache)) (\<lambda>(read_embedding, cache).
       Inr (read_embedding, hit i cache st))
     else
       py_bind (py_opt Crash (unvme_read_embedding (lib_kernel L) (lib_tsc L) (lib_quot L) (lib_addr L)
         (word_of_int embedidx) (of_nat m_spa) (of_nat i) (of_nat qid) (drv st))) (\<lambda>(off, d).
       py_bind (py_opt Crash (those (map (\<lambda>h. ld32 (fromPageAlloc d) (off div 4 + h)) [0..<m_spa + 1]))) (\<lambda>read_embedding.
       Inr (read_embedding, miss i (lru_put C embedidx (take m_spa read_embedding) cache) (st\<lparr>drv := d\<rparr>)))))"

definition base_lookup ::
  "'d rec_lib \<Rightarrow> 'f numpy \<Rightarrow> 'c lru_ops \<Rightarrow> nat \<Rightarrow> int list list \<Rightarrow> nat \<Rightarrow> nat \<Rightarrow> nat \<Rightarrow> nat \<Rightarrow> nat \<Rightarrow>
   ('d, 'c) rec_state \<times> 'f list \<Rightarrow> (('d, 'c) rec_state \<times> 'f list) py" where
  "base_lookup L N C m_spa S_indices qid embed_per_result i j k = (\<lambda>(st, embedding).
     py_bind (py_nth S_indices (int i)) (\<lambda>inds.
     py_bind (py_nth inds (int (j * embed_per_result + k))) (\<lambda>embedidx.
     py_bind (fetch_row L C m_spa qid i embedidx st) (\<lambda>(read_embedding, st).
     py_bind (np_add N embedding (map (np_scale N) (take m_spa read_embedding))) (\<lambda>embedding.
     Inr (st, embedding))))))"

definition base_table ::
  "'d rec_lib \<Rightarrow> 'f numpy \<Rightarrow> 'c lru_ops \<Rightarrow> nat \<Rightarrow> int list list \<Rightarrow> nat \<Rightarrow> nat \<Rightarrow> nat \<Rightarrow> nat \<Rightarrow>
   ('d, 'c) rec_state \<times> 'f list list option \<Rightarrow> (('d, 'c) rec_state \<times> 'f list list option) py" where
  "base_table L N C m_spa S_indices qid batchsize embed_per_result i = (\<lambda>(st, _).
     py_bind (py_for (\<lambda>j (st, listResult).
         py_bind (py_for (base_lookup L N C m_spa S_indices qid embed_per_result i j) [0..<embed_per_result]
           (st, replicate m_spa (np_zero N))) (\<lambda>(st, embedding).
         Inr (st, listResult @ [embedding]))) [0..<batchsize] (st, [])) (\<lambda>(st, listResult).
     Inr (st, Some (map (map (np_single N)) listResult))))"

section \<open>slsload, type ndp\<close>

definition ndp_pairs :: "nat \<Rightarrow> nat \<Rightarrow> int list \<Rightarrow> (nat \<times> int) list" where
  "ndp_pairs embed_per_result batchsize indices =
     zip (concat (map (\<lambda>k. [0..<batchsize]) [0..<embed_per_result])) indices"

definition ndp_filter ::
  "'c lru_ops \<Rightarrow> nat \<Rightarrow> nat \<times> int \<Rightarrow> ('d, 'c) rec_state \<times> (nat \<times> int) list \<times> (nat \<times> cint list) list \<Rightarrow>
   (('d, 'c) rec_state \<times> (nat \<times> int) list \<times> (nat \<times> cint list) list) py" where
  "ndp_filter C i = (\<lambda>(resultidx, embedidx) (st, filtered, cached).
     py_bind (py_nth (lru st) (int i)) (\<lambda>cache.
     if lru_has C embedidx cache then
       py_bind (py_opt KeyError (lru_get C embedidx cache)) (\<lambda>(row, cache).
       Inr (hit i cache st, filtered, cached @ [(resultidx, row)]))
     else Inr (miss i cache st, filtered @ [(resultidx, embedidx)], cached)))"

definition flat_pairs :: "(nat \<times> int) list \<Rightarrow> buffer" where
  "flat_pairs filtered =
     bytes_of (concat (map (\<lambda>(r, e). [of_nat r, word_of_int e]) (sort_key snd filtered)))"

text \<open>
  \<open>listResult\<close> is a list until it becomes an array, which has no \<open>append\<close>: the flag says which. Row \<open>k\<close> is
  read from the entries \<open>k * batchsize\<close> on of the returned pointer.
\<close>

definition ndp_append ::
  "'f numpy \<Rightarrow> nat \<Rightarrow> nat \<Rightarrow> buffer \<Rightarrow> bool \<Rightarrow> nat \<Rightarrow> 'f list list \<Rightarrow> 'f list list py" where
  "ndp_append N m_spa batchsize res is_array k listResult =
     (if is_array then Inl AttributeError
      else py_bind (py_opt Crash (those (map (\<lambda>j. ld32 res (k * batchsize + j)) [0..<m_spa]))) (\<lambda>row.
        Inr (listResult @ [map (np_micro N) row])))"

definition ndp_add_cached :: "'f numpy \<Rightarrow> nat \<times> cint list \<Rightarrow> 'f list list \<Rightarrow> 'f list list py" where
  "ndp_add_cached N = (\<lambda>(resultidx, embed) listResult.
     py_bind (py_nth listResult (int resultidx)) (\<lambda>row.
     py_bind (np_add N row (map (np_int N) embed)) (\<lambda>new.
     if length new = length row then Inr (listResult[resultidx := map (np_single N) new]) else Inl ValueError)))"

definition ndp_part ::
  "'d rec_lib \<Rightarrow> 'f numpy \<Rightarrow> 'c lru_ops \<Rightarrow> nat \<Rightarrow> nat \<Rightarrow> nat \<Rightarrow> nat \<Rightarrow> nat \<Rightarrow> int list \<Rightarrow>
   ('d, 'c) rec_state \<times> 'f list list \<times> bool \<Rightarrow> (('d, 'c) rec_state \<times> 'f list list \<times> bool) py" where
  "ndp_part L N C m_spa qid batchsize embed_per_result i indices = (\<lambda>(st, listResult, is_array).
     py_bind (py_for (ndp_filter C i) (ndp_pairs embed_per_result batchsize indices) (st, [], [])) (\<lambda>(st, filtered, cached).
     py_bind (py_opt Crash (unvme_sparse_length_sum (lib_kernel L) (lib_tsc L) (lib_addr L) (lib_page L (calls st))
       (lib_mem L (calls st)) (flat_pairs filtered) (of_nat m_spa) (of_nat batchsize) (of_nat embed_per_result)
       (of_nat i) (of_nat qid) (of_nat (length filtered)) (drv st))) (\<lambda>(res, map_page, d).
     py_bind (py_for (ndp_append N m_spa batchsize res is_array) [0..<batchsize] listResult) (\<lambda>listResult.
     py_bind (py_for (ndp_add_cached N) cached (map (map (np_single N)) listResult)) (\<lambda>listResult.
     Inr (st\<lparr>drv := d, calls := calls st + 1\<rparr>, listResult, True))))))"

definition ndp_table ::
  "'d rec_lib \<Rightarrow> 'f numpy \<Rightarrow> 'c lru_ops \<Rightarrow> nat \<Rightarrow> int list list \<Rightarrow> nat \<Rightarrow> nat \<Rightarrow> nat \<Rightarrow> nat \<Rightarrow>
   ('d, 'c) rec_state \<times> 'f list list option \<Rightarrow> (('d, 'c) rec_state \<times> 'f list list option) py" where
  "ndp_table L N C m_spa S_indices qid mini_batch_size indices_per_lookup i = (\<lambda>(st, _).
     py_bind (py_nth S_indices (int i)) (\<lambda>inds.
     let inds = take (mini_batch_size * indices_per_lookup) inds;
         split = (if mini_batch_size > 128 then np_split N inds mini_batch_size else Inr [inds]);
         batchsize = (if mini_batch_size > 128 then 128 else mini_batch_size)
     in py_bind split (\<lambda>split.
     py_bind (py_for (ndp_part L N C m_spa qid batchsize indices_per_lookup i) split (st, [], False)) (\<lambda>(st, listResult, _).
     Inr (st, Some listResult)))))"

section \<open>slsload\<close>

definition slsload ::
  "'d rec_lib \<Rightarrow> 'f numpy \<Rightarrow> 'c lru_ops \<Rightarrow> string \<Rightarrow> nat \<Rightarrow> int list list \<Rightarrow> nat \<Rightarrow> nat \<Rightarrow> nat \<Rightarrow> nat \<Rightarrow>
   ('d, 'c) rec_state \<Rightarrow> (('d, 'c) rec_state \<times> 'f list list option \<times> 'f) py" where
  "slsload L N C sls_type m_spa S_indices qid tables mini_batch_size indices_per_lookup st =
     (let st = st\<lparr>localhits := 0, localmisses := 0\<rparr> in
      py_bind
        (if sls_type = ''base''
         then py_for (base_table L N C m_spa S_indices qid mini_batch_size indices_per_lookup) [0..<tables] (st, None)
         else if sls_type = ''ndp''
         then py_for (ndp_table L N C m_spa S_indices qid mini_batch_size indices_per_lookup) [0..<tables] (st, None)
         else Inr (st, None)) (\<lambda>(st, listResult).
      if localhits st + localmisses st = 0 then Inl ZeroDivisionError
      else Inr (st, listResult, np_percent N (localhits st) (localhits st + localmisses st))))"

section \<open>Tables, blobs, main program\<close>

text \<open>
  The part of \<open>create_sequential_forward_ops\<close> for the types other than dram. \<open>Ws\<close> gives the random table of
  each index; the object keeps the one written last in \<open>self.W\<close>.
\<close>

definition write_tables ::
  "'d rec_lib \<Rightarrow> nat \<Rightarrow> (nat \<Rightarrow> cint list list) \<Rightarrow> nat list \<Rightarrow>
   ('d, 'c) rec_state \<Rightarrow> (('d, 'c) rec_state \<times> cint list list option) py" where
  "write_tables L m Ws ln_emb st =
     py_for (\<lambda>i (st, _).
       py_bind (py_nth ln_emb (int i)) (\<lambda>n.
       py_bind (py_opt Crash (unvme_write_table (lib_kernel L) (lib_addr L) (lib_mem L (calls st)) (bytes_of (concat (Ws i)))
         (of_nat m) (of_nat n) (of_nat i) (drv st))) (\<lambda>d.
       Inr (st\<lparr>drv := d, calls := calls st + 1\<rparr>, Some (Ws i))))) [0..<length ln_emb] (st, None)"

text \<open>What \<open>run\<close> feeds to the network: the blob's tag, with the number of the table, and its content.\<close>

datatype ('x, 'f) blob = Dense_In "'x list" | Sls_Ind nat "int list" | Sls_Len nat "int list" | Sls_Sum nat "'f list list option"

definition dlrm_run ::
  "bool \<Rightarrow> string \<Rightarrow> nat \<Rightarrow> 'x list \<Rightarrow> int list list \<Rightarrow> int list list \<Rightarrow> 'f list list option \<Rightarrow> ('x, 'f) blob list py" where
  "dlrm_run queue sls_type emb_l X S_lengths S_indices listResult =
     (if queue then Inr []
      else if sls_type = ''dram'' then
        py_for (\<lambda>i fed.
          py_bind (py_nth S_indices (int i)) (\<lambda>inds.
          py_bind (py_nth S_lengths (int i)) (\<lambda>lens.
          Inr (fed @ [Sls_Ind i inds, Sls_Len i lens])))) [0..<emb_l] [Dense_In X]
      else if sls_type = ''base'' \<or> sls_type = ''ndp''
      then Inr (Dense_In X # map (\<lambda>i. Sls_Sum i listResult) [0..<length S_lengths])
      else Inr [Dense_In X])"

record rec_args =
  arg_sls_type :: string
  arg_queue :: bool
  arg_nepochs :: nat
  arg_mini_batch_size :: nat
  arg_indices_per_lookup :: nat
  arg_sparse_feature_size :: nat
  arg_embedding_size :: "nat list"

record 'x rec_data =
  in_X :: "'x list list"
  in_lengths :: "int list list list"
  in_indices :: "int list list list"

text \<open>The input data is cut to the batch size.\<close>

definition trim_data :: "rec_args \<Rightarrow> nat \<Rightarrow> 'x rec_data \<Rightarrow> 'x rec_data py" where
  "trim_data args nbatches data =
     (let num_lookups = arg_mini_batch_size args * arg_indices_per_lookup args in
      py_for (\<lambda>j data.
        py_bind (py_nth (in_X data) (int j)) (\<lambda>X.
        py_bind (py_nth (in_lengths data) (int j)) (\<lambda>lens.
        py_bind (py_nth (in_indices data) (int j)) (\<lambda>inds.
        py_bind (py_for (\<lambda>k (lens, inds).
            py_bind (py_nth lens (int k)) (\<lambda>l.
            py_bind (py_nth inds (int k)) (\<lambda>is.
            Inr (lens[k := take (arg_mini_batch_size args) l], inds[k := take num_lookups is]))))
          [0..<length (arg_embedding_size args)] (lens, inds)) (\<lambda>(lens, inds).
        Inr (data\<lparr>in_X := (in_X data)[j := take (arg_mini_batch_size args) X],
          in_lengths := (in_lengths data)[j := lens], in_indices := (in_indices data)[j := inds]\<rparr>)))))) [0..<nbatches] data)"

text \<open>One batch of the main loop: load the sums and run the network on them.\<close>

definition run_batch ::
  "'d rec_lib \<Rightarrow> 'f numpy \<Rightarrow> 'c lru_ops \<Rightarrow> rec_args \<Rightarrow> 'x rec_data \<Rightarrow> nat \<Rightarrow>
   ('d, 'c) rec_state \<times> ('x, 'f) blob list list \<times> 'f list \<Rightarrow> (('d, 'c) rec_state \<times> ('x, 'f) blob list list \<times> 'f list) py" where
  "run_batch L N C args data i = (\<lambda>(st, fed, batchhitrate).
     py_bind (py_nth (in_X data) (int i)) (\<lambda>X.
     py_bind (py_nth (in_lengths data) (int i)) (\<lambda>S_lengths.
     py_bind (py_nth (in_indices data) (int i)) (\<lambda>S_indices.
     py_bind (slsload L N C (arg_sls_type args) (arg_sparse_feature_size args) S_indices 0
       (length (arg_embedding_size args)) (arg_mini_batch_size args) (arg_indices_per_lookup args) st) (\<lambda>(st, listResult, localhitrate).
     py_bind (dlrm_run (arg_queue args) (arg_sls_type args) (length (arg_embedding_size args)) X S_lengths S_indices listResult) (\<lambda>blobs.
     Inr (st, fed @ [blobs], batchhitrate[i := localhitrate])))))))"

definition run_epochs ::
  "'d rec_lib \<Rightarrow> 'f numpy \<Rightarrow> 'c lru_ops \<Rightarrow> rec_args \<Rightarrow> 'x rec_data \<Rightarrow> nat \<Rightarrow>
   ('d, 'c) rec_state \<times> ('x, 'f) blob list list \<times> 'f list \<Rightarrow> (('d, 'c) rec_state \<times> ('x, 'f) blob list list \<times> 'f list) py" where
  "run_epochs L N C args data nbatches =
     py_for (\<lambda>k. py_for (run_batch L N C args data) [0..<nbatches]) [0..<arg_nepochs args]"

text \<open>
  The main program on its input data: open the library, write the tables, fill the caches, run the
  epochs, close the library. It is entered with the globals of the freshly loaded library.
\<close>

definition rec_main ::
  "'d rec_lib \<Rightarrow> 'f numpy \<Rightarrow> 'c lru_ops \<Rightarrow> ((int \<times> nat) list \<Rightarrow> (int \<times> nat) list) \<Rightarrow> (nat \<Rightarrow> cint list list) \<Rightarrow>
   rec_args \<Rightarrow> 'x rec_data \<Rightarrow> nat \<Rightarrow> bool \<Rightarrow> buffer \<Rightarrow> 'd unvme \<Rightarrow>
   (('d, 'c) rec_state \<times> ('x, 'f) blob list list \<times> 'f list) py" where
  "rec_main L N C dict_order Ws args data nbatches opened pg d =
     (let num_lookups = arg_mini_batch_size args * arg_indices_per_lookup args;
          ln_emb = arg_embedding_size args;
          d = isp_stats_clear_unvme (lib_kernel L) (open_unvme opened pg d);
          st = \<lparr>drv = d, lru = [], hits = 0, misses = 0, localhits = 0, localmisses = 0, calls = 0\<rparr>
      in py_bind (trim_data args nbatches data) (\<lambda>data.
      py_bind
        (if arg_sls_type args = ''dram'' then Inr st
         else
           py_bind (write_tables L (arg_sparse_feature_size args) Ws ln_emb st) (\<lambda>(st, W).
           py_bind (case W of None \<Rightarrow> Inr ([], 0)
             | Some W \<Rightarrow> static_partition C dict_order W num_lookups (take nbatches (in_indices data)) (length ln_emb)) (\<lambda>(caches, expected_hits).
           Inr (st\<lparr>lru := caches\<rparr>)))) (\<lambda>st.
      py_bind (run_epochs L N C args data nbatches (st, [], replicate nbatches (np_zero N))) (\<lambda>(st, fed, batchhitrate).
      let d = close_unvme (flush_unvme (isp_stats_clear_unvme (lib_kernel L) (isp_stats_unvme (lib_kernel L) (drv st))))
      in Inr (st\<lparr>drv := d\<rparr>, fed, batchhitrate)))))"

section \<open>Rows of a table\<close>

text \<open>The row \<open>e\<close> of table \<open>tid\<close> in the blocks \<open>f\<close> of an SSD, for vectors of \<open>vl\<close> entries, \<open>s\<close> of them to a block.\<close>

definition ssd_row :: "(nat \<Rightarrow> buffer) \<Rightarrow> nat \<Rightarrow> nat \<Rightarrow> nat \<Rightarrow> nat \<Rightarrow> cint list" where
  "ssd_row f vl s tid e = take vl (drop (vl * (e mod s)) (ints_of (f (table_base tid + e div s))))"

lemma those_map_Some: "(\<And>x. x \<in> set xs \<Longrightarrow> f x = Some (g x)) \<Longrightarrow> those (map f xs) = Some (map g xs)"
  by (induction xs) simp_all

lemma take_drop_nth: "m + n \<le> length xs \<Longrightarrow> take n (drop m xs) = map (\<lambda>i. xs ! (m + i)) [0..<n]"
  by (rule nth_equalityI) simp_all

lemma slot_less:
  fixes vl s e :: nat
  assumes "vl * s = 1024"
  shows "vl * (e mod s) + vl \<le> 1024" "4 * vl * e div 4096 = e div s" "e mod s + 1 < s \<Longrightarrow> vl * (e mod s) + vl < 1024"
proof -
  have pos: "0 < vl" "0 < s" using assms by (auto intro: gr0I)
  have "e mod s + 1 \<le> s" using pos(2) by (simp add: Suc_leI)
  then have "vl * (e mod s + 1) \<le> vl * s" by (rule mult_le_mono2)
  with assms show "vl * (e mod s) + vl \<le> 1024" by simp
  have p: "4 * vl * s = 4096" by (simp add: mult.assoc assms)
  have "4 * vl * e div (4 * vl * s) = e div s" using pos(1) by (intro div_mult_mult1) simp
  then show "4 * vl * e div 4096 = e div s" unfolding p .
  assume "e mod s + 1 < s"
  then have "vl * (e mod s + 1) < vl * s" using pos(1) by (rule mult_less_mono2)
  with assms show "vl * (e mod s) + vl < 1024" by simp
qed

lemma length_ssd_row: "vl * s = 1024 \<Longrightarrow> length (f (table_base tid + e div s)) = 4096 \<Longrightarrow> length (ssd_row f vl s tid e) = vl"
  using slot_less(1) [of vl s e] by (simp add: ssd_row_def)

text \<open>The entries read through the pointer the driver returns: the row, and behind it the time.\<close>

lemma read_back:
  assumes "vl * s = 1024" "length blk = 4096" "st32 blk (vl * (e mod s) + vl) t = Some pg" "e mod s + 1 < s"
  shows "those (map (\<lambda>h. ld32 pg (4 * vl * (e mod s) div 4 + h)) [0..<vl + 1]) =
    Some (take vl (drop (vl * (e mod s)) (ints_of blk)) @ [t])" "length pg = 4096"
proof -
  note b = slot_less [OF assms(1), of e]
  let ?o = "vl * (e mod s)"
  show len: "length pg = 4096" using st32_eq_Some [OF assms(3)] assms(2) by simp
  have ints: "ints_of pg = (ints_of blk)[?o + vl := t]"
    using assms(2,3) b(3) [OF assms(4)] by (simp add: st32_ints_of st32_eq_Some buf_simps split: if_splits)
  have o: "4 * vl * (e mod s) div 4 = ?o" by (simp add: mult.assoc)
  have "those (map (\<lambda>h. ld32 pg (?o + h)) [0..<vl + 1]) = Some (map (\<lambda>h. ints_of pg ! (?o + h)) [0..<vl + 1])"
    using len b(3) [OF assms(4)] by (intro those_map_Some) (auto simp: ld32_ints_of)
  also have "map (\<lambda>h. ints_of pg ! (?o + h)) [0..<vl + 1] = map (\<lambda>h. ints_of blk ! (?o + h)) [0..<vl] @ [t]"
    unfolding ints using assms(2) b(3) [OF assms(4)] by simp
  finally show "those (map (\<lambda>h. ld32 pg (4 * vl * (e mod s) div 4 + h)) [0..<vl + 1]) =
      Some (take vl (drop ?o (ints_of blk)) @ [t])"
    using assms(2) b(1) by (simp add: o take_drop_nth [of ?o vl "ints_of blk"])
qed

text \<open>An index the driver can read: its block is on the SSD and it is not the last row of its block.\<close>

definition fetchable :: "nat \<Rightarrow> nat \<Rightarrow> nat \<Rightarrow> nat \<Rightarrow> int \<Rightarrow> bool" where
  "fetchable cap vl s tid e \<longleftrightarrow> 0 \<le> e \<and> 4 * vl * nat e < 2147483648 \<and> table_base tid + nat e div s < cap \<and> nat e mod s + 1 < s"

text \<open>
  What a call of type base needs of its indices: the tables have them, and each can be read.
\<close>

definition indices_ok :: "nat \<Rightarrow> nat \<Rightarrow> nat \<Rightarrow> int list list \<Rightarrow> nat \<Rightarrow> nat \<Rightarrow> bool" where
  "indices_ok cap vl s S_indices tables m \<longleftrightarrow> tables \<le> length S_indices \<and>
     (\<forall>i<tables. m \<le> length (S_indices ! i) \<and> (\<forall>k<m. fetchable cap vl s i (S_indices ! i ! k)))"

definition base_rows :: "(nat \<Rightarrow> int \<Rightarrow> cint list \<Rightarrow> bool) \<Rightarrow> nat \<Rightarrow> int list \<Rightarrow> nat \<Rightarrow> nat \<Rightarrow> cint list list \<Rightarrow> bool" where
  "base_rows R i inds epr j rows \<longleftrightarrow> length rows = epr \<and> (\<forall>k<epr. R i (inds ! (j * epr + k)) (rows ! k))"

text \<open>A table of \<open>n\<close> rows that can be written: its size is an int, it ends at a block boundary, and there is room for it.\<close>

definition table_fits :: "'d rec_lib \<Rightarrow> nat \<Rightarrow> nat \<Rightarrow> nat \<Rightarrow> nat \<Rightarrow> nat \<Rightarrow> cint list list \<Rightarrow> bool" where
  "table_fits L cap vl s i n W \<longleftrightarrow> length W = n \<and> (\<forall>row \<in> set W. length row = vl) \<and> 0 < n \<and> s dvd n \<and> 4 * vl * n < 2147483648 \<and>
     4 * vl * n + 4 \<le> length (lib_mem L i) \<and> table_base i + 4 * vl * n div 4096 \<le> cap"

section \<open>The host of a reliable SSD\<close>

locale rec_host = reliable_ssd K ok blk page prog rest cap + lru_dict C entries room
  for K :: "'d kernel" and ok :: "'d \<Rightarrow> bool" and blk :: "'d \<Rightarrow> nat \<Rightarrow> buffer" and page :: "'d \<Rightarrow> nat \<Rightarrow> buffer"
    and prog :: ebpf_prog and rest :: "nvme_passthru_cmd \<Rightarrow> cint \<times> cint \<times> cint" and cap :: nat
    and C :: "'c lru_ops" and entries :: "'c \<Rightarrow> (int \<times> cint list) list" and room :: "'c \<Rightarrow> nat" +
  fixes L :: "'d rec_lib" and vl :: nat and s :: nat
  assumes library: "lib_kernel L = K"
    and clock: "\<exists>k>p. 0 < sint (lib_tsc L k - lib_tsc L p)"
    and int_blocks: "cap \<le> 2147483648"
    and full_pages: "vl * s = 1024"
begin

text \<open>
  A state of the host over the blocks \<open>B\<close>. Every cached row \<open>v\<close> of table \<open>i\<close> under the index \<open>k\<close> has the
  property \<open>R i k v\<close>.
\<close>

definition host_ok :: "(nat \<Rightarrow> int \<Rightarrow> cint list \<Rightarrow> bool) \<Rightarrow> (nat \<Rightarrow> buffer) \<Rightarrow> nat \<Rightarrow> ('d, 'c) rec_state \<Rightarrow> bool" where
  "host_ok R B tables st \<longleftrightarrow> ok (dev (drv st)) \<and> blk (dev (drv st)) = B \<and> fd_open (drv st) \<and>
     length (fromPageAlloc (drv st)) = 4096 \<and> length (lru st) = tables \<and>
     (\<forall>i<tables. \<forall>k v. (k, v) \<in> set (entries (lru st ! i)) \<longrightarrow> R i k v)"

text \<open>The hits and misses so far, of this call and of all calls.\<close>

definition lookups :: "('d, 'c) rec_state \<Rightarrow> nat \<times> nat" where
  "lookups st = (localhits st + localmisses st, hits st + misses st)"

lemma host_ok_hit:
  assumes "host_ok R B n st" "i < n" "set (entries c) \<subseteq> set (entries (lru st ! i))"
  shows "host_ok R B n (hit i c st)"
  using assms by (auto simp: host_ok_def hit_def nth_list_update split: if_splits)

lemma host_ok_miss:
  assumes "host_ok R B n st" "i < n" "set (entries c) \<subseteq> insert (k, v) (set (entries (lru st ! i)))" "R i k v"
  shows "host_ok R B n (miss i c st)"
  using assms by (fastforce simp: host_ok_def miss_def nth_list_update split: if_splits)

lemma driver_read:
  assumes "ok (dev d)" "fd_open d" "length (fromPageAlloc d) = 4096" "fetchable cap vl s tid e"
  shows "\<exists>off d' t. unvme_read_embedding (lib_kernel L) (lib_tsc L) (lib_quot L) (lib_addr L) (word_of_int e) (of_nat vl) (of_nat tid) q d = Some (off, d') \<and>
    those (map (\<lambda>h. ld32 (fromPageAlloc d') (off div 4 + h)) [0..<vl + 1]) = Some (ssd_row (blk (dev d)) vl s tid (nat e) @ [t]) \<and>
    ok (dev d') \<and> blk (dev d') = blk (dev d) \<and> fd_open d' \<and> length (fromPageAlloc d') = 4096"
proof -
  from clock obtain k where k: "tsc_pos d < k" "0 < sint (lib_tsc L k - lib_tsc L (tsc_pos d))" by blast
  let ?n = "nat e" and ?q = "nat e div s"
  have e: "word_of_int e = (of_nat ?n :: cint)" "4 * vl * ?n < 2147483648" "table_base tid + ?q < cap" "?n mod s + 1 < s"
    using assms(4) by (simp_all add: fetchable_def of_nat_nat)
  note q = slot_less(2) [OF full_pages, of ?n]
  have b: "table_base tid + 4 * vl * ?n div 4096 < cap" using e(3) unfolding q .
  from read_embedding_run [where st = d and tsc = "lib_tsc L" and quot = "lib_quot L" and a = "lib_addr L" and qid = q,
      OF assms(1-3) int_blocks full_pages e(2) b k] obtain d1 t where
    r: "unvme_read_embedding (lib_kernel L) (lib_tsc L) (lib_quot L) (lib_addr L) (word_of_int e) (of_nat vl) (of_nat tid) q d =
      do { pg \<leftarrow> st32 (blk (dev d) (table_base tid + ?q)) (vl * (?n mod s) + vl) t;
           Some (4 * vl * (?n mod s), d1\<lparr>fromPageAlloc := pg\<rparr>) }"
      "ok (dev d1)" "blk (dev d1) = blk (dev d)" "fd_open d1"
    unfolding q e(1) library by blast
  note len = blk_length [OF assms(1), of "table_base tid + ?q"]
  from slot_less(3) [OF full_pages e(4)] st32_Some [of "vl * (?n mod s) + vl" "blk (dev d) (table_base tid + ?q)" t] len
  obtain pg where pg: "st32 (blk (dev d) (table_base tid + ?q)) (vl * (?n mod s) + vl) t = Some pg" by auto
  from read_back [OF full_pages len pg e(4)] r pg show ?thesis by (auto simp: ssd_row_def)
qed

text \<open>Conditions on \<open>R\<close>: rows have the length of vectors, and what is read from the SSD has the property.\<close>

definition row_prop :: "(nat \<Rightarrow> int \<Rightarrow> cint list \<Rightarrow> bool) \<Rightarrow> (nat \<Rightarrow> buffer) \<Rightarrow> bool" where
  "row_prop R B \<longleftrightarrow> (\<forall>i k v. R i k v \<longrightarrow> length v = vl) \<and> (\<forall>i k. fetchable cap vl s i k \<longrightarrow> R i k (ssd_row B vl s i (nat k)))"

lemma row_prop_length: "row_prop R B \<Longrightarrow> R i k v \<Longrightarrow> length v = vl"
  unfolding row_prop_def by blast

lemma row_prop_fetch: "row_prop R B \<Longrightarrow> fetchable cap vl s i k \<Longrightarrow> R i k (ssd_row B vl s i (nat k))"
  unfolding row_prop_def by blast

lemma fetch_row_run:
  assumes "host_ok R B n st" "row_prop R B" "i < n" "fetchable cap vl s i e"
  shows "\<exists>r st'. fetch_row L C vl q i e st = Inr (r, st') \<and> R i e (take vl r) \<and> host_ok R B n st' \<and>
    lookups st' = (fst (lookups st) + 1, snd (lookups st) + 1)"
proof -
  let ?c = "lru st ! i"
  have i: "i < length (lru st)" using assms(1,3) by (simp add: host_ok_def)
  show ?thesis
  proof (cases "map_of (entries ?c) e")
    case None
    from assms(1) have d: "ok (dev (drv st))" "fd_open (drv st)" "length (fromPageAlloc (drv st)) = 4096" "blk (dev (drv st)) = B"
      by (simp_all add: host_ok_def)
    from driver_read [OF d(1-3) assms(4), of "of_nat q"] obtain off d' t where
      r: "unvme_read_embedding (lib_kernel L) (lib_tsc L) (lib_quot L) (lib_addr L) (word_of_int e) (of_nat vl) (of_nat i) (of_nat q) (drv st) = Some (off, d')"
        "those (map (\<lambda>h. ld32 (fromPageAlloc d') (off div 4 + h)) [0..<vl + 1]) = Some (ssd_row B vl s i (nat e) @ [t])"
        "ok (dev d')" "blk (dev d') = B" "fd_open d'" "length (fromPageAlloc d') = 4096"
      unfolding d(4) by blast
    let ?row = "ssd_row B vl s i (nat e)"
    have R: "R i e ?row" using assms(2,4) by (rule row_prop_fetch)
    note len = row_prop_length [OF assms(2) R]
    let ?st' = "miss i (lru_put C e ?row ?c) (st\<lparr>drv := d'\<rparr>)"
    have "host_ok R B n (st\<lparr>drv := d'\<rparr>)" using assms(1) r(3-6) by (simp add: host_ok_def)
    from host_ok_miss [where k = e and v = ?row, OF this assms(3) _ R] set_entries_put have "host_ok R B n ?st'" by simp
    moreover have "fetch_row L C vl q i e st = Inr (?row @ [t], ?st')"
      using None i r(1,2) len has_law [of e ?c] by (simp add: fetch_row_def del: upt_Suc)
    moreover have "lookups ?st' = (fst (lookups st) + 1, snd (lookups st) + 1)" by (simp add: lookups_def miss_def)
    ultimately show ?thesis using R len by (intro exI conjI) (assumption, simp_all)
  next
    case (Some v)
    from get_law [OF Some] obtain c where c: "lru_get C e ?c = Some (v, c)" by blast
    from set_entries_get [OF Some c] host_ok_hit [OF assms(1,3)] have "host_ok R B n (hit i c st)" by blast
    moreover from Some have "(e, v) \<in> set (entries ?c)" by (rule map_of_SomeD)
    then have v: "R i e v" using assms(1,3) unfolding host_ok_def by blast
    moreover note row_prop_length [OF assms(2) v]
    moreover have "fetch_row L C vl q i e st = Inr (v, hit i c st)"
      using Some i c has_law [of e ?c] by (simp add: fetch_row_def)
    moreover have "lookups (hit i c st) = (fst (lookups st) + 1, snd (lookups st) + 1)" by (simp add: lookups_def hit_def)
    ultimately show ?thesis by (intro exI conjI) (assumption, simp_all)
  qed
qed

end

text \<open>The sum of rows as numpy adds them up.\<close>

definition np_sum :: "'f numpy \<Rightarrow> nat \<Rightarrow> cint list list \<Rightarrow> 'f list" where
  "np_sum N vl rows = fold (\<lambda>row acc. map2 (np_plus N) acc (map (np_scale N) row)) rows (replicate vl (np_zero N))"

lemma np_sum_Nil [simp]: "np_sum N vl [] = replicate vl (np_zero N)"
  by (simp add: np_sum_def)

lemma np_sum_snoc: "np_sum N vl (rows @ [row]) = map2 (np_plus N) (np_sum N vl rows) (map (np_scale N) row)"
  by (simp add: np_sum_def)

lemma length_np_sum: "\<forall>row \<in> set rows. length row = vl \<Longrightarrow> length (np_sum N vl rows) = vl"
  by (induction rows rule: rev_induct) (simp_all add: np_sum_snoc)

context rec_host
begin

lemma base_row_run:
  assumes "host_ok R B n st" "row_prop R B" "i < n" "n \<le> length S_indices" "j * epr + epr \<le> length (S_indices ! i)"
    and "\<forall>k<epr. fetchable cap vl s i (S_indices ! i ! (j * epr + k))"
  shows "\<exists>st' rows. py_for (base_lookup L N C vl S_indices q epr i j) [0..<epr] (st, replicate vl (np_zero N)) =
      Inr (st', np_sum N vl rows) \<and> length rows = epr \<and> (\<forall>k<epr. R i (S_indices ! i ! (j * epr + k)) (rows ! k)) \<and>
      host_ok R B n st' \<and> lookups st' = (fst (lookups st) + epr, snd (lookups st) + epr)"
proof -
  let ?P = "\<lambda>m (st', acc). \<exists>rows. acc = np_sum N vl rows \<and> length rows = m \<and> (\<forall>k<m. R i (S_indices ! i ! (j * epr + k)) (rows ! k)) \<and>
      host_ok R B n st' \<and> lookups st' = (fst (lookups st) + m, snd (lookups st) + m)"
  have "\<exists>s. py_for (base_lookup L N C vl S_indices q epr i j) [0..<epr] (st, replicate vl (np_zero N)) = Inr s \<and> ?P epr s"
  proof (rule py_for_range [where P = ?P])
    show "?P 0 (st, replicate vl (np_zero N))" using assms(1) by simp
  next
    fix m s
    assume m: "m < epr" and "?P m s"
    then obtain st1 rows where s: "s = (st1, np_sum N vl rows)" "length rows = m" "\<forall>k<m. R i (S_indices ! i ! (j * epr + k)) (rows ! k)"
      "host_ok R B n st1" "lookups st1 = (fst (lookups st) + m, snd (lookups st) + m)" by (auto split: prod.splits)
    let ?e = "S_indices ! i ! (j * epr + m)"
    from fetch_row_run [OF s(4) assms(2,3), of ?e q] assms(6) m obtain r st2 where
      f: "fetch_row L C vl q i ?e st1 = Inr (r, st2)" "R i ?e (take vl r)" "host_ok R B n st2"
        "lookups st2 = (fst (lookups st1) + 1, snd (lookups st1) + 1)" by blast
    have len: "\<forall>row \<in> set (rows @ [take vl r]). length row = vl"
      using s(2,3) row_prop_length [OF assms(2)] row_prop_length [OF assms(2) f(2)] by (auto simp: in_set_conv_nth) blast
    then have "length (np_sum N vl rows) = length (map (np_scale N) (take vl r))" using length_np_sum [of rows vl N] by simp
    then have "base_lookup L N C vl S_indices q epr i j m s = Inr (st2, np_sum N vl (rows @ [take vl r]))"
      using s(1) m assms(3-5) f(1) by (simp add: base_lookup_def np_add_def np_sum_snoc flip: of_nat_mult of_nat_add)
    moreover have "?P (Suc m) (st2, np_sum N vl (rows @ [take vl r]))"
      using s f by (auto intro!: exI [of _ "rows @ [take vl r]"] simp: nth_append less_Suc_eq)
    ultimately show "\<exists>s'. base_lookup L N C vl S_indices q epr i j m s = Inr s' \<and> ?P (Suc m) s'" by blast
  qed
  then show ?thesis by auto
qed

lemma base_table_run:
  assumes "host_ok R B n st" "row_prop R B" "i < n" "indices_ok cap vl s S_indices n (bs * epr)"
  shows "\<exists>st' rowss. base_table L N C vl S_indices q bs epr i (st, r) =
      Inr (st', Some (map (map (np_single N) \<circ> np_sum N vl) rowss)) \<and> length rowss = bs \<and>
      (\<forall>j<bs. base_rows R i (S_indices ! i) epr j (rowss ! j)) \<and>
      host_ok R B n st' \<and> lookups st' = (fst (lookups st) + bs * epr, snd (lookups st) + bs * epr)"
proof -
  let ?f = "\<lambda>j (st, listResult).
    py_bind (py_for (base_lookup L N C vl S_indices q epr i j) [0..<epr] (st, replicate vl (np_zero N))) (\<lambda>(st, embedding).
    Inr (st, listResult @ [embedding]))"
  let ?P = "\<lambda>m (st', acc). \<exists>rowss. acc = map (np_sum N vl) rowss \<and> length rowss = m \<and>
      (\<forall>j<m. base_rows R i (S_indices ! i) epr j (rowss ! j)) \<and>
      host_ok R B n st' \<and> lookups st' = (fst (lookups st) + m * epr, snd (lookups st) + m * epr)"
  have "\<exists>z. py_for ?f [0..<bs] (st, []) = Inr z \<and> ?P bs z"
  proof (rule py_for_range [where P = ?P])
    show "?P 0 (st, [])" using assms(1) by simp
  next
    fix m z
    assume m: "m < bs" and "?P m z"
    then obtain st1 rowss where s: "z = (st1, map (np_sum N vl) rowss)" "length rowss = m"
      "\<forall>j<m. base_rows R i (S_indices ! i) epr j (rowss ! j)"
      "host_ok R B n st1" "lookups st1 = (fst (lookups st) + m * epr, snd (lookups st) + m * epr)" by (auto split: prod.splits)
    have "Suc m * epr \<le> bs * epr" using m by (intro mult_le_mono1) simp
    then have le: "m * epr + epr \<le> bs * epr" by simp
    with assms(3,4) have "n \<le> length S_indices" "m * epr + epr \<le> length (S_indices ! i)"
      "\<forall>k<epr. fetchable cap vl s i (S_indices ! i ! (m * epr + k))" by (auto simp: indices_ok_def intro: le_trans)
    from base_row_run [OF s(4) assms(2,3) this, of N q] obtain st2 rows where
      f: "py_for (base_lookup L N C vl S_indices q epr i m) [0..<epr] (st1, replicate vl (np_zero N)) = Inr (st2, np_sum N vl rows)"
        "base_rows R i (S_indices ! i) epr m rows" "host_ok R B n st2"
        "lookups st2 = (fst (lookups st1) + epr, snd (lookups st1) + epr)" unfolding base_rows_def by blast
    have "?f m z = Inr (st2, map (np_sum N vl) (rowss @ [rows]))" using s(1) f(1) by simp
    moreover have "?P (Suc m) (st2, map (np_sum N vl) (rowss @ [rows]))"
      using s f by (auto intro!: exI [of _ "rowss @ [rows]"] simp: nth_append less_Suc_eq)
    ultimately show "\<exists>s'. ?f m z = Inr s' \<and> ?P (Suc m) s'" by blast
  qed
  then obtain st' rowss where "py_for ?f [0..<bs] (st, []) = Inr (st', map (np_sum N vl) rowss)" "length rowss = bs"
      "\<forall>j<bs. base_rows R i (S_indices ! i) epr j (rowss ! j)" "host_ok R B n st'"
      "lookups st' = (fst (lookups st) + bs * epr, snd (lookups st) + bs * epr)" by auto
  then show ?thesis unfolding base_table_def by (intro exI [of _ st'] exI [of _ rowss]) simp
qed

text \<open>Of the results of the tables only that of the last one is left.\<close>

lemma slsload_base_run:
  assumes "host_ok R B n st" "row_prop R B" "0 < n" "indices_ok cap vl s S_indices n (bs * epr)" "0 < bs * epr"
  shows "\<exists>st' rowss rate. slsload L N C ''base'' vl S_indices q n bs epr st =
      Inr (st', Some (map (map (np_single N) \<circ> np_sum N vl) rowss), rate) \<and> length rowss = bs \<and>
      (\<forall>j<bs. base_rows R (n - 1) (S_indices ! (n - 1)) epr j (rowss ! j)) \<and>
      host_ok R B n st' \<and> hits st' + misses st' = hits st + misses st + n * (bs * epr)"
proof -
  let ?st = "st\<lparr>localhits := 0, localmisses := 0\<rparr>"
  let ?P = "\<lambda>m (st', r). host_ok R B n st' \<and> lookups st' = (m * (bs * epr), snd (lookups st) + m * (bs * epr)) \<and>
    (0 < m \<longrightarrow> (\<exists>rowss. r = Some (map (map (np_single N) \<circ> np_sum N vl) rowss) \<and> length rowss = bs \<and>
      (\<forall>j<bs. base_rows R (m - 1) (S_indices ! (m - 1)) epr j (rowss ! j))))"
  have "\<exists>s. py_for (base_table L N C vl S_indices q bs epr) [0..<n] (?st, None) = Inr s \<and> ?P n s"
  proof (rule py_for_range [where P = ?P])
    show "?P 0 (?st, None)" using assms(1) by (simp add: host_ok_def lookups_def)
  next
    fix m s
    assume m: "m < n" and "?P m s"
    then obtain st1 r where s: "s = (st1, r)" "host_ok R B n st1"
      "lookups st1 = (m * (bs * epr), snd (lookups st) + m * (bs * epr))" by (auto split: prod.splits)
    from base_table_run [OF s(2) assms(2) m assms(4), of N q r] obtain st2 rowss where
      f: "base_table L N C vl S_indices q bs epr m (st1, r) = Inr (st2, Some (map (map (np_single N) \<circ> np_sum N vl) rowss))"
        "length rowss = bs" "\<forall>j<bs. base_rows R m (S_indices ! m) epr j (rowss ! j)" "host_ok R B n st2"
        "lookups st2 = (fst (lookups st1) + bs * epr, snd (lookups st1) + bs * epr)" by blast
    have "?P (Suc m) (st2, Some (map (map (np_single N) \<circ> np_sum N vl) rowss))"
      using s(3) f(2-5) by auto
    with s(1) f(1) show "\<exists>s'. base_table L N C vl S_indices q bs epr m s = Inr s' \<and> ?P (Suc m) s'" by blast
  qed
  then obtain st' rowss where f: "py_for (base_table L N C vl S_indices q bs epr) [0..<n] (?st, None) =
      Inr (st', Some (map (map (np_single N) \<circ> np_sum N vl) rowss))" "length rowss = bs"
      "\<forall>j<bs. base_rows R (n - 1) (S_indices ! (n - 1)) epr j (rowss ! j)" "host_ok R B n st'"
      "lookups st' = (n * (bs * epr), snd (lookups st) + n * (bs * epr))" using assms(3) by auto
  have "localhits st' + localmisses st' \<noteq> 0" using f(5) assms(3,5) by (simp add: lookups_def)
  with f show ?thesis unfolding slsload_def by (auto simp: Let_def lookups_def)
qed

end

section \<open>Writing the tables\<close>

lemma written_ssd_row:
  assumes "vl * s = 1024" "length table = vl * rows" "s dvd rows" "e < rows"
  shows "ssd_row (write_blocks f (table_base tid) (4 * vl * rows div 4096) (bytes_of table)) vl s tid e = take vl (drop (vl * e) table)"
proof -
  have pos: "0 < vl" "0 < s" using assms(1) by (auto intro: gr0I)
  let ?b = "e div s" and ?t = "bytes_of table"
  obtain m where m: "rows = s * m" using assms(3) by (rule dvdE)
  have v: "vl * rows = 1024 * m" using assms(1) m by (metis mult.assoc)
  then have "4 * vl * rows = 4096 * m" by (simp only: mult.assoc)
  then have n: "4 * vl * rows div 4096 = m" by simp
  have b: "?b < m" using assms(4) m by (simp add: less_mult_imp_div_less mult.commute)
  then have "Suc ?b \<le> m" by simp
  then have "1024 * Suc ?b \<le> 1024 * m" by (rule mult_le_mono2)
  moreover have "length table = 1024 * m" using assms(2) v by simp
  ultimately have len: "1024 * ?b + 1024 \<le> length table" by simp
  have f: "write_blocks f (table_base tid) m ?t (table_base tid + ?b) = take 4096 (drop (4096 * ?b) ?t)"
    using b by (simp add: write_blocks_def)
  have "ints_of (take 4096 (drop (4096 * ?b) ?t)) = take 1024 (drop (1024 * ?b) table)"
  proof (rule nth_equalityI)
    show l: "length (ints_of (take 4096 (drop (4096 * ?b) ?t))) = length (take 1024 (drop (1024 * ?b) table))" using len by simp
    fix i
    assume "i < length (ints_of (take 4096 (drop (4096 * ?b) ?t)))"
    then have i: "i < 1024" using len by simp
    have "int_at (take 4096 (drop (4096 * ?b) ?t)) i = int_at ?t (1024 * ?b + i)"
      using len i by (simp add: int_at_def algebra_simps)
    also have "\<dots> = ints_of ?t ! (1024 * ?b + i)" using len i by (intro nth_ints_of [symmetric]) simp
    finally show "ints_of (take 4096 (drop (4096 * ?b) ?t)) ! i = take 1024 (drop (1024 * ?b) table) ! i"
      using len i by (simp add: nth_ints_of)
  qed
  moreover have "1024 * ?b + vl * (e mod s) = vl * e"
  proof -
    have "vl * e = vl * (s * ?b + e mod s)" by simp
    then show ?thesis using assms(1) by (simp only: distrib_left mult.assoc [symmetric])
  qed
  ultimately show ?thesis
    unfolding ssd_row_def n f using slot_less(1) [OF assms(1), of e] chunk_of_page [of "vl * (e mod s)" vl 1024 "1024 * ?b" table] by simp
qed

lemma take_drop_concat:
  "\<forall>row \<in> set rows. length row = vl \<Longrightarrow> e < length rows \<Longrightarrow> take vl (drop (vl * e) (concat rows)) = rows ! e"
proof (induction rows arbitrary: e)
  case (Cons row rows)
  then show ?case by (cases e) simp_all
qed simp

lemma length_concat_rows: "\<forall>row \<in> set rows. length row = vl \<Longrightarrow> length (concat rows) = vl * length rows"
  by (induction rows) simp_all

context rec_host
begin

lemma write_tables_run:
  assumes "ok (dev (drv st))" "fd_open (drv st)" "length (fromPageAlloc (drv st)) = 4096" "calls st = 0" "ln_emb \<noteq> []"
    and "\<forall>i<length ln_emb. table_fits L cap vl s i (ln_emb ! i) (Ws i)"
  shows "\<exists>st'. write_tables L vl Ws ln_emb st = Inr (st', Some (Ws (length ln_emb - 1))) \<and> ok (dev (drv st')) \<and> fd_open (drv st') \<and>
    length (fromPageAlloc (drv st')) = 4096 \<and> hits st' + misses st' = hits st + misses st \<and>
    (\<forall>e < ln_emb ! (length ln_emb - 1). ssd_row (blk (dev (drv st'))) vl s (length ln_emb - 1) e = Ws (length ln_emb - 1) ! e)"
proof -
  let ?f = "\<lambda>i (st, _). py_bind (py_nth ln_emb (int i)) (\<lambda>n.
       py_bind (py_opt Crash (unvme_write_table (lib_kernel L) (lib_addr L) (lib_mem L (calls st)) (bytes_of (concat (Ws i)))
         (of_nat vl) (of_nat n) (of_nat i) (drv st))) (\<lambda>d.
       Inr (st\<lparr>drv := d, calls := calls st + 1\<rparr>, Some (Ws i))))"
  let ?P = "\<lambda>m (st', W). ok (dev (drv st')) \<and> fd_open (drv st') \<and> length (fromPageAlloc (drv st')) = 4096 \<and> calls st' = m \<and>
    hits st' + misses st' = hits st + misses st \<and> (0 < m \<longrightarrow> W = Some (Ws (m - 1)) \<and> (\<forall>e < ln_emb ! (m - 1). ssd_row (blk (dev (drv st'))) vl s (m - 1) e = Ws (m - 1) ! e))"
  have "\<exists>r. py_for ?f [0..<length ln_emb] (st, None) = Inr r \<and> ?P (length ln_emb) r"
  proof (rule py_for_range [where P = ?P])
    show "?P 0 (st, None)" using assms(1-4) by simp
  next
    fix m r
    assume m: "m < length ln_emb" and "?P m r"
    then obtain st1 W where r: "r = (st1, W)" "ok (dev (drv st1))" "fd_open (drv st1)" "length (fromPageAlloc (drv st1)) = 4096" "calls st1 = m"
      "hits st1 + misses st1 = hits st + misses st" by (auto split: prod.splits)
    let ?n = "ln_emb ! m" and ?t = "bytes_of (concat (Ws m))"
    have w: "length (Ws m) = ?n" "\<forall>row \<in> set (Ws m). length row = vl" "0 < ?n" "s dvd ?n" "4 * vl * ?n < 2147483648"
      "4 * vl * ?n + 4 \<le> length (lib_mem L m)" "table_base m + 4 * vl * ?n div 4096 \<le> cap"
      using assms(6) m by (simp_all add: table_fits_def)
    have len: "length (concat (Ws m)) = vl * ?n" using length_concat_rows [OF w(2)] w(1) by simp
    have pos: "0 < vl" using full_pages by (auto intro: gr0I)
    have lt: "length ?t = 4 * vl * ?n" using len by simp
    from write_table_run [OF r(2,3) int_blocks lt w(5) pos w(3,6,7), of "lib_addr L"] obtain d where
      d: "unvme_write_table (lib_kernel L) (lib_addr L) (lib_mem L m) ?t (of_nat vl) (of_nat ?n) (of_nat m) (drv st1) =
        Some (drv st1\<lparr>dev := d, printed := printed (drv st1) @ [Printf ''vector_length: %d / table_length: %d\<newline>'' [of_nat vl, of_nat ?n]]\<rparr>)"
        "ok d" "blk d = write_blocks (blk (dev (drv st1))) (table_base m) (4 * vl * ?n div 4096) ?t"
      unfolding library by blast
    have "ssd_row (blk d) vl s m e = Ws m ! e" if "e < ?n" for e
      unfolding d(3) using written_ssd_row [OF full_pages len w(4) that] take_drop_concat [OF w(2), of e] that w(1) by simp
    with r d show "\<exists>r'. ?f m r = Inr r' \<and> ?P (Suc m) r'" using m by simp
  qed
  with assms(5) show ?thesis unfolding write_tables_def by auto
qed

end

section \<open>Cutting the input\<close>

lemma map_prefix_step:
  assumes "i < length xs"
  shows "(map f (take i xs) @ drop i xs) ! i = xs ! i"
    and "(map f (take i xs) @ drop i xs)[i := f (xs ! i)] = map f (take (Suc i) xs) @ drop (Suc i) xs"
proof -
  have d: "drop i xs = xs ! i # drop (Suc i) xs" using assms by (simp add: Cons_nth_drop_Suc)
  show "(map f (take i xs) @ drop i xs) ! i = xs ! i" using assms by (simp add: nth_append)
  show "(map f (take i xs) @ drop i xs)[i := f (xs ! i)] = map f (take (Suc i) xs) @ drop (Suc i) xs"
    using assms by (simp add: d list_update_append take_Suc_conv_app_nth)
qed

definition cut_data :: "rec_args \<Rightarrow> 'x rec_data \<Rightarrow> 'x rec_data" where
  "cut_data args data = \<lparr>in_X = map (take (arg_mini_batch_size args)) (in_X data),
     in_lengths = map (map (take (arg_mini_batch_size args))) (in_lengths data),
     in_indices = map (map (take (arg_mini_batch_size args * arg_indices_per_lookup args))) (in_indices data)\<rparr>"

definition data_shape :: "nat \<Rightarrow> nat \<Rightarrow> 'x rec_data \<Rightarrow> bool" where
  "data_shape nbatches tables data \<longleftrightarrow> length (in_X data) = nbatches \<and> length (in_lengths data) = nbatches \<and>
     length (in_indices data) = nbatches \<and> (\<forall>xs \<in> set (in_lengths data). length xs = tables) \<and>
     (\<forall>xs \<in> set (in_indices data). length xs = tables)"

lemma trim_tables_run:
  "py_for (\<lambda>k (lens, inds). py_bind (py_nth lens (int k)) (\<lambda>l. py_bind (py_nth inds (int k)) (\<lambda>is.
      Inr (lens[k := f l], inds[k := g is])))) [0..<n] (lens, inds) = Inr (map f lens, map g inds)"
  if "length lens = n" "length inds = n"
proof -
  let ?F = "\<lambda>k (lens, inds). py_bind (py_nth lens (int k)) (\<lambda>l. py_bind (py_nth inds (int k)) (\<lambda>is.
      Inr (lens[k := f l], inds[k := g is])))"
  let ?P = "\<lambda>m r. r = (map f (take m lens) @ drop m lens, map g (take m inds) @ drop m inds)"
  have "\<exists>r. py_for ?F [0..<n] (lens, inds) = Inr r \<and> ?P n r"
  proof (rule py_for_range [where P = ?P])
    fix m r
    assume "m < n" "?P m r"
    with that map_prefix_step [of m lens f] map_prefix_step [of m inds g]
    show "\<exists>r'. ?F m r = Inr r' \<and> ?P (Suc m) r'" by simp
  qed simp
  with that show ?thesis by simp
qed

lemma trim_data_run:
  assumes "data_shape n (length (arg_embedding_size args)) data"
  shows "trim_data args n data = Inr (cut_data args data)"
proof -
  let ?b = "arg_mini_batch_size args" and ?l = "arg_mini_batch_size args * arg_indices_per_lookup args"
  let ?X = "\<lambda>m. map (take ?b) (take m (in_X data)) @ drop m (in_X data)"
    and ?L = "\<lambda>m. map (map (take ?b)) (take m (in_lengths data)) @ drop m (in_lengths data)"
    and ?I = "\<lambda>m. map (map (take ?l)) (take m (in_indices data)) @ drop m (in_indices data)"
  let ?P = "\<lambda>m r. r = \<lparr>in_X = ?X m, in_lengths = ?L m, in_indices = ?I m\<rparr>"
  note a = assms [unfolded data_shape_def]
  have "\<exists>r. trim_data args n data = Inr r \<and> ?P n r"
    unfolding trim_data_def Let_def
  proof (rule py_for_range [where P = ?P], goal_cases)
    case 1
    show ?case by simp
  next
    case (2 m r)
    have t: "length (in_lengths data ! m) = length (arg_embedding_size args)" "length (in_indices data ! m) = length (arg_embedding_size args)"
      using a 2(1) by simp_all
    from 2 a map_prefix_step [of m "in_X data" "take ?b"] map_prefix_step [of m "in_lengths data" "map (take ?b)"]
      map_prefix_step [of m "in_indices data" "map (take ?l)"] trim_tables_run [OF t, of "take ?b" "take ?l"]
    show ?case by simp
  qed
  then show ?thesis using a by (simp add: cut_data_def)
qed

section \<open>The main program, type base\<close>

text \<open>The sums of a batch, from the rows of the table \<open>W\<close>.\<close>

definition table_sums :: "'f numpy \<Rightarrow> nat \<Rightarrow> cint list list \<Rightarrow> nat \<Rightarrow> nat \<Rightarrow> int list \<Rightarrow> 'f list list" where
  "table_sums N vl W bs epr inds =
     map (\<lambda>j. map (np_single N) (np_sum N vl (map (\<lambda>k. W ! nat (inds ! (j * epr + k))) [0..<epr]))) [0..<bs]"

text \<open>Rows of the last of \<open>n\<close> tables are rows of \<open>W\<close>.\<close>

definition last_rows :: "nat \<Rightarrow> nat \<Rightarrow> cint list list \<Rightarrow> nat \<Rightarrow> int \<Rightarrow> cint list \<Rightarrow> bool" where
  "last_rows vl n W i k v \<longleftrightarrow> length v = vl \<and> (i = n - 1 \<longrightarrow> 0 \<le> k \<longrightarrow> k < int (length W) \<longrightarrow> v = W ! nat k)"

lemma base_rows_sums:
  assumes "length rowss = bs" "\<forall>j<bs. base_rows (last_rows vl n W) (n - 1) inds epr j (rowss ! j)"
    and "\<forall>k < bs * epr. 0 \<le> inds ! k \<and> inds ! k < int (length W)"
  shows "map (map (np_single N) \<circ> np_sum N vl) rowss = table_sums N vl W bs epr inds"
proof (rule nth_equalityI)
  show "length (map (map (np_single N) \<circ> np_sum N vl) rowss) = length (table_sums N vl W bs epr inds)"
    using assms(1) by (simp add: table_sums_def)
  fix j
  assume "j < length (map (map (np_single N) \<circ> np_sum N vl) rowss)"
  then have j: "j < bs" using assms(1) by simp
  have "rowss ! j = map (\<lambda>k. W ! nat (inds ! (j * epr + k))) [0..<epr]"
  proof (rule nth_equalityI)
    show "length (rowss ! j) = length (map (\<lambda>k. W ! nat (inds ! (j * epr + k))) [0..<epr])"
      using assms(2) j by (simp add: base_rows_def)
    fix k
    assume "k < length (rowss ! j)"
    then have k: "k < epr" using assms(2) j by (simp add: base_rows_def)
    have "Suc j * epr \<le> bs * epr" using j by (intro mult_le_mono1) simp
    then have "j * epr + k < bs * epr" using k by simp
    with assms(3) have "0 \<le> inds ! (j * epr + k)" "inds ! (j * epr + k) < int (length W)" by blast+
    moreover from assms(2) j k have "last_rows vl n W (n - 1) (inds ! (j * epr + k)) (rowss ! j ! k)" by (simp add: base_rows_def)
    ultimately show "rowss ! j ! k = map (\<lambda>k. W ! nat (inds ! (j * epr + k))) [0..<epr] ! k"
      using k by (simp add: last_rows_def)
  qed
  then show "map (map (np_single N) \<circ> np_sum N vl) rowss ! j = table_sums N vl W bs epr inds ! j"
    using j assms(1) by (simp add: table_sums_def)
qed

text \<open>What the network gets for a batch: the same sums for every table.\<close>

definition base_blobs :: "'f numpy \<Rightarrow> nat \<Rightarrow> cint list list \<Rightarrow> rec_args \<Rightarrow> 'x rec_data \<Rightarrow> nat \<Rightarrow> ('x, 'f) blob list" where
  "base_blobs N vl W args data b =
     (let n = length (arg_embedding_size args);
          sums = table_sums N vl W (arg_mini_batch_size args) (arg_indices_per_lookup args) (in_indices data ! b ! (n - 1))
      in Dense_In (take (arg_mini_batch_size args) (in_X data ! b)) # map (\<lambda>i. Sls_Sum i (Some sums)) [0..<n])"

context rec_host
begin

lemma run_batch_run:
  assumes "host_ok (last_rows vl n W) B n st" "row_prop (last_rows vl n W) B" "0 < n" "n = length (arg_embedding_size args)"
    and "arg_sls_type args = ''base''" "\<not> arg_queue args" "arg_sparse_feature_size args = vl"
    and "lkp = arg_mini_batch_size args * arg_indices_per_lookup args" "0 < lkp" "data_shape nb n data" "b < nb"
    and "indices_ok cap vl s (in_indices data ! b) n lkp" "\<forall>k<lkp. in_indices data ! b ! (n - 1) ! k < int (length W)"
  shows "\<exists>st' rate. run_batch L N C args (cut_data args data) b (st, fed, rates) =
      Inr (st', fed @ [base_blobs N vl W args data b], rates[b := rate]) \<and> host_ok (last_rows vl n W) B n st' \<and>
      hits st' + misses st' = hits st + misses st + n * lkp"
proof -
  let ?S = "map (take lkp) (in_indices data ! b)" and ?bs = "arg_mini_batch_size args" and ?epr = "arg_indices_per_lookup args"
  note sh = assms(10) [unfolded data_shape_def]
  from sh assms(11) have l: "length (in_lengths data ! b) = n" "length (in_indices data ! b) = n" by simp_all
  have S: "indices_ok cap vl s ?S n (?bs * ?epr)" using assms(8,12) l(2) by (auto simp: indices_ok_def)
  have pos: "0 < ?bs * ?epr" using assms(8,9) by simp
  from slsload_base_run [OF assms(1,2,3) S pos, of N 0] obtain st' rowss rate where
    r: "slsload L N C ''base'' vl ?S 0 n ?bs ?epr st = Inr (st', Some (map (map (np_single N) \<circ> np_sum N vl) rowss), rate)"
      "length rowss = ?bs" "\<forall>j<?bs. base_rows (last_rows vl n W) (n - 1) (?S ! (n - 1)) ?epr j (rowss ! j)"
      "host_ok (last_rows vl n W) B n st'" "hits st' + misses st' = hits st + misses st + n * lkp"
    unfolding assms(8) by blast
  have n1: "?S ! (n - 1) = take lkp (in_indices data ! b ! (n - 1))" using l(2) assms(3) by simp
  have "\<forall>k < ?bs * ?epr. 0 \<le> ?S ! (n - 1) ! k \<and> ?S ! (n - 1) ! k < int (length W)"
    using assms(3,8,12,13) unfolding n1 by (auto simp: indices_ok_def fetchable_def)
  from base_rows_sums [OF r(2,3) this, of N] have
    sums: "map (map (np_single N) \<circ> np_sum N vl) rowss = table_sums N vl W ?bs ?epr (take lkp (in_indices data ! b ! (n - 1)))"
    unfolding n1 .
  have cut: "table_sums N vl W ?bs ?epr (take lkp xs) = table_sums N vl W ?bs ?epr xs" for xs
  proof -
    have "j * ?epr + k < lkp" if "j < ?bs" "k < ?epr" for j k
    proof -
      have "Suc j * ?epr \<le> ?bs * ?epr" using that by (intro mult_le_mono1) simp
      then show ?thesis using that assms(8) by simp
    qed
    then show ?thesis unfolding table_sums_def by (intro map_cong refl arg_cong [where f = "\<lambda>x. map (np_single N) (np_sum N vl x)"]) simp
  qed
  have "run_batch L N C args (cut_data args data) b (st, fed, rates) = Inr (st', fed @ [base_blobs N vl W args data b], rates[b := rate])"
    unfolding run_batch_def cut_data_def base_blobs_def Let_def using sh assms(4-8,11) r(1) l sums cut
    by (simp add: dlrm_run_def)
  with r(4,5) show ?thesis by blast
qed

lemma run_epoch_run:
  fixes N :: "'f numpy"
  assumes "host_ok (last_rows vl n W) B n st" "row_prop (last_rows vl n W) B" "0 < n" "n = length (arg_embedding_size args)"
    and "arg_sls_type args = ''base''" "\<not> arg_queue args" "arg_sparse_feature_size args = vl"
    and "lkp = arg_mini_batch_size args * arg_indices_per_lookup args" "0 < lkp" "data_shape nb n data"
    and "\<forall>b<nb. indices_ok cap vl s (in_indices data ! b) n lkp \<and> (\<forall>k<lkp. in_indices data ! b ! (n - 1) ! k < int (length W))"
  shows "\<exists>st' rates'. py_for (run_batch L N C args (cut_data args data)) [0..<nb] (st, fed, rates) =
      Inr (st', fed @ map (base_blobs N vl W args data) [0..<nb], rates') \<and>
      host_ok (last_rows vl n W) B n st' \<and> length rates' = length rates \<and> hits st' + misses st' = hits st + misses st + nb * (n * lkp)"
proof -
  let ?P = "\<lambda>m (st', fed', rates' :: 'f list). fed' = fed @ map (base_blobs N vl W args data) [0..<m] \<and>
    host_ok (last_rows vl n W) B n st' \<and> length rates' = length rates \<and> hits st' + misses st' = hits st + misses st + m * (n * lkp)"
  have "\<exists>r. py_for (run_batch L N C args (cut_data args data)) [0..<nb] (st, fed, rates) = Inr r \<and> ?P nb r"
  proof (rule py_for_range [where P = ?P])
    show "?P 0 (st, fed, rates)" using assms(1) by simp
  next
    fix m r
    assume m: "m < nb" and "?P m r"
    then obtain st1 rates1 where r: "r = (st1, fed @ map (base_blobs N vl W args data) [0..<m], rates1)" "host_ok (last_rows vl n W) B n st1"
      "length rates1 = length rates" "hits st1 + misses st1 = hits st + misses st + m * (n * lkp)" by (auto split: prod.splits)
    from run_batch_run [OF r(2) assms(2-10) m, where N = N and fed = "fed @ map (base_blobs N vl W args data) [0..<m]" and rates = rates1]
      assms(11) m r show "\<exists>r'. run_batch L N C args (cut_data args data) m r = Inr r' \<and> ?P (Suc m) r'" by auto
  qed
  then show ?thesis by auto
qed

lemma run_epochs_run:
  fixes N :: "'f numpy"
  assumes "host_ok (last_rows vl n W) B n st" "row_prop (last_rows vl n W) B" "0 < n" "n = length (arg_embedding_size args)"
    and "arg_sls_type args = ''base''" "\<not> arg_queue args" "arg_sparse_feature_size args = vl"
    and "lkp = arg_mini_batch_size args * arg_indices_per_lookup args" "0 < lkp" "data_shape nb n data"
    and "\<forall>b<nb. indices_ok cap vl s (in_indices data ! b) n lkp \<and> (\<forall>k<lkp. in_indices data ! b ! (n - 1) ! k < int (length W))"
  shows "\<exists>st' rates'. run_epochs L N C args (cut_data args data) nb (st, [], rates) =
      Inr (st', concat (replicate (arg_nepochs args) (map (base_blobs N vl W args data) [0..<nb])), rates') \<and>
      host_ok (last_rows vl n W) B n st' \<and> length rates' = length rates \<and>
      hits st' + misses st' = hits st + misses st + arg_nepochs args * (nb * (n * lkp))"
proof -
  let ?H = "host_ok (last_rows vl n W) B n"
  let ?e = "map (base_blobs N vl W args data) [0..<nb]"
  let ?P = "\<lambda>m (st', fed', rates' :: 'f list). fed' = concat (replicate m ?e) \<and> ?H st' \<and> length rates' = length rates \<and>
      hits st' + misses st' = hits st + misses st + m * (nb * (n * lkp))"
  have "\<exists>r. run_epochs L N C args (cut_data args data) nb (st, [], rates) = Inr r \<and> ?P (arg_nepochs args) r"
    unfolding run_epochs_def
  proof (rule py_for_range [where P = ?P])
    show "?P 0 (st, [], rates)" using assms(1) by simp
  next
    fix m r
    assume "?P m r"
    then obtain st1 rates1 where r: "r = (st1, concat (replicate m ?e), rates1)" "?H st1"
      "length rates1 = length rates" "hits st1 + misses st1 = hits st + misses st + m * (nb * (n * lkp))" by (auto split: prod.splits)
    have c: "concat (replicate m ?e) @ ?e = concat (replicate (Suc m) ?e)" by (simp flip: replicate_append_same)
    from run_epoch_run [OF r(2) assms(2-11), where N = N and fed = "concat (replicate m ?e)" and rates = rates1] r c
    show "\<exists>r'. py_for (run_batch L N C args (cut_data args data)) [0..<nb] r = Inr r' \<and> ?P (Suc m) r'" by (auto simp del: replicate.simps)
  qed
  then show ?thesis by auto
qed

lemma stats_frame:
  assumes "ok (dev d)"
  shows "ok (dev (isp_stats_clear_unvme K d)) \<and> blk (dev (isp_stats_clear_unvme K d)) = blk (dev d) \<and>
    fd_open (isp_stats_clear_unvme K d) = fd_open d \<and> fromPageAlloc (isp_stats_clear_unvme K d) = fromPageAlloc d"
proof -
  obtain err res buf' e where c: "ioctl_io_cmd K cmd_stats_clear [] (dev d) = (err, res, buf', e)" by (metis prod_cases4)
  with cmd_frame [OF assms c] assms show ?thesis by (simp add: isp_stats_clear_unvme_def drv_io_cmd_def)
qed

lemma preload_run:
  assumes "\<And>prof. mset (dict_order prof) = mset prof" "ok (dev (drv st))" "fd_open (drv st)" "length (fromPageAlloc (drv st)) = 4096"
    and "\<forall>row \<in> set W. length row = vl" "lkp = arg_mini_batch_size args * arg_indices_per_lookup args" "data_shape nb n data"
    and "\<forall>b<nb. indices_ok cap vl s (in_indices data ! b) n lkp \<and> (\<forall>i<n. \<forall>k<lkp. in_indices data ! b ! i ! k < int (length W))"
  shows "\<exists>caches e. static_partition C dict_order W lkp (in_indices (cut_data args data)) n = Inr (caches, e) \<and>
    host_ok (last_rows vl n W) (blk (dev (drv st))) n (st\<lparr>lru := caches\<rparr>)"
proof -
  let ?cut = "cut_data args data"
  note sh = assms(7) [unfolded data_shape_def]
  have shc: "length (in_indices ?cut) = nb" "\<forall>batch \<in> set (in_indices ?cut). length batch = n"
    using sh by (simp_all add: cut_data_def)
  have idx: "\<forall>i<n. \<forall>k \<in> set (table_indices lkp (in_indices ?cut) i). 0 \<le> k \<and> k < int (length W)"
  proof (intro allI impI ballI)
    fix i k
    assume i: "i < n" and "k \<in> set (table_indices lkp (in_indices ?cut) i)"
    then obtain b p where b: "b < nb" "p < lkp" "k = in_indices data ! b ! i ! p"
      using shc(1) sh assms(6) by (auto simp: table_indices_def cut_data_def in_set_conv_nth)
    with i assms(8) show "0 \<le> k \<and> k < int (length W)" by (simp add: indices_ok_def fetchable_def)
  qed
  from static_partition_run [OF shc(2) assms(1) idx] obtain caches e where
    c: "static_partition C dict_order W lkp (in_indices ?cut) n = Inr (caches, e)" "length caches = n"
      "\<forall>i<n. \<forall>k v. (k, v) \<in> set (entries (caches ! i)) \<longrightarrow> k \<in> set (table_indices lkp (in_indices ?cut) i) \<and> v = W ! nat k"
    using preloaded_rows by metis
  have "length (W ! nat k) = vl" if "i < n" "k \<in> set (table_indices lkp (in_indices ?cut) i)" for i k
    using idx that assms(5) by (metis nat_less_iff nth_mem)
  with c(2,3) assms(2-4) have "host_ok (last_rows vl n W) (blk (dev (drv st))) n (st\<lparr>lru := caches\<rparr>)"
    by (simp add: host_ok_def last_rows_def) blast
  with c(1) show ?thesis by blast
qed

lemma rec_main_run:
  assumes "\<And>prof. mset (dict_order prof) = mset prof" "ok (dev d)" "length pg = 4096"
    and "arg_sls_type args = ''base''" "\<not> arg_queue args" "arg_sparse_feature_size args = vl"
    and "n = length (arg_embedding_size args)" "0 < n" "\<forall>i<n. table_fits L cap vl s i (arg_embedding_size args ! i) (Ws i)"
    and "lkp = arg_mini_batch_size args * arg_indices_per_lookup args" "0 < lkp" "data_shape nb n data"
    and "\<forall>b<nb. indices_ok cap vl s (in_indices data ! b) n lkp"
    and "\<forall>b<nb. \<forall>i<n. \<forall>k<lkp. in_indices data ! b ! i ! k < int (arg_embedding_size args ! (n - 1))"
  shows "\<exists>st' rates. rec_main L N C dict_order Ws args data nb True pg d =
      Inr (st', concat (replicate (arg_nepochs args) (map (base_blobs N vl (Ws (n - 1)) args data) [0..<nb])), rates) \<and>
      \<not> fd_open (drv st') \<and> length rates = nb \<and> hits st' + misses st' = arg_nepochs args * (nb * (n * lkp))"
proof -
  let ?W = "Ws (n - 1)"
  have W: "length ?W = arg_embedding_size args ! (n - 1)" "\<forall>row \<in> set ?W. length row = vl"
    using assms(9) [rule_format, of "n - 1"] assms(8) by (simp_all add: table_fits_def)
  let ?d = "isp_stats_clear_unvme (lib_kernel L) (open_unvme True pg d)"
  let ?st = "\<lparr>drv = ?d, lru = [], hits = 0, misses = 0, localhits = 0, localmisses = 0, calls = 0\<rparr> :: ('d, 'c) rec_state"
  have o: "ok (dev (open_unvme True pg d))" "fd_open (open_unvme True pg d)" "fromPageAlloc (open_unvme True pg d) = pg"
    using assms(2) by (simp_all add: open_unvme_def)
  from stats_frame [OF o(1)] o assms(3) have st: "ok (dev (drv ?st))" "fd_open (drv ?st)" "length (fromPageAlloc (drv ?st)) = 4096" "calls ?st = 0"
    by (simp_all add: library)
  have ne: "arg_embedding_size args \<noteq> []" using assms(7,8) by auto
  from write_tables_run [OF st ne, of Ws] assms(7,9) obtain st1 where
    w: "write_tables L vl Ws (arg_embedding_size args) ?st = Inr (st1, Some ?W)" "ok (dev (drv st1))" "fd_open (drv st1)"
      "length (fromPageAlloc (drv st1)) = 4096" "\<forall>e < length ?W. ssd_row (blk (dev (drv st1))) vl s (n - 1) e = ?W ! e"
      "hits st1 + misses st1 = 0"
    unfolding W(1) by (auto simp: W(1))
  let ?B = "blk (dev (drv st1))" and ?cut = "cut_data args data"
  note sh = assms(12) [unfolded data_shape_def]
  have "\<forall>b<nb. indices_ok cap vl s (in_indices data ! b) n lkp \<and> (\<forall>i<n. \<forall>k<lkp. in_indices data ! b ! i ! k < int (length ?W))"
    using assms(13,14) unfolding W(1) by blast
  from preload_run [OF assms(1) w(2-4) W(2) assms(10,12) this] obtain caches e where
    c: "static_partition C dict_order ?W lkp (in_indices ?cut) n = Inr (caches, e)"
      and h: "host_ok (last_rows vl n ?W) ?B n (st1\<lparr>lru := caches\<rparr>)" by blast
  have shc: "length (in_indices ?cut) = nb" using sh by (simp add: cut_data_def)
  have rp: "row_prop (last_rows vl n ?W) ?B"
    unfolding row_prop_def last_rows_def
    using w(5) length_ssd_row [OF full_pages blk_length [OF w(2)]] by (auto simp: nat_less_iff)
  from run_epochs_run [OF h rp assms(8,7,4,5,6,10,11,12), of N "replicate nb (np_zero N)"] assms(8,13,14) W(1) obtain st2 rates where
    r: "run_epochs L N C args ?cut nb (st1\<lparr>lru := caches\<rparr>, [], replicate nb (np_zero N)) =
        Inr (st2, concat (replicate (arg_nepochs args) (map (base_blobs N vl ?W args data) [0..<nb])), rates)"
      "length rates = nb" "hits st2 + misses st2 = arg_nepochs args * (nb * (n * lkp))"
    using w(6) by auto
  have "trim_data args nb data = Inr ?cut" using assms(7,12) by (intro trim_data_run) simp
  then show ?thesis
    unfolding rec_main_def Let_def using assms(4,6,7,10) w(1) c r shc by (simp add: close_unvme_def)
qed

end

section \<open>Type ndp\<close>

text \<open>The position of an index decides its result: entry \<open>k * batchsize + r\<close> belongs to result \<open>r\<close>.\<close>

lemma filter_zip_upt: "r < n \<Longrightarrow> length ys = n \<Longrightarrow> map snd (filter (\<lambda>(r', e). r' = r) (zip [0..<n] ys)) = [ys ! r]"
proof (induction n arbitrary: ys)
  case (Suc n)
  then obtain zs y where ys: "ys = zs @ [y]" "length zs = n" by (metis length_Suc_conv_rev)
  show ?case
  proof (cases "r = n")
    case True
    then have "filter (\<lambda>(r', e). r' = r) (zip [0..<n] zs) = []" by (auto simp: filter_empty_conv dest: set_zip_leftD)
    with True ys show ?thesis by (auto simp: nth_append)
  next
    case False
    with Suc ys show ?thesis by (simp add: nth_append)
  qed
qed simp

lemma length_rounds: "length (concat (map (\<lambda>k. [0..<n]) [0..<m])) = m * n"
  by (induction m) simp_all

lemma ndp_pairs_Suc:
  assumes "length inds = n * Suc m"
  shows "ndp_pairs (Suc m) n inds = ndp_pairs m n (take (m * n) inds) @ zip [0..<n] (drop (m * n) inds)"
proof -
  have "ndp_pairs (Suc m) n inds = zip (concat (map (\<lambda>k. [0..<n]) [0..<m]) @ [0..<n]) (take (m * n) inds @ drop (m * n) inds)"
    by (simp add: ndp_pairs_def)
  also have "\<dots> = ndp_pairs m n (take (m * n) inds) @ zip [0..<n] (drop (m * n) inds)"
    unfolding ndp_pairs_def using assms length_rounds [of n m] by (intro zip_append) simp
  finally show ?thesis .
qed

lemma ndp_group:
  assumes "r < n" "length inds = n * m"
  shows "map snd (filter (\<lambda>(r', e). r' = r) (ndp_pairs m n inds)) = map (\<lambda>k. inds ! (k * n + r)) [0..<m]"
  using assms(2)
proof (induction m arbitrary: inds)
  case 0
  then show ?case by (simp add: ndp_pairs_def)
next
  case (Suc m)
  have "map snd (filter (\<lambda>(r', e). r' = r) (ndp_pairs m n (take (m * n) inds))) = map (\<lambda>k. take (m * n) inds ! (k * n + r)) [0..<m]"
    using Suc.prems by (intro Suc.IH) (simp add: mult.commute)
  moreover have "k * n + r < m * n" if "k < m" for k
  proof -
    have "Suc k * n \<le> m * n" using that by (intro mult_le_mono1) simp
    then show ?thesis using assms(1) by simp
  qed
  moreover have "map snd (filter (\<lambda>(r', e). r' = r) (zip [0..<n] (drop (m * n) inds))) = [inds ! (m * n + r)]"
    using filter_zip_upt [OF assms(1), of "drop (m * n) inds"] Suc.prems assms(1) by simp
  ultimately show ?case by (simp add: ndp_pairs_Suc [OF Suc.prems])
qed

lemma ndp_pairs_less: "(r, e) \<in> set (ndp_pairs m n inds) \<Longrightarrow> r < n \<and> e \<in> set inds"
  unfolding ndp_pairs_def by (frule set_zip_leftD, frule set_zip_rightD) (auto split: if_splits)

lemma length_ndp_pairs: "length inds = n * m \<Longrightarrow> length (ndp_pairs m n inds) = n * m"
  by (simp add: ndp_pairs_def length_rounds mult.commute)

text \<open>The request as the driver's pairs of numbers.\<close>

lemma flat_pairs_flat_ind:
  assumes "\<forall>(r, e) \<in> set ps. 0 \<le> e"
  shows "flat_pairs ps = flat_ind (map (\<lambda>(r, e). (r, nat e)) (sort_key snd ps))"
proof -
  let ?f = "\<lambda>(r, e). [of_nat r, word_of_int e :: cint]" and ?g = "\<lambda>(r, e). [of_nat r, of_nat (nat e) :: cint]"
  have "map ?f (sort_key snd ps) = map ?g (sort_key snd ps)"
    using assms by (intro map_cong refl) (auto simp: of_nat_nat)
  moreover have "map (\<lambda>(r, e). [of_nat r, of_nat e]) (map (\<lambda>(r, e). (r, nat e)) xs) = map ?g xs" for xs :: "(nat \<times> int) list"
    by (induction xs) auto
  ultimately show ?thesis unfolding flat_pairs_def flat_ind_def by (simp only:)
qed

lemma sls_sum_sort:
  "sls_sum f (map (\<lambda>(r, e). (r, nat e)) (sort_key snd ps)) k =
   (\<Sum>e \<leftarrow> map snd (filter (\<lambda>(r', e). r' = k div 32) ps). f (nat e) (k mod 32))"
proof -
  let ?g = "\<lambda>(r, e). if r = k div 32 then f (nat e) (k mod 32) else 0"
  have "sls_sum f (map (\<lambda>(r, e). (r, nat e)) (sort_key snd ps)) k = sum_list (map ?g (sort_key snd ps))"
    unfolding sls_sum_def map_map by (intro arg_cong [where f = sum_list] map_cong refl) auto
  also have "\<dots> = sum_mset (image_mset ?g (mset ps))" by (simp flip: sum_mset_sum_list)
  also have "\<dots> = sum_list (map ?g ps)" by (simp flip: sum_mset_sum_list)
  also have "\<dots> = (\<Sum>e \<leftarrow> map snd (filter (\<lambda>(r', e). r' = k div 32) ps). f (nat e) (k mod 32))"
    by (induction ps) auto
  finally show ?thesis .
qed

text \<open>Two runs whose caches agree, on any two devices.\<close>

definition same_caches :: "('d, 'c) rec_state \<Rightarrow> ('e, 'c) rec_state \<Rightarrow> bool" where
  "same_caches st st' \<longleftrightarrow> lru st = lru st' \<and> localhits st = localhits st' \<and> localmisses st = localmisses st' \<and> calls st = calls st'"

lemma ndp_filter_rel:
  assumes "ndp_filter C i p (st, fs, cs) = Inr (st1, fs1, cs1)" "ndp_filter C i p (st', fs, cs) = Inr (st2, fs2, cs2)" "same_caches st st'"
  shows "same_caches st1 st2 \<and> fs1 = fs2 \<and> cs1 = cs2"
proof (cases p)
  case (Pair r e)
  from assms(1,3) Pair obtain c where c: "py_nth (lru st) (int i) = Inr c" "py_nth (lru st') (int i) = Inr c"
    by (auto simp: ndp_filter_def py_bind_Inr same_caches_def)
  show ?thesis
  proof (cases "lru_has C e c")
    case True
    with assms(1) Pair c obtain row c' where "lru_get C e c = Some (row, c')"
      by (cases "lru_get C e c") (auto simp: ndp_filter_def)
    with True assms Pair c show ?thesis by (auto simp: ndp_filter_def hit_def same_caches_def)
  next
    case False
    with assms Pair c show ?thesis by (auto simp: ndp_filter_def miss_def same_caches_def)
  qed
qed

lemma ndp_part_rel:
  assumes "ndp_part L N C m q bs epr i inds (st, r, a) = Inr (st1, r1, a1)" "ndp_part L' N C m q bs epr i inds (st', r, a) = Inr (st2, r2, a2)"
    and "same_caches st st'" "lib_mem L = lib_mem L'"
  shows "same_caches st1 st2 \<and> r1 = r2 \<and> a1 = a2"
proof -
  from assms(1) obtain s1 fs1 cs1 res1 mp1 d1 l1 where
    x: "py_for (ndp_filter C i) (ndp_pairs epr bs inds) (st, [], []) = Inr (s1, fs1, cs1)"
      "unvme_sparse_length_sum (lib_kernel L) (lib_tsc L) (lib_addr L) (lib_page L (calls s1)) (lib_mem L (calls s1)) (flat_pairs fs1)
        (of_nat m) (of_nat bs) (of_nat epr) (of_nat i) (of_nat q) (of_nat (length fs1)) (drv s1) = Some (res1, mp1, d1)"
      "py_for (ndp_append N m bs res1 a) [0..<bs] r = Inr l1" "py_for (ndp_add_cached N) cs1 (map (map (np_single N)) l1) = Inr r1"
      "st1 = s1\<lparr>drv := d1, calls := calls s1 + 1\<rparr>" "a1"
    by (auto simp: ndp_part_def py_bind_Inr py_opt_def split: option.splits)
  from assms(2) obtain s2 fs2 cs2 res2 mp2 d2 l2 where
    y: "py_for (ndp_filter C i) (ndp_pairs epr bs inds) (st', [], []) = Inr (s2, fs2, cs2)"
      "unvme_sparse_length_sum (lib_kernel L') (lib_tsc L') (lib_addr L') (lib_page L' (calls s2)) (lib_mem L' (calls s2)) (flat_pairs fs2)
        (of_nat m) (of_nat bs) (of_nat epr) (of_nat i) (of_nat q) (of_nat (length fs2)) (drv s2) = Some (res2, mp2, d2)"
      "py_for (ndp_append N m bs res2 a) [0..<bs] r = Inr l2" "py_for (ndp_add_cached N) cs2 (map (map (np_single N)) l2) = Inr r2"
      "st2 = s2\<lparr>drv := d2, calls := calls s2 + 1\<rparr>" "a2"
    by (auto simp: ndp_part_def py_bind_Inr py_opt_def split: option.splits)
  let ?R = "\<lambda>(s, fs, cs) (s', fs', cs'). same_caches s s' \<and> fs = fs' \<and> cs = cs'"
  have "?R (s1, fs1, cs1) (s2, fs2, cs2)"
    by (rule py_for_rel [where R = ?R, OF x(1) y(1)]) (use assms(3) in \<open>auto dest: ndp_filter_rel\<close>)
  then have e: "same_caches s1 s2" "fs1 = fs2" "cs1 = cs2" by simp_all
  then have "res1 = res2" using sls_result_mem [OF x(2)] sls_result_mem [OF y(2)] assms(4) by (simp add: same_caches_def)
  with x(3,4) y(3,4) e(3) have "r1 = r2" by simp
  with e x(5,6) y(5,6) show ?thesis by (simp add: same_caches_def)
qed

lemma ndp_table_rel:
  assumes "ndp_table L N C m S q bs epr i (st, r) = Inr (st1, r1)" "ndp_table L' N C m S q bs epr i (st', r) = Inr (st2, r2)"
    and "same_caches st st'" "lib_mem L = lib_mem L'"
  shows "same_caches st1 st2 \<and> r1 = r2"
proof -
  let ?b = "if bs > 128 then 128 else bs"
  from assms(1,2) obtain parts l1 a1 l2 a2 where
    p: "py_for (ndp_part L N C m q ?b epr i) parts (st, [], False) = Inr (st1, l1, a1)"
      "py_for (ndp_part L' N C m q ?b epr i) parts (st', [], False) = Inr (st2, l2, a2)" "r1 = Some l1" "r2 = Some l2"
    by (auto simp: ndp_table_def py_bind_Inr Let_def simp del: py_for.simps split: if_splits)
  let ?R = "\<lambda>(s, l, a) (s', l', a'). same_caches s s' \<and> l = l' \<and> a = a'"
  have "?R (st1, l1, a1) (st2, l2, a2)"
    by (rule py_for_rel [where R = ?R, OF p(1,2)]) (use assms(3,4) in \<open>auto dest: ndp_part_rel\<close>)
  with p(3,4) show ?thesis by simp
qed

text \<open>A second part of a batch meets an array.\<close>

lemma ndp_part_array: "0 < bs \<Longrightarrow> ndp_part L N C m q bs epr i inds (st, l, True) \<noteq> Inr r"
  by (auto simp: ndp_part_def py_bind_Inr ndp_append_def upt_conv_Cons split_def)

lemma ndp_part_result: "ndp_part L N C m q bs epr i inds z = Inr (st', l', a') \<Longrightarrow> a'"
  by (auto simp: ndp_part_def py_bind_Inr split_def)

section \<open>Properties\<close>

text \<open>The host of the reference SSD, with integers for the floats.\<close>

definition int_numpy :: "int numpy" where
  "int_numpy = \<lparr>np_zero = 0, np_plus = (+), np_single = id, np_int = sint, np_scale = sint, np_micro = sint,
     np_percent = (\<lambda>a b. int (100 * a div b)), np_split = (\<lambda>xs n. Inr [take (length xs div 2) xs, drop (length xs div 2) xs])\<rparr>"

definition ref_lib :: "nat \<Rightarrow> ssd rec_lib" where
  "ref_lib n = \<lparr>lib_kernel = ssd_kernel n embedding32, lib_tsc = of_nat, lib_quot = (\<lambda>_ _. 0), lib_addr = 0,
     lib_page = (\<lambda>_. replicate 4096 9), lib_mem = (\<lambda>_. replicate 10000 7)\<rparr>"

interpretation ref_host: rec_host "ssd_kernel (min n 2147483648) embedding32" ssd_ok ssd_blk ssd_page embedding32 ssd_rest
  "min n 2147483648" list_lru snd fst "ref_lib (min n 2147483648)" 32 32 for n
proof unfold_locales
  fix p
  have "of_nat (Suc p) - of_nat p = (1 :: u64)" by simp
  then show "\<exists>k>p. 0 < sint (lib_tsc (ref_lib (min n 2147483648)) k - lib_tsc (ref_lib (min n 2147483648)) p)"
    by (intro exI [of _ "Suc p"]) (simp add: ref_lib_def del: of_nat_Suc)
qed (simp_all add: ref_lib_def)

lemma ref_host_300000: "rec_host (ssd_kernel 300000 embedding32) ssd_ok ssd_blk ssd_page embedding32 ssd_rest 300000 list_lru snd fst (ref_lib 300000) 32 32"
  using ref_host.rec_host_axioms [of 300000] by simp


definition demo_args :: rec_args where
  "demo_args = \<lparr>arg_sls_type = ''base'', arg_queue = False, arg_nepochs = 3, arg_mini_batch_size = 1, arg_indices_per_lookup = 2,
     arg_sparse_feature_size = 32, arg_embedding_size = [64, 64]\<rparr>"

definition demo_data :: "nat rec_data" where
  "demo_data = \<lparr>in_X = [[7]], in_lengths = [[[2], [2]]], in_indices = [[[0, 33], [5, 40]]]\<rparr>"


text \<open>A call with one lookup that misses, on the reference SSD with any content.\<close>

definition ndp_state :: "ssd \<Rightarrow> (ssd, nat \<times> (int \<times> cint list) list) rec_state" where
  "ndp_state d = \<lparr>drv = ref_driver\<lparr>dev := d\<rparr>, lru = [(2000, [])], hits = 0, misses = 0, localhits = 0, localmisses = 0, calls = 0\<rparr>"

lemma ndp_single_run:
  assumes "ssd_ok d"
  shows "\<exists>st' r rate. slsload (ref_lib 300000) int_numpy list_lru ''ndp'' 32 [[5]] 0 1 1 1 (ndp_state d) = Inr (st', Some r, rate)"
proof -
  let ?L = "ref_lib 300000" and ?r = "\<lambda>st. st\<lparr>localhits := 0, localmisses := 0\<rparr>"
  have v: "valid_inds 300000 0 [(0, 5)]" by (simp add: valid_inds_def table_base_def)
  have flat: "flat_pairs [(0, 5)] = flat_ind [(0, 5)]"
    using flat_pairs_flat_ind [of "[(0, 5)]"] by simp
  from emb_ssd.sls_run [OF ssd_emb_ref, where st = "ref_driver\<lparr>dev := d\<rparr>" and tsc = of_nat and k = 1 and tid = 0 and inds = "[(0, 5)]"
      and mp = "replicate 4096 9" and mem = "replicate 10000 7" and batchsize = 1 and epr = 1 and q = 0 and a = 0] assms v
  obtain map_page d' where sls: "unvme_sparse_length_sum (ssd_kernel 300000 embedding32) of_nat 0 (replicate 4096 9) (replicate 10000 7)
      (flat_ind [(0, 5)]) 32 1 1 0 0 1 (ref_driver\<lparr>dev := d\<rparr>) =
      Some (take (unat (scast (sls_buffersize 32 1 1) + 4 :: u64)) (replicate 10000 7), map_page, d')" by auto
  have size: "unat (scast (sls_buffersize 32 1 1) + 4 :: u64) = 132" by (simp add: sls_buffersize_def)
  have p: "ndp_pairs 1 1 [5] = [(0, 5)]" by (simp add: ndp_pairs_def)
  have f: "py_for (ndp_filter list_lru 0) [(0, 5)] (?r (ndp_state d), [], []) =
      Inr (miss 0 (2000, []) (?r (ndp_state d)), [(0, 5)], [])"
    by (simp add: ndp_filter_def ndp_state_def py_nth_def list_lru_def)
  have "those (map (\<lambda>j. ld32 (replicate 132 7) j) [0..<32]) = Some (map (int_at (replicate 132 7)) [0..<32])"
    by (rule those_map_Some) (simp add: ld32_def)
  then obtain row where row: "those (map (\<lambda>j. ld32 (replicate 132 7) j) [0..<32]) = Some row" ..
  have "ndp_part ?L int_numpy list_lru 32 0 1 1 0 [5] (?r (ndp_state d), [], False) =
      Inr ((miss 0 (2000, []) (?r (ndp_state d)))\<lparr>drv := d', calls := 1\<rparr>, [map (np_single int_numpy) (map (np_micro int_numpy) row)], True)"
    unfolding ndp_part_def p split_conv f py_bind_simps
    using sls row by (simp add: flat size ref_lib_def ndp_state_def miss_def ndp_append_def)
  then have "ndp_table ?L int_numpy list_lru 32 [[5]] 0 1 1 0 (?r (ndp_state d), None) =
      Inr ((miss 0 (2000, []) (?r (ndp_state d)))\<lparr>drv := d', calls := 1\<rparr>, Some [map (np_single int_numpy) (map (np_micro int_numpy) row)])"
    by (simp add: ndp_table_def py_nth_def)
  then show ?thesis by (simp add: slsload_def miss_def)
qed

text \<open>
  C33: What type ndp returns does not depend on the tables. Two calls with the same caches and the same
  content of fresh memory return the same sums and the same hit rate whatever the two SSDs hold, which
  program is inserted and what the requests return: the sums are computed from memory the driver never
  wrote and from the cached rows.
\<close>

theorem ndp_ignores_tables:
  assumes "slsload L N C ''ndp'' m S q n bs epr st = Inr (st1, r1, p1)" "slsload L' N C ''ndp'' m S q n bs epr st' = Inr (st2, r2, p2)"
    and "lru st = lru st'" "calls st = calls st'" "lib_mem L = lib_mem L'"
  shows "r1 = r2 \<and> p1 = p2 \<and> lru st1 = lru st2"
proof -
  let ?r = "\<lambda>st. st\<lparr>localhits := 0, localmisses := 0\<rparr>"
  from assms(1,2) have x: "py_for (ndp_table L N C m S q bs epr) [0..<n] (?r st, None) = Inr (st1, r1)"
      "py_for (ndp_table L' N C m S q bs epr) [0..<n] (?r st', None) = Inr (st2, r2)"
      "p1 = np_percent N (localhits st1) (localhits st1 + localmisses st1)" "p2 = np_percent N (localhits st2) (localhits st2 + localmisses st2)"
    by (auto simp: slsload_def Let_def py_bind_Inr split: if_splits)
  let ?R = "\<lambda>(s, r) (s', r'). same_caches s s' \<and> r = r'"
  have "?R (st1, r1) (st2, r2)"
  proof (rule py_for_rel [where R = ?R, OF x(1,2)])
    show "?R (?r st, None) (?r st', None)" using assms(3,4) by (simp add: same_caches_def)
  qed (use assms(5) in \<open>auto dest: ndp_table_rel\<close>)
  with x(3,4) show ?thesis by (auto simp: same_caches_def)
qed

theorem ndp_ignores_tables_witness:
  "\<exists>st1 st2 r rate. slsload (ref_lib 300000) int_numpy list_lru ''ndp'' 32 [[5]] 0 1 1 1 (ndp_state ones_ssd) = Inr (st1, Some r, rate) \<and>
     slsload (ref_lib 300000) int_numpy list_lru ''ndp'' 32 [[5]] 0 1 1 1 (ndp_state (ones_ssd\<lparr>ssd_blk := \<lambda>_. replicate 4096 2\<rparr>)) =
       Inr (st2, Some r, rate)"
proof -
  have "ssd_ok (ones_ssd\<lparr>ssd_blk := \<lambda>_. replicate 4096 2\<rparr>)" by (simp add: ssd_ok_def ones_ssd_def)
  from ndp_single_run [OF this] ndp_single_run [OF ssd_ok_ones] obtain st1 r1 p1 st2 r2 p2 where
    r: "slsload (ref_lib 300000) int_numpy list_lru ''ndp'' 32 [[5]] 0 1 1 1 (ndp_state ones_ssd) = Inr (st1, Some r1, p1)"
      "slsload (ref_lib 300000) int_numpy list_lru ''ndp'' 32 [[5]] 0 1 1 1 (ndp_state (ones_ssd\<lparr>ssd_blk := \<lambda>_. replicate 4096 2\<rparr>)) =
       Inr (st2, Some r2, p2)" by blast
  with ndp_ignores_tables [OF r] show ?thesis by (simp add: ndp_state_def)
qed



text \<open>
  C34: Type ndp does not survive a large batch. Above 128 the indices are split; the second part meets
  an array where the loop expects a list, so that a call whose first table is split into two or more
  parts raises an exception, on any device.
\<close>

theorem ndp_large_batch_fails:
  assumes "128 < bs" "0 < n" "S = inds # S'" "np_split N (take (bs * epr) inds) bs = Inr (x # y # parts)"
  shows "\<exists>e. slsload L N C ''ndp'' m S q n bs epr st = Inl e"
proof -
  have "py_for (ndp_part L N C m q 128 epr 0) (x # y # parts) (st0, [], False) \<noteq> Inr r" for st0 r
  proof
    assume "py_for (ndp_part L N C m q 128 epr 0) (x # y # parts) (st0, [], False) = Inr r"
    then obtain st1 l a z where "ndp_part L N C m q 128 epr 0 x (st0, [], False) = Inr (st1, l, a)" "ndp_part L N C m q 128 epr 0 y (st1, l, a) = Inr z"
      by (auto simp: py_bind_Inr)
    with ndp_part_result ndp_part_array [of 128 L N C m q epr 0 y st1 l z] show False by (metis zero_less_numeral)
  qed
  then have "ndp_table L N C m S q bs epr 0 z \<noteq> Inr r" for z r
    using assms(1,3,4) by (cases z) (auto simp: ndp_table_def py_nth_def py_bind_Inr simp del: py_for.simps)
  moreover obtain n' where "n = Suc n'" using assms(2) by (cases n) auto
  ultimately have "py_for (ndp_table L N C m S q bs epr) [0..<n] z \<noteq> Inr r" for z r
    by (simp add: upt_conv_Cons py_bind_Inr del: upt_Suc)
  then have "slsload L N C ''ndp'' m S q n bs epr st \<noteq> Inr r" for r
    by (auto simp: slsload_def Let_def py_bind_Inr)
  then show ?thesis by (metis sum.exhaust_sel)
qed

theorem ndp_large_batch_fails_witness:
  "\<exists>e. slsload (ref_lib 300000) int_numpy list_lru ''ndp'' 32 [[1, 2, 3, 4]] 0 1 256 1 (ndp_state ones_ssd) = Inl e"
proof -
  have "take (256 * 1) [1, 2, 3, 4 :: int] = [1, 2, 3, 4]" by (rule take_all) simp
  then have "np_split int_numpy (take (256 * 1) [1, 2, 3, 4]) 256 = Inr ([1, 2] # [3, 4] # [])" by (simp add: int_numpy_def)
  from ndp_large_batch_fails [OF _ _ refl this, of 1] show ?thesis by simp
qed

text \<open>
  Type dram does not work. The hit rate is computed from counters that only the other types set:
  with at least one epoch and one batch the main program raises ZeroDivisionError, on any device and input.
\<close>

lemma dram_always_fails:
  fixes d :: "'d unvme" and C :: "'c lru_ops"
  assumes "arg_sls_type args = ''dram''" "0 < arg_nepochs args" "0 < nb" "data_shape nb (length (arg_embedding_size args)) data"
  shows "rec_main L N C dict_order Ws args data nb opened pg d = Inl ZeroDivisionError"
proof -
  have sls: "slsload L N C ''dram'' m S q n bs epr st = Inl ZeroDivisionError" for m S q n bs epr and st :: "('d, 'c) rec_state"
    by (simp add: slsload_def)
  have "run_batch L N C args (cut_data args data) 0 z = Inl ZeroDivisionError" for z :: "('d, 'c) rec_state \<times> _"
    using assms(1,3,4) sls by (cases z) (simp add: run_batch_def cut_data_def data_shape_def py_nth_def)
  moreover have "[0..<nb] = 0 # [1..<nb]" "[0..<arg_nepochs args] = 0 # [1..<arg_nepochs args]"
    using assms(2,3) by (simp_all add: upt_conv_Cons)
  ultimately have "run_epochs L N C args (cut_data args data) nb z = Inl ZeroDivisionError" for z
    by (simp add: run_epochs_def)
  with trim_data_run [OF assms(4)] assms(1) show ?thesis by (simp add: rec_main_def Let_def)
qed

end
