(* ===== verification/Rec_Trace.thy ===== *)
theory Rec_Trace
  imports Complex_Main Python_Prelude "HOL-Library.Multiset"
begin

text \<open>
  The synthetic input of the recommendation models, \<open>src/RecSSD-RecInfra-fixed.32/data_generator\<close>: a trace
  of accesses is profiled into LRU stack distances (\<open>dlrm_data_caffe2.py\<close> with a stack, \<open>trace_profile.py\<close>
  with a window), the distances are turned into a cumulative distribution, and a new trace is generated
  from it (\<open>trace_generator.py\<close>, \<open>dlrm_data_caffe2.py\<close>) and cut into the batches of the models.

  Random draws are arguments. Floating point numbers are elements of an ordered type with the
  operations the code uses; the theorems take an ordered field for it. Line numbers are natural numbers.
\<close>

section \<open>Python lists\<close>

text \<open>\<open>xs.pop(i)\<close>, as the list that is left.\<close>

definition py_pop :: "'a list \<Rightarrow> int \<Rightarrow> 'a list py" where
  "py_pop xs i =
     (let j = (if i < 0 then i + int (length xs) else i)
      in if 0 \<le> j \<and> j < int (length xs) then Inr (take (nat j) xs @ drop (nat j + 1) xs) else Inl IndexError)"

text \<open>\<open>xs.insert(i, x)\<close> for \<open>0 <= i\<close>.\<close>

definition py_insert :: "nat \<Rightarrow> 'a \<Rightarrow> 'a list \<Rightarrow> 'a list" where
  "py_insert i x xs = take i xs @ x # drop i xs"

text \<open>\<open>xs.index(x)\<close>; \<open>None\<close> is ValueError.\<close>

primrec py_index :: "'a \<Rightarrow> 'a list \<Rightarrow> nat option" where
  "py_index x [] = None"
| "py_index x (y # ys) = (if y = x then Some 0 else map_option Suc (py_index x ys))"

text \<open>\<open>bisect.bisect(a, x)\<close> of the standard library.\<close>

function bisect_loop :: "nat list \<Rightarrow> nat \<Rightarrow> nat \<Rightarrow> nat \<Rightarrow> nat" where
  "bisect_loop a x lo hi =
     (if lo < hi then
        let mid = (lo + hi) div 2 in
        if x < a ! mid then bisect_loop a x lo mid else bisect_loop a x (mid + 1) hi
      else lo)"
  by pat_completeness auto
termination
  by (relation "measure (\<lambda>(a, x, lo, hi). hi - lo)") auto

declare bisect_loop.simps [simp del]

definition bisect :: "nat list \<Rightarrow> nat \<Rightarrow> nat" where
  "bisect a x = bisect_loop a x 0 (length a)"

section \<open>Generating a trace\<close>

text \<open>The first value whose cumulative probability reaches \<open>u\<close>; a loop that finds none returns Python's None.\<close>

fun sample :: "'f :: linorder \<Rightarrow> nat list \<Rightarrow> nat \<Rightarrow> 'f list \<Rightarrow> nat option py" where
  "sample u cumm_val j [] = Inr None"
| "sample u cumm_val j (f # fs) =
     (if u \<le> f then py_bind (py_nth cumm_val (int j)) (\<lambda>v. Inr (Some v)) else sample u cumm_val (j + 1) fs)"

definition generate_stack_distance ::
  "'f :: {linorder, one, plus, minus, times} \<Rightarrow> nat list \<Rightarrow> 'f list \<Rightarrow> nat \<Rightarrow> nat \<Rightarrow> bool \<Rightarrow> nat option py" where
  "generate_stack_distance u cumm_val cumm_dist max_i i enable_padding =
     py_bind
       (if i < max_i then
          py_bind (py_nth cumm_dist (int (bisect cumm_val i) - 1)) (\<lambda>fi. Inr (u * fi))
        else if enable_padding then
          py_bind (py_nth cumm_dist 0) (\<lambda>fi. Inr ((1 - fi) * u + fi))
        else Inr u) (\<lambda>u.
     sample u cumm_val 0 cumm_dist)"

definition np_uint64 :: "nat \<Rightarrow> nat py" where
  "np_uint64 n = (if n < 2 ^ 64 then Inr n else Inl OverflowError)"

text \<open>One reference: a new line for distance 0, otherwise the line at that distance from the end.\<close>

definition lru_step ::
  "nat \<Rightarrow> nat \<Rightarrow> nat \<Rightarrow> nat list \<times> nat \<times> nat list \<Rightarrow> (nat list \<times> nat \<times> nat list) py" where
  "lru_step cache_line_size l sd = (\<lambda>(line_accesses, i, ztrace).
     if sd = 0 then
       py_bind (py_nth line_accesses 0) (\<lambda>line_ref.
       py_bind (np_uint64 (line_ref * cache_line_size)) (\<lambda>mem_ref.
       Inr (tl line_accesses @ [line_ref], i + 1, ztrace @ [mem_ref])))
     else
       py_bind (py_nth line_accesses (int l - int sd)) (\<lambda>line_ref.
       py_bind (np_uint64 (line_ref * cache_line_size)) (\<lambda>mem_ref.
       py_bind (py_pop line_accesses (int l - int sd)) (\<lambda>rest.
       Inr (rest @ [line_ref], i, ztrace @ [mem_ref])))))"

text \<open>
  The two generators differ in the size of a line and in the factor on the distance: \<open>trace_generator.py\<close>
  has 1 and 1, \<open>dlrm_data_caffe2.py\<close> has 128 and the number of indices per lookup. There is one draw
  in \<open>us\<close> for each reference.
\<close>

definition trace_generate ::
  "nat \<Rightarrow> nat \<Rightarrow> nat list \<Rightarrow> nat list \<Rightarrow> 'f :: {linorder, one, plus, minus, times} list \<Rightarrow> bool \<Rightarrow> 'f list \<Rightarrow> nat list py" where
  "trace_generate cache_line_size factor line_accesses list_sd cumm_sd enable_padding us =
     py_bind (py_nth list_sd (-1)) (\<lambda>max_sd.
     py_bind (py_for (\<lambda>u (line_accesses', i, ztrace).
         py_bind (generate_stack_distance u list_sd cumm_sd max_sd i enable_padding) (\<lambda>sd.
         py_bind (py_opt TypeError sd) (\<lambda>sd.
         lru_step cache_line_size (length line_accesses) (sd * factor) (line_accesses', i, ztrace))))
       us (line_accesses, 0, [])) (\<lambda>(_, _, ztrace).
     Inr ztrace))"

text \<open>\<open>perm\<close> is the sample of all of \<open>range(table_size)\<close> that \<open>random.sample\<close> returns.\<close>

definition trace_generate_lru ::
  "nat list \<Rightarrow> nat list \<Rightarrow> 'f :: {linorder, one, plus, minus, times} list \<Rightarrow> bool \<Rightarrow> 'f list \<Rightarrow> nat list py" where
  "trace_generate_lru perm list_sd cumm_sd enable_padding us = trace_generate 1 1 perm list_sd cumm_sd enable_padding us"

definition dlrm_trace_generate_lru ::
  "nat \<Rightarrow> nat list \<Rightarrow> nat list \<Rightarrow> 'f :: {linorder, one, plus, minus, times} list \<Rightarrow> bool \<Rightarrow> 'f list \<Rightarrow> nat list py" where
  "dlrm_trace_generate_lru num_indices_per_lookup line_accesses list_sd cumm_sd enable_padding us =
     trace_generate 128 num_indices_per_lookup line_accesses list_sd cumm_sd enable_padding us"

section \<open>Profiling a trace\<close>

text \<open>
  With a stack of the lines, the one used last at the end. The distances and the lines are collected in
  reverse. \<open>np.uint64(x / cache_line_size)\<close> is the quotient for addresses that a float represents exactly.
\<close>

definition profile_step :: "nat \<Rightarrow> nat \<Rightarrow> nat list \<times> nat list \<times> nat list \<Rightarrow> nat list \<times> nat list \<times> nat list" where
  "profile_step cache_line_size x = (\<lambda>(rstack, stack_distances, line_accesses).
     let r = x div cache_line_size; l = length rstack in
     case py_index r rstack of
       Some i \<Rightarrow> (py_insert (l - 1) r (take i rstack @ drop (i + 1) rstack), (l - i) # stack_distances, line_accesses)
     | None \<Rightarrow> (py_insert l r rstack, 0 # stack_distances, r # line_accesses))"

definition trace_profile :: "nat \<Rightarrow> bool \<Rightarrow> nat list \<Rightarrow> (nat list \<times> nat list \<times> nat list) py" where
  "trace_profile cache_line_size enable_padding trace =
     (let (rstack, stack_distances, line_accesses) = fold (profile_step cache_line_size) trace ([], [], [])
      in if enable_padding then
           if stack_distances = [] then Inl ValueError
           else let l = length stack_distances; c = Max (set stack_distances) in
             if c = 0 then Inl ZeroDivisionError
             else Inr (rstack, stack_distances @ replicate ((l + c - 1) div c) 0, line_accesses)
         else Inr (rstack, stack_distances, line_accesses))"

text \<open>\<open>trace_profile.py\<close> looks for the last access in a window of the trace instead.\<close>

definition window_step :: "nat list \<Rightarrow> nat \<Rightarrow> nat \<Rightarrow> nat list \<times> nat list \<Rightarrow> nat list \<times> nat list" where
  "window_step trace max_stack_distance i = (\<lambda>(stack_distances, line_accesses).
     let x = trace ! i;
         trace_tmp = (if i < max_stack_distance then take i trace
                      else take max_stack_distance (drop (i - max_stack_distance) trace));
         x_index = filter (\<lambda>k. trace_tmp ! k = x) [0..<length trace_tmp]
     in if x_index \<noteq> [] then
          let sub_region = take (i - last x_index) (drop (last x_index) trace_tmp)
          in (stack_distances @ [card (set sub_region)], line_accesses)
        else (stack_distances @ [0], line_accesses @ [x]))"

definition window_profile :: "nat list \<Rightarrow> nat \<Rightarrow> nat list \<times> nat list" where
  "window_profile trace max_stack_distance = fold (window_step trace max_stack_distance) [0..<length trace] ([], [])"

section \<open>The distribution\<close>

text \<open>\<open>sorted(Counter(stack_distances).items())\<close> and the cumulative sums of the frequencies.\<close>

definition sd_counts :: "nat list \<Rightarrow> (nat \<times> nat) list" where
  "sd_counts stack_distances = map (\<lambda>sd. (sd, count_list stack_distances sd)) (sorted_list_of_set (set stack_distances))"

fun cumm_loop :: "'f :: field \<Rightarrow> 'f list \<Rightarrow> (nat \<times> nat) list \<Rightarrow> 'f list" where
  "cumm_loop l cumm [] = cumm"
| "cumm_loop l cumm ((sd, k) # dc) =
     cumm_loop l (cumm @ [if cumm = [] then of_nat k / l else last cumm + of_nat k / l]) dc"

definition sd_distribution :: "nat list \<Rightarrow> nat list \<times> 'f :: field list" where
  "sd_distribution stack_distances =
     (let dc = sd_counts stack_distances
      in (map fst dc, cumm_loop (of_nat (length stack_distances)) [] dc))"

section \<open>Synthetic input\<close>

text \<open>
  The input of the models from a distribution for each table: the first half of the generated trace is
  dropped, the rest cut into lookups. \<open>np.int32\<close> wraps; a group with an index outside of the table is
  reduced modulo its size. \<open>dists\<close> gives what \<open>read_dist_from_file\<close> reads for a table and \<open>draw\<close> the
  random numbers of a table. The dense features are random and left out.
\<close>

definition np_int32 :: "int \<Rightarrow> int" where
  "np_int32 x = sint (word_of_int x :: cint)"

definition synthetic_group :: "nat \<Rightarrow> nat list \<Rightarrow> int list py" where
  "synthetic_group sz r =
     (let sparse_group = map (\<lambda>x. np_int32 (int x)) r in
      if sparse_group = [] then Inl ValueError
      else if Min (set sparse_group) < 0 \<or> int sz \<le> Max (set sparse_group)
      then Inr (map (\<lambda>x. np_int32 (if sz = 0 then 0 else x mod int sz)) sparse_group)
      else Inr sparse_group)"

definition synthetic_lookup ::
  "nat list \<Rightarrow> nat \<Rightarrow> nat \<Rightarrow> nat \<Rightarrow> nat \<Rightarrow> nat \<times> nat list \<times> int list \<Rightarrow> (nat \<times> nat list \<times> int list) py" where
  "synthetic_lookup indices sz mini_batch_size j k = (\<lambda>(sparse_group_size, lens, inds).
     let start = j * (mini_batch_size * sparse_group_size) + k * sparse_group_size;
         stop = j * (mini_batch_size * sparse_group_size) + (k + 1) * sparse_group_size
     in py_bind (synthetic_group sz (take (stop - start) (drop start indices))) (\<lambda>sparse_group.
        Inr (length sparse_group, lens @ [length sparse_group], inds @ sparse_group)))"

definition synthetic_table ::
  "nat list list \<Rightarrow> nat list \<Rightarrow> nat \<Rightarrow> nat \<Rightarrow> nat \<Rightarrow> nat \<times> nat list list \<times> int list list \<Rightarrow> (nat \<times> nat list list \<times> int list list) py" where
  "synthetic_table per_table_indices ln_emb mini_batch_size j i = (\<lambda>(sparse_group_size, emb_lengths, emb_indices).
     py_bind (py_nth per_table_indices (int i)) (\<lambda>indices.
     py_bind (py_nth ln_emb (int i)) (\<lambda>sz.
     py_bind (py_for (synthetic_lookup indices sz mini_batch_size j) [0..<mini_batch_size] (sparse_group_size, [], [])) (\<lambda>(sparse_group_size, lens, inds).
     Inr (sparse_group_size, emb_lengths @ [lens], emb_indices @ [inds])))))"

definition synthetic_batch ::
  "nat list list \<Rightarrow> nat list \<Rightarrow> nat \<Rightarrow> nat \<Rightarrow> nat \<times> nat list list list \<times> int list list list \<Rightarrow>
   (nat \<times> nat list list list \<times> int list list list) py" where
  "synthetic_batch per_table_indices ln_emb mini_batch_size j = (\<lambda>(sparse_group_size, lS_lengths, lS_indices).
     py_bind (py_for (synthetic_table per_table_indices ln_emb mini_batch_size j) [0..<length ln_emb] (sparse_group_size, [], [])) (\<lambda>(sparse_group_size, ls, is).
     Inr (sparse_group_size, lS_lengths @ [ls], lS_indices @ [is])))"

definition per_table_indices ::
  "(nat \<Rightarrow> (nat list \<times> nat list \<times> 'f :: {linorder, one, plus, minus, times} list) py) \<Rightarrow> (nat \<Rightarrow> nat \<Rightarrow> 'f) \<Rightarrow> bool \<Rightarrow> nat \<Rightarrow> nat \<Rightarrow> nat \<Rightarrow>
   nat list list py" where
  "per_table_indices dists draw enable_padding num_indices_per_lookup num tables =
     py_for (\<lambda>i acc. py_bind (dists i) (\<lambda>(line_accesses, list_sd, cumm_sd).
       py_bind (dlrm_trace_generate_lru num_indices_per_lookup line_accesses list_sd cumm_sd enable_padding (map (draw i) [0..<2 * num])) (\<lambda>indices.
       Inr (acc @ [drop num indices])))) [0..<tables] []"

definition generate_synthetic_input_data ::
  "(nat \<Rightarrow> (nat list \<times> nat list \<times> 'f :: {linorder, one, plus, minus, times} list) py) \<Rightarrow> (nat \<Rightarrow> nat \<Rightarrow> 'f) \<Rightarrow>
   nat \<Rightarrow> nat \<Rightarrow> nat \<Rightarrow> bool \<Rightarrow> nat list \<Rightarrow> bool \<Rightarrow> (nat list list list \<times> int list list list) py" where
  "generate_synthetic_input_data dists draw nbatches mini_batch_size num_indices_per_lookup fixed ln_emb enable_padding =
     (if \<not> fixed \<and> ln_emb \<noteq> [] then Inl SystemExit
      else
        py_bind (per_table_indices dists draw enable_padding num_indices_per_lookup (nbatches * num_indices_per_lookup * mini_batch_size) (length ln_emb)) (\<lambda>per_table.
        py_bind (py_for (synthetic_batch per_table ln_emb mini_batch_size) [0..<nbatches] (num_indices_per_lookup, [], [])) (\<lambda>(_, lS_lengths, lS_indices).
        Inr (lS_lengths, lS_indices))))"

section \<open>Stack distances\<close>

text \<open>
  The specification. The lines of a sequence of accesses in the order of their last access, which is
  \<^const>\<open>remdups\<close>; in the order of their first access; and the distance of an access: 0 for a new line,
  otherwise the number of different lines since the last access to it, itself included.
\<close>

definition firsts :: "'a list \<Rightarrow> 'a list" where
  "firsts xs = rev (remdups (rev xs))"

definition stack_dist :: "'a list \<Rightarrow> 'a \<Rightarrow> nat" where
  "stack_dist xs x = (if x \<in> set xs then card (set (x # takeWhile (\<lambda>y. y \<noteq> x) (rev xs))) else 0)"

definition stack_dists :: "'a list \<Rightarrow> nat list" where
  "stack_dists xs = map (\<lambda>n. stack_dist (take n xs) (xs ! n)) [0..<length xs]"

lemma firsts_simps [simp]: "firsts [] = []" "firsts (xs @ [x]) = (if x \<in> set xs then firsts xs else firsts xs @ [x])"
  "set (firsts xs) = set xs" "distinct (firsts xs)" "length (firsts xs) = card (set xs)"
  by (simp_all add: firsts_def length_remdups_card_conv)

lemma stack_dists_simps [simp]: "stack_dists [] = []" "stack_dists (xs @ [x]) = stack_dists xs @ [stack_dist xs x]"
  "length (stack_dists xs) = length xs"
  by (simp_all add: stack_dists_def nth_append)

lemma remdups_append_eq: "remdups (xs @ ys) = filter (\<lambda>x. x \<notin> set ys) (remdups xs) @ remdups ys"
  by (induction xs) auto

lemma remdups_snoc: "remdups (xs @ [x]) = filter (\<lambda>y. y \<noteq> x) (remdups xs) @ [x]"
  by (simp add: remdups_append_eq)

lemma last_access:
  assumes "x \<in> set xs"
  obtains ys zs where "xs = ys @ x # zs" "x \<notin> set zs"
  using assms by (metis split_list_last)

text \<open>The position of a line in the stack gives its distance.\<close>

lemma py_index_append: "x \<notin> set ys \<Longrightarrow> py_index x (ys @ x # zs) = Some (length ys)"
  by (induction ys) auto

lemma py_index_None: "py_index x xs = None \<longleftrightarrow> x \<notin> set xs"
  by (induction xs) auto

lemma stack_split:
  assumes "x \<in> set xs"
  obtains us vs where "remdups xs = us @ x # vs" "x \<notin> set us" "x \<notin> set vs" "stack_dist xs x = Suc (length vs)"
proof -
  from assms obtain ys zs where xs: "xs = ys @ x # zs" "x \<notin> set zs" by (rule last_access)
  have "remdups xs = filter (\<lambda>y. y \<notin> set (x # zs)) (remdups ys) @ x # remdups zs"
    unfolding xs(1) remdups_append_eq using xs(2) by simp
  moreover have "takeWhile (\<lambda>y. y \<noteq> x) (rev xs) = rev zs"
    unfolding xs(1) using xs(2) by (simp add: takeWhile_append)
  then have "stack_dist xs x = Suc (length (remdups zs))"
    using assms xs(2) by (simp add: stack_dist_def length_remdups_card_conv)
  ultimately show thesis using that xs(2) by (metis mem_Collect_eq list.set_intros(1) set_filter set_remdups)
qed

lemma filter_neq [simp]: "x \<notin> set us \<Longrightarrow> filter (\<lambda>y. y \<noteq> x) us = us"
  by (induction us) auto

lemma profile_step_spec:
  "profile_step c x (remdups ys, sds, ls) =
     (remdups (ys @ [x div c]), stack_dist ys (x div c) # sds, if x div c \<in> set ys then ls else x div c # ls)"
proof (cases "x div c \<in> set ys")
  case True
  then obtain us vs where "remdups ys = us @ x div c # vs" "x div c \<notin> set us" "x div c \<notin> set vs" "stack_dist ys (x div c) = Suc (length vs)"
    by (rule stack_split)
  then show ?thesis
    using True by (simp add: profile_step_def py_index_append py_insert_def remdups_snoc)
next
  case False
  then have "py_index (x div c) (remdups ys) = None" by (simp add: py_index_None)
  then show ?thesis
    using False by (simp add: profile_step_def py_insert_def remdups_snoc stack_dist_def Let_def)
qed

lemma profile_fold:
  "fold (profile_step c) xs ([], [], []) =
     (let ys = map (\<lambda>x. x div c) xs in (remdups ys, rev (stack_dists ys), rev (firsts ys)))"
proof (induction xs rule: rev_induct)
  case (snoc x xs)
  let ?ys = "map (\<lambda>x. x div c) xs"
  from profile_step_spec [of c x ?ys "rev (stack_dists ?ys)" "rev (firsts ?ys)"] snoc show ?case by (simp add: Let_def)
qed (simp add: Let_def)

lemma trace_profile_eq:
  "trace_profile c False xs = (let ys = map (\<lambda>x. x div c) xs in Inr (remdups ys, rev (stack_dists ys), rev (firsts ys)))"
  by (simp add: trace_profile_def profile_fold Let_def)

text \<open>The profile by windows, when the window holds the whole trace.\<close>

lemma last_filter_index:
  assumes "x \<notin> set zs"
  shows "last (filter (\<lambda>k. (ys @ x # zs) ! k = x) [0..<length (ys @ x # zs)]) = length ys"
proof -
  have "[0..<length (ys @ x # zs)] = [0..<length ys] @ length ys # [Suc (length ys)..<length (ys @ x # zs)]"
    using upt_add_eq_append [of 0 "length ys" "Suc (length zs)"] by (simp add: upt_conv_Cons del: upt_Suc)
  moreover have "filter (\<lambda>k. (ys @ x # zs) ! k = x) [Suc (length ys)..<length (ys @ x # zs)] = []"
  proof -
    have "(ys @ x # zs) ! k \<noteq> x" if "length ys < k" "k < Suc (length ys + length zs)" for k
      using that assms by (auto simp: nth_append nth_Cons split: nat.splits)
    then show ?thesis by (auto simp: filter_empty_conv simp del: upt_Suc)
  qed
  ultimately show ?thesis by (simp del: upt_Suc)
qed

lemma window_step_spec:
  assumes "length trace \<le> m" "i < length trace"
  shows "window_step trace m i (sds, ls) =
    (sds @ [stack_dist (take i trace) (trace ! i)], if trace ! i \<in> set (take i trace) then ls else ls @ [trace ! i])"
proof (cases "trace ! i \<in> set (take i trace)")
  case True
  let ?x = "trace ! i" and ?p = "take i trace"
  from True obtain ys zs where p: "?p = ys @ ?x # zs" "?x \<notin> set zs" by (rule last_access)
  note last = last_filter_index [OF p(2), of ys]
  have "filter (\<lambda>k. ?p ! k = ?x) [0..<length ?p] \<noteq> []"
    using True by (force simp: filter_empty_conv in_set_conv_nth)
  moreover have "take (i - length ys) (drop (length ys) ?p) = ?x # zs"
    using p(1) assms(2) by (metis append_eq_conv_conj drop_eq_Nil2 length_drop length_take min.absorb4 order_refl take_all)
  moreover have "takeWhile (\<lambda>y. y \<noteq> ?x) (rev ?p) = rev zs"
    using p(2) by (simp add: p(1) takeWhile_append)
  ultimately show ?thesis
    using True assms last by (simp add: window_step_def Let_def stack_dist_def p(1))
next
  case False
  then have "filter (\<lambda>k. take i trace ! k = trace ! i) [0..<length (take i trace)] = []"
    by (auto simp: filter_empty_conv) (metis in_set_conv_nth length_take min.absorb4 assms(2) less_imp_le nth_take)
  with False assms show ?thesis by (simp add: window_step_def Let_def stack_dist_def)
qed

lemma window_profile_eq:
  assumes "length trace \<le> m"
  shows "window_profile trace m = (stack_dists trace, firsts trace)"
proof -
  have "fold (window_step trace m) [0..<n] ([], []) = (stack_dists (take n trace), firsts (take n trace))" if "n \<le> length trace" for n
    using that
  proof (induction n)
    case (Suc n)
    with window_step_spec [OF assms, of n] show ?case by (simp add: take_Suc_conv_app_nth)
  qed simp
  from this [of "length trace"] show ?thesis by (simp add: window_profile_def)
qed

section \<open>Replaying the distances\<close>

lemma py_pop_append: "py_pop (us @ x # vs) (int (length us)) = Inr (us @ vs)"
  by (simp add: py_pop_def)

text \<open>
  The list of lines during the replay of the distances of \<open>p @ s\<close>, after those of \<open>p\<close>: the lines not
  used yet, then the stack.
\<close>

definition replay_state :: "nat \<Rightarrow> nat list \<Rightarrow> nat list \<Rightarrow> nat list \<times> nat \<times> nat list" where
  "replay_state c ys p = (drop (card (set p)) (firsts ys) @ remdups p, card (set p), map (\<lambda>y. y * c) p)"

lemma firsts_append: "\<exists>r. firsts (xs @ ys) = firsts xs @ r"
proof (induction ys rule: rev_induct)
  case (snoc y ys)
  then show ?case using firsts_simps(2) [of "xs @ ys" y] by auto
qed simp

lemma replay_step:
  assumes "ys = p @ y # s" "y * c < 2 ^ 64"
  shows "lru_step c (card (set ys)) (stack_dist p y) (replay_state c ys p) = Inr (replay_state c ys (p @ [y]))"
proof (cases "y \<in> set p")
  case True
  then obtain us vs where r: "remdups p = us @ y # vs" "y \<notin> set us" "y \<notin> set vs" "stack_dist p y = Suc (length vs)"
    by (rule stack_split)
  let ?d = "drop (card (set p)) (firsts ys)"
  have "card (set p) \<le> card (set ys)" unfolding assms(1) by (intro card_mono) auto
  moreover have "card (set p) = length us + Suc (length vs)" using arg_cong [OF r(1), of length] by (simp add: length_remdups_card_conv)
  ultimately have i: "int (card (set ys)) - int (stack_dist p y) = int (length (?d @ us))" using r(4) by simp
  have e: "drop (card (set p)) (firsts ys) @ remdups p = (?d @ us) @ y # vs" by (simp add: r(1))
  have "py_nth ((?d @ us) @ y # vs) (int (length (?d @ us))) = Inr y"
    using py_nth_nat [of "length (?d @ us)" "(?d @ us) @ y # vs"] by (simp only: nth_append_length) simp
  then have "lru_step c (card (set ys)) (stack_dist p y) (replay_state c ys p) =
      Inr (((?d @ us) @ vs) @ [y], card (set p), map (\<lambda>y. y * c) p @ [y * c])"
    unfolding lru_step_def replay_state_def split_conv i e py_pop_append
    using r(4) assms(2) by (simp only: py_bind_simps np_uint64_def if_True py_pop_append) simp
  moreover have "remdups (p @ [y]) = us @ vs @ [y]" using r(2,3) by (simp add: remdups_snoc r(1))
  moreover have "set (p @ [y]) = set p" using True by auto
  ultimately show ?thesis unfolding replay_state_def by simp
next
  case False
  from firsts_append [of "p @ [y]" s] obtain rest where f: "firsts ys = firsts p @ y # rest" using False assms(1) by auto
  have "drop (card (set p)) (firsts ys) = y # rest" "drop (Suc (card (set p))) (firsts ys) = rest" unfolding f by simp_all
  with False assms(2) show ?thesis by (simp add: replay_state_def lru_step_def stack_dist_def remdups_snoc py_nth_def np_uint64_def)
qed

lemma replay_run:
  assumes "\<forall>y \<in> set ys. y * c < 2 ^ 64"
  shows "py_for (lru_step c (card (set ys))) (stack_dists ys) (firsts ys, 0, []) = Inr (remdups ys, card (set ys), map (\<lambda>y. y * c) ys)"
proof -
  have "py_for (lru_step c (card (set ys))) (stack_dists p) (replay_state c ys []) = Inr (replay_state c ys p)" if "ys = p @ s" for p s
    using that
  proof (induction p arbitrary: s rule: rev_induct)
    case (snoc y p)
    have "py_for (lru_step c (card (set ys))) (stack_dists p) (replay_state c ys []) = Inr (replay_state c ys p)"
      by (rule snoc.IH [of "y # s"]) (use snoc.prems in simp)
    moreover have "lru_step c (card (set ys)) (stack_dist p y) (replay_state c ys p) = Inr (replay_state c ys (p @ [y]))"
      by (rule replay_step [of _ _ _ s]) (use snoc.prems assms in auto)
    ultimately show ?case by (simp add: py_for_append)
  qed simp
  from this [of ys "[]"] show ?thesis by (simp add: replay_state_def)
qed

section \<open>Sampling\<close>

lemma bisect_loop_sorted:
  "sorted a \<Longrightarrow> lo \<le> hi \<Longrightarrow> hi \<le> length a \<Longrightarrow> \<forall>k<lo. a ! k \<le> x \<Longrightarrow> \<forall>k<length a. hi \<le> k \<longrightarrow> x < a ! k \<Longrightarrow>
   bisect_loop a x lo hi \<le> length a \<and> (\<forall>k<length a. a ! k \<le> x \<longleftrightarrow> k < bisect_loop a x lo hi)"
proof (induction a x lo hi rule: bisect_loop.induct)
  case (1 a x lo hi)
  show ?case
  proof (cases "lo < hi")
    case True
    let ?mid = "(lo + hi) div 2"
    have mid: "lo \<le> ?mid" "?mid < hi" using True by auto
    show ?thesis
    proof (cases "x < a ! ?mid")
      case less: True
      have "\<forall>k<length a. ?mid \<le> k \<longrightarrow> x < a ! k" using less 1(3) by (auto simp: sorted_iff_nth_mono intro: less_le_trans)
      with 1(1) [OF True refl less] 1(3-6) mid have
        "bisect_loop a x lo ?mid \<le> length a \<and> (\<forall>k<length a. a ! k \<le> x \<longleftrightarrow> k < bisect_loop a x lo ?mid)" by simp
      then show ?thesis using True less by (subst (1 2) bisect_loop.simps) (simp add: Let_def)
    next
      case ge: False
      have "\<forall>k<?mid + 1. a ! k \<le> x" using ge 1(3,5) mid by (force simp: sorted_iff_nth_mono less_Suc_eq_le)
      with 1(2) [OF True refl ge] 1(3-7) mid have
        "bisect_loop a x (?mid + 1) hi \<le> length a \<and> (\<forall>k<length a. a ! k \<le> x \<longleftrightarrow> k < bisect_loop a x (?mid + 1) hi)" by simp
      then show ?thesis using True ge by (subst (1 2) bisect_loop.simps) (simp add: Let_def)
    qed
  next
    case False
    then have "bisect_loop a x lo hi = lo" by (subst bisect_loop.simps) simp
    with False 1(4-7) show ?thesis by (auto simp: not_less)
  qed
qed

lemma bisect_sorted: "sorted a \<Longrightarrow> bisect a x \<le> length a \<and> (\<forall>k<length a. a ! k \<le> x \<longleftrightarrow> k < bisect a x)"
  unfolding bisect_def by (rule bisect_loop_sorted) simp_all

text \<open>The value that is sampled stands at the first position whose cumulative probability reaches the draw.\<close>

lemma sample_found:
  assumes "k < length fs" "u \<le> fs ! k" "j + length fs \<le> length vs"
  shows "\<exists>m\<le>k. sample u vs j fs = Inr (Some (vs ! (j + m)))"
  using assms
proof (induction fs arbitrary: j k)
  case (Cons f fs)
  show ?case
  proof (cases "u \<le> f")
    case True
    with Cons.prems show ?thesis by (intro exI [of _ 0]) simp
  next
    case False
    with Cons.prems obtain k' where k: "k = Suc k'" by (cases k) auto
    with Cons.prems Cons.IH [of k' "j + 1"] obtain m where "m \<le> k'" "sample u vs (j + 1) fs = Inr (Some (vs ! (j + 1 + m)))" by auto
    with False k show ?thesis by (intro exI [of _ "Suc m"]) simp
  qed
qed simp

text \<open>A distribution over the distances: sorted, from distance 0 up to at most \<open>l\<close>, with probabilities up to 1.\<close>

definition sd_dist :: "nat \<Rightarrow> nat list \<Rightarrow> 'f :: linordered_field list \<Rightarrow> bool" where
  "sd_dist l list_sd cumm_sd \<longleftrightarrow> list_sd \<noteq> [] \<and> sorted list_sd \<and> list_sd ! 0 = 0 \<and> last list_sd \<le> l \<and>
     length cumm_sd = length list_sd \<and> (\<forall>f \<in> set cumm_sd. 0 \<le> f \<and> f \<le> 1) \<and> last cumm_sd = 1"

lemma py_nth_last: "xs \<noteq> [] \<Longrightarrow> py_nth xs (- 1) = Inr (last xs)"
  by (cases xs rule: rev_cases) (simp_all add: py_nth_def nth_append)

text \<open>Every draw gives a distance, and never more than the new references so far.\<close>

lemma draw_distance_run:
  assumes "sd_dist l list_sd cumm_sd" "0 \<le> u" "u \<le> 1"
  shows "\<exists>sd. generate_stack_distance u list_sd cumm_sd (last list_sd) i pad = Inr (Some sd) \<and> sd \<le> i \<and> sd \<le> l"
proof -
  note d = assms(1) [unfolded sd_dist_def]
  let ?n = "length list_sd"
  have "cumm_sd \<noteq> []" using d by (metis length_0_conv)
  then have n: "0 < ?n" "list_sd ! (?n - 1) = last list_sd" "cumm_sd ! (?n - 1) = 1"
    using d last_conv_nth [of list_sd] last_conv_nth [of cumm_sd] by auto
  have le: "list_sd ! m \<le> list_sd ! k" if "m \<le> k" "k < ?n" for m k using d that by (simp add: sorted_nth_mono)
  have top: "\<exists>sd. sample v list_sd 0 cumm_sd = Inr (Some sd) \<and> sd \<le> list_sd ! k" if "k < ?n" "v \<le> cumm_sd ! k" for v k
    using sample_found [of k cumm_sd v 0 list_sd] that d le by auto
  show ?thesis
  proof (cases "i < last list_sd")
    case True
    let ?b = "bisect list_sd i"
    from bisect_sorted d have b: "?b \<le> ?n" "\<forall>k<?n. list_sd ! k \<le> i \<longleftrightarrow> k < ?b" by blast+
    have "0 < ?b" using b(2) n(1) d by auto
    then have j: "?b - 1 < ?n" "list_sd ! (?b - 1) \<le> i" "int ?b - 1 = int (?b - 1)" using b by auto
    let ?f = "cumm_sd ! (?b - 1)"
    have "0 \<le> ?f" using d j(1) by simp
    then have "u * ?f \<le> ?f" using assms(3) by (simp add: mult_left_le_one_le assms(2))
    from top [OF j(1) this] obtain sd where "sample (u * ?f) list_sd 0 cumm_sd = Inr (Some sd)" "sd \<le> list_sd ! (?b - 1)" by blast
    moreover have "?b - 1 \<le> ?n - 1" "?n - 1 < ?n" using j(1) n(1) by simp_all
    then have "list_sd ! (?b - 1) \<le> l" using le [of "?b - 1" "?n - 1"] n(2) d by linarith
    moreover have "py_nth cumm_sd (int (?b - 1)) = Inr ?f" using j(1) d by (intro py_nth_nat) simp
    ultimately show ?thesis using True j(2) by (simp add: generate_stack_distance_def j(3))
  next
    case False
    have c0: "0 \<le> cumm_sd ! 0" "cumm_sd ! 0 \<le> 1" using d n(1) by simp_all
    have "(1 - cumm_sd ! 0) * u \<le> 1 - cumm_sd ! 0" using c0 assms(2,3) by (simp add: mult_left_le)
    then have pad: "(1 - cumm_sd ! 0) * u + cumm_sd ! 0 \<le> cumm_sd ! (?n - 1)" unfolding n(3) by simp
    have nopad: "u \<le> cumm_sd ! (?n - 1)" unfolding n(3) using assms(3) .
    have "?n - 1 < ?n" using n(1) by simp
    from top [OF this pad] top [OF this nopad] obtain s1 s2 where
      "sample ((1 - cumm_sd ! 0) * u + cumm_sd ! 0) list_sd 0 cumm_sd = Inr (Some s1)" "s1 \<le> last list_sd"
      "sample u list_sd 0 cumm_sd = Inr (Some s2)" "s2 \<le> last list_sd" unfolding n(2) by blast
    moreover have "py_nth cumm_sd 0 = Inr (cumm_sd ! 0)" using n(1) d py_nth_nat [of 0 cumm_sd] by simp
    ultimately show ?thesis using False d by (cases pad) (auto simp: generate_stack_distance_def)
  qed
qed

lemma lru_step_run:
  assumes "length la = l" "0 < l" "set la \<subseteq> A" "\<forall>x \<in> A. x * c < 2 ^ 64" "sd \<le> l"
  shows "\<exists>la' i' y. lru_step c l sd (la, i, z) = Inr (la', i', z @ [y * c]) \<and> length la' = l \<and> set la' \<subseteq> A \<and> y \<in> A"
proof (cases "sd = 0")
  case True
  from assms(1,2) obtain x xs where la: "la = x # xs" by (cases la) auto
  then have "x \<in> A" using assms(3) by simp
  moreover from this have "lru_step c l sd (la, i, z) = Inr (xs @ [x], i + 1, z @ [x * c])"
    using True la assms(4) by (simp add: lru_step_def py_nth_def np_uint64_def)
  moreover have "length (xs @ [x]) = l" "set (xs @ [x]) \<subseteq> A" using la assms(1,3) by auto
  ultimately show ?thesis by blast
next
  case False
  let ?j = "l - sd" and ?rest = "take (l - sd) la @ drop (Suc (l - sd)) la"
  have j: "?j < length la" "int l - int sd = int ?j" using False assms(1,2,5) by auto
  have y: "la ! ?j \<in> A" using j(1) assms(3) by auto
  have "py_pop la (int ?j) = Inr ?rest" using j(1) by (simp add: py_pop_def)
  then have "lru_step c l sd (la, i, z) = Inr (?rest @ [la ! ?j], i, z @ [la ! ?j * c])"
    using False assms(4) y j(1) unfolding lru_step_def j(2) by (simp add: np_uint64_def)
  moreover have "set (?rest @ [la ! ?j]) \<subseteq> A" using assms(3) y by (auto dest: in_set_takeD in_set_dropD)
  moreover have "length (?rest @ [la ! ?j]) = l" using j(1) assms(1) by simp
  ultimately show ?thesis using y by blast
qed

lemma trace_generate_run:
  fixes us :: "'f :: linordered_field list"
  assumes "sd_dist m list_sd cumm_sd" "lines \<noteq> []" "\<forall>x \<in> set lines. x * c < 2 ^ 64" "\<forall>u \<in> set us. 0 \<le> u \<and> u \<le> 1" "m * factor \<le> length lines"
  shows "\<exists>z. trace_generate c factor lines list_sd cumm_sd pad us = Inr z \<and> length z = length us \<and> set z \<subseteq> (\<lambda>x. x * c) ` set lines"
proof -
  let ?f = "\<lambda>u (line_accesses', i, ztrace).
     py_bind (generate_stack_distance u list_sd cumm_sd (last list_sd) i pad) (\<lambda>sd.
     py_bind (py_opt TypeError sd) (\<lambda>sd. lru_step c (length lines) (sd * factor) (line_accesses', i, ztrace)))"
  let ?P = "\<lambda>vs (la, i :: nat, z). length la = length lines \<and> set la \<subseteq> set lines \<and> length z = length vs \<and> set z \<subseteq> (\<lambda>x. x * c) ` set lines"
  have "\<exists>r. py_for ?f us (lines, 0, []) = Inr r \<and> ?P us r"
  proof (rule py_for_list [where P = ?P])
    show "?P [] (lines, 0, [])" by simp
  next
    fix ys u zs r
    assume us: "us = ys @ u # zs" and "?P ys r"
    then obtain la i z where r: "r = (la, i, z)" "length la = length lines" "set la \<subseteq> set lines" "length z = length ys" "set z \<subseteq> (\<lambda>x. x * c) ` set lines"
      by (auto split: prod.splits)
    have "0 \<le> u" "u \<le> 1" using assms(4) us by auto
    from draw_distance_run [OF assms(1) this, of i pad] obtain sd where
      sd: "generate_stack_distance u list_sd cumm_sd (last list_sd) i pad = Inr (Some sd)" "sd \<le> m" by blast
    from mult_le_mono1 [OF this(2), of factor] assms(5) have le: "sd * factor \<le> length lines" by linarith
    have "0 < length lines" using assms(2) by simp
    from lru_step_run [OF r(2) this r(3) assms(3) le, of i z] obtain la' i' y where
      "lru_step c (length lines) (sd * factor) (la, i, z) = Inr (la', i', z @ [y * c])" "length la' = length lines" "set la' \<subseteq> set lines" "y \<in> set lines" by blast
    with r sd show "\<exists>r'. ?f u r = Inr r' \<and> ?P (ys @ [u]) r'" by auto
  qed
  then obtain la i z where "py_for ?f us (lines, 0, []) = Inr (la, i, z)" "length z = length us" "set z \<subseteq> (\<lambda>x. x * c) ` set lines" by auto
  moreover have "py_nth list_sd (- 1) = Inr (last list_sd)" using assms(1) by (intro py_nth_last) (simp add: sd_dist_def)
  ultimately show ?thesis by (simp add: trace_generate_def)
qed

section \<open>The distribution of a profile\<close>

lemma cumm_loop_eq:
  fixes l :: "'f :: field"
  shows "cumm_loop l c dc = c @ map (\<lambda>n. (if c = [] then 0 else last c) + of_nat (sum_list (map snd (take (Suc n) dc))) / l) [0..<length dc]"
proof (induction l c dc rule: cumm_loop.induct)
  case (2 l c sd k dc)
  let ?b = "if c = [] then 0 else last c"
  have "map (\<lambda>n. ?b + of_nat k / l + of_nat (sum_list (map snd (take (Suc n) dc))) / l) [0..<length dc] =
      map (\<lambda>n. ?b + of_nat (sum_list (map snd (take (Suc n) ((sd, k) # dc)))) / l) [1..<Suc (length dc)]"
    by (rule nth_equalityI) (simp_all add: add_divide_distrib del: upt_Suc)
  moreover have "[0..<Suc (length dc)] = 0 # [1..<Suc (length dc)]" by (simp add: upt_conv_Cons del: upt_Suc)
  ultimately show ?case using 2 by (cases "c = []") (simp_all del: upt_Suc)
qed simp

lemma stack_dist_le: "stack_dist xs x \<le> card (set xs)"
proof (cases "x \<in> set xs")
  case True
  then obtain us vs where r: "remdups xs = us @ x # vs" "stack_dist xs x = Suc (length vs)" by (rule stack_split)
  from arg_cong [OF r(1), of length] have "card (set xs) = length us + Suc (length vs)" by (simp add: length_remdups_card_conv)
  with r(2) show ?thesis by simp
qed (simp add: stack_dist_def)

lemma stack_dists_le: "sd \<in> set (stack_dists xs) \<Longrightarrow> sd \<le> card (set xs)"
proof (induction xs rule: rev_induct)
  case (snoc x xs)
  have "card (set xs) \<le> card (set (xs @ [x]))" by (intro card_mono) auto
  with snoc stack_dist_le [of xs x] show ?case by (auto intro: le_trans)
qed simp

lemma stack_dists_zero: "xs \<noteq> [] \<Longrightarrow> 0 \<in> set (stack_dists xs)"
  by (force simp: stack_dists_def stack_dist_def intro: image_eqI [of _ _ 0])

lemma distribution_sd_dist:
  assumes "0 \<in> set s" "sd_distribution s = (list_sd, cumm_sd)" "\<forall>sd \<in> set s. sd \<le> l"
  shows "sd_dist l list_sd (cumm_sd :: 'f :: linordered_field list)"
proof -
  let ?dc = "sd_counts s" and ?S = "sorted_list_of_set (set s)"
  have ls: "list_sd = ?S" using assms(2) by (auto simp: sd_distribution_def sd_counts_def Let_def o_def)
  have ne: "?S \<noteq> []" "0 \<in> set ?S" using assms(1) by (auto simp: sorted_list_of_set_eq_Nil_iff)
  have "?S ! 0 \<le> 0" using ne by (metis in_set_conv_nth le0 sorted_sorted_list_of_set sorted_nth_mono)
  moreover have "last ?S \<le> l" using assms(3) last_in_set [OF ne(1)] by auto
  moreover have len: "length ?dc = length ?S" by (simp add: sd_counts_def)
  moreover have c: "cumm_sd = map (\<lambda>n. of_nat (sum_list (map snd (take (Suc n) ?dc))) / of_nat (length s)) [0..<length ?dc]"
    using assms(2) by (auto simp: sd_distribution_def Let_def cumm_loop_eq)
  moreover have tot: "sum_list (map snd ?dc) = length s"
  proof -
    have "sum_list (map snd ?dc) = sum_list (map (count_list s) ?S)" by (simp add: sd_counts_def o_def)
    also have "\<dots> = sum (count_list s) (set s)" by (simp add: sum_list_distinct_conv_sum_set)
    also have "\<dots> = length s" by (rule sum_count_set) simp_all
    finally show ?thesis by simp
  qed
  have part: "sum_list (map snd (take n ?dc)) \<le> length s" for n
  proof -
    have "sum_list (map snd ?dc) = sum_list (map snd (take n ?dc)) + sum_list (map snd (drop n ?dc))"
      by (metis append_take_drop_id map_append sum_list_append)
    then show ?thesis using tot by simp
  qed
  moreover have "\<forall>f \<in> set cumm_sd. 0 \<le> f \<and> f \<le> 1"
    using part assms(1) unfolding c by (auto simp: divide_le_eq_1)
  moreover have "last cumm_sd = 1"
  proof -
    have "length ?dc \<noteq> 0" using ne(1) len by simp
    then have "last cumm_sd = of_nat (sum_list (map snd (take (Suc (length ?dc - 1)) ?dc))) / of_nat (length s)"
      unfolding c by (simp add: last_map del: length_0_conv)
    moreover have "s \<noteq> []" using assms(1) by auto
    ultimately show ?thesis using tot \<open>length ?dc \<noteq> 0\<close> by simp
  qed
  ultimately show ?thesis unfolding sd_dist_def ls using ne by simp
qed

section \<open>Synthetic indices\<close>

lemma np_int32_small: "0 \<le> x \<Longrightarrow> x < 2147483648 \<Longrightarrow> np_int32 x = x"
  unfolding np_int32_def by (simp add: int_word_sint)

text \<open>
  An index of a table of \<open>sz\<close> rows. It is a multiple of every power of two up to 128 that divides the
  size of the table.
\<close>

definition good_index :: "nat \<Rightarrow> int \<Rightarrow> bool" where
  "good_index sz e \<longleftrightarrow> 0 \<le> e \<and> e < int sz \<and> int (gcd 128 sz) dvd e"

lemma synthetic_group_run:
  assumes "r \<noteq> []" "\<forall>x \<in> set r. x < 2147483648 \<and> 128 dvd x" "0 < sz" "sz < 2147483648"
  shows "\<exists>g. synthetic_group sz r = Inr g \<and> length g = length r \<and> (\<forall>e \<in> set g. good_index sz e)"
proof -
  have g: "map (\<lambda>x. np_int32 (int x)) r = map int r"
    using assms(2) by (intro map_cong refl np_int32_small) auto
  have mod: "np_int32 (int x mod int sz) = int x mod int sz" for x
  proof -
    have "0 \<le> int x mod int sz" "int x mod int sz < int sz" using assms(3) by simp_all
    then show ?thesis using assms(4) by (intro np_int32_small) linarith+
  qed
  have d: "int (gcd 128 sz) dvd int x" if "x \<in> set r" for x
    unfolding int_dvd_int_iff using assms(2) that dvd_trans [of "gcd 128 sz" 128 x] by simp
  have s: "int (gcd 128 sz) dvd int sz" unfolding int_dvd_int_iff by simp
  show ?thesis
  proof (cases "Min (set (map int r)) < 0 \<or> int sz \<le> Max (set (map int r))")
    case True
    then have "synthetic_group sz r = Inr (map (\<lambda>x. int x mod int sz) r)"
      using assms(1,3) by (simp add: synthetic_group_def g Let_def mod o_def)
    moreover have "good_index sz (int x mod int sz)" if "x \<in> set r" for x
      unfolding good_index_def using assms(3) dvd_mod [OF d [OF that] s] by simp
    ultimately show ?thesis by auto
  next
    case False
    then have "synthetic_group sz r = Inr (map int r)" using assms(1) by (simp add: synthetic_group_def g Let_def)
    moreover have "good_index sz (int x)" if "x \<in> set r" for x
    proof -
      have "int x \<le> Max (set (map int r))" using that by (intro Max_ge) auto
      with False d [OF that] show ?thesis by (simp add: good_index_def)
    qed
    ultimately show ?thesis by auto
  qed
qed

text \<open>The references generated for a table: there are enough for all batches, and each is a line address.\<close>

definition table_refs :: "nat \<Rightarrow> nat list \<Rightarrow> bool" where
  "table_refs n indices \<longleftrightarrow> length indices = n \<and> (\<forall>x \<in> set indices. x < 2147483648 \<and> 128 dvd x)"

lemma synthetic_lookup_run:
  assumes "table_refs (nb * npl * mbs) indices" "j < nb" "k < mbs" "0 < npl" "0 < sz" "sz < 2147483648"
  shows "\<exists>g. synthetic_lookup indices sz mbs j k (npl, lens, inds) = Inr (npl, lens @ [npl], inds @ g) \<and>
     length g = npl \<and> (\<forall>e \<in> set g. good_index sz e)"
proof -
  let ?a = "j * (mbs * npl) + k * npl"
  have "k * npl + npl \<le> mbs * npl" using assms(3) mult_le_mono1 [of "Suc k" mbs npl] by simp
  moreover have "j * (mbs * npl) + mbs * npl \<le> nb * (mbs * npl)" using assms(2) mult_le_mono1 [of "Suc j" nb "mbs * npl"] by simp
  ultimately have "?a + npl \<le> length indices" using assms(1) by (simp add: table_refs_def ac_simps)
  then have len: "length (take npl (drop ?a indices)) = npl" by simp
  have "\<forall>x \<in> set (take npl (drop ?a indices)). x < 2147483648 \<and> 128 dvd x"
    using assms(1) by (auto simp: table_refs_def dest: in_set_takeD in_set_dropD)
  moreover have "take npl (drop ?a indices) \<noteq> []" using len assms(4) by (metis length_0_conv less_irrefl)
  ultimately obtain g where "synthetic_group sz (take npl (drop ?a indices)) = Inr g" "length g = npl" "\<forall>e \<in> set g. good_index sz e"
    using synthetic_group_run [of "take npl (drop ?a indices)" sz] assms(5,6) len by auto
  then show ?thesis by (simp add: synthetic_lookup_def Let_def)
qed

lemma synthetic_table_run:
  assumes "\<forall>i<length ln_emb. table_refs (nb * npl * mbs) (per_table ! i)" "length per_table = length ln_emb"
    and "\<forall>sz \<in> set ln_emb. 0 < sz \<and> sz < 2147483648" "j < nb" "i < length ln_emb" "0 < npl"
  shows "\<exists>is. synthetic_table per_table ln_emb mbs j i (npl, el, ei) = Inr (npl, el @ [replicate mbs npl], ei @ [is]) \<and>
     length is = mbs * npl \<and> (\<forall>e \<in> set is. good_index (ln_emb ! i) e)"
proof -
  let ?P = "\<lambda>k (g, lens, is). g = npl \<and> lens = replicate k npl \<and> length is = k * npl \<and> (\<forall>e \<in> set is. good_index (ln_emb ! i) e)"
  have sz: "0 < ln_emb ! i" "ln_emb ! i < 2147483648" using assms(3,5) by auto
  have "\<exists>r. py_for (synthetic_lookup (per_table ! i) (ln_emb ! i) mbs j) [0..<mbs] (npl, [], []) = Inr r \<and> ?P mbs r"
  proof (rule py_for_range [where P = ?P])
    fix k r
    assume k: "k < mbs" and "?P k r"
    then obtain iss where r: "r = (npl, replicate k npl, iss)" "length iss = k * npl" "\<forall>e \<in> set iss. good_index (ln_emb ! i) e" by auto
    from synthetic_lookup_run [OF assms(1) [rule_format, OF assms(5)] assms(4) k assms(6) sz, of "replicate k npl" iss] r
    show "\<exists>r'. synthetic_lookup (per_table ! i) (ln_emb ! i) mbs j k r = Inr r' \<and> ?P (Suc k) r'"
      by (auto simp: replicate_append_same ball_Un)
  qed simp
  then show ?thesis using assms(2,5) by (auto simp: synthetic_table_def)
qed

text \<open>The indices of a batch.\<close>

definition good_batch :: "nat \<Rightarrow> nat list \<Rightarrow> int list list \<Rightarrow> bool" where
  "good_batch n ln_emb is \<longleftrightarrow> length is = length ln_emb \<and>
     (\<forall>i<length ln_emb. length (is ! i) = n \<and> (\<forall>e \<in> set (is ! i). good_index (ln_emb ! i) e))"

lemma synthetic_batch_run:
  assumes "\<forall>i<length ln_emb. table_refs (nb * npl * mbs) (per_table ! i)" "length per_table = length ln_emb"
    and "\<forall>sz \<in> set ln_emb. 0 < sz \<and> sz < 2147483648" "j < nb" "0 < npl"
  shows "\<exists>is. synthetic_batch per_table ln_emb mbs j (npl, l, ls) =
     Inr (npl, l @ [replicate (length ln_emb) (replicate mbs npl)], ls @ [is]) \<and> good_batch (mbs * npl) ln_emb is"
proof -
  let ?n = "length ln_emb"
  let ?P = "\<lambda>i (g, el, ei). g = npl \<and> el = replicate i (replicate mbs npl) \<and> length ei = i \<and>
     (\<forall>i'<i. length (ei ! i') = mbs * npl \<and> (\<forall>e \<in> set (ei ! i'). good_index (ln_emb ! i') e))"
  have "\<exists>r. py_for (synthetic_table per_table ln_emb mbs j) [0..<?n] (npl, [], []) = Inr r \<and> ?P ?n r"
  proof (rule py_for_range [where P = ?P])
    fix i r
    assume i: "i < ?n" and "?P i r"
    then obtain ei where r: "r = (npl, replicate i (replicate mbs npl), ei)" "length ei = i"
      "\<forall>i'<i. length (ei ! i') = mbs * npl \<and> (\<forall>e \<in> set (ei ! i'). good_index (ln_emb ! i') e)" by auto
    from synthetic_table_run [OF assms(1-4) i assms(5), of "replicate i (replicate mbs npl)" ei] r
    show "\<exists>r'. synthetic_table per_table ln_emb mbs j i r = Inr r' \<and> ?P (Suc i) r'"
      by (auto simp: replicate_append_same nth_append less_Suc_eq)
  qed simp
  then show ?thesis by (auto simp: synthetic_batch_def good_batch_def)
qed

lemma lru_step_shape:
  "lru_step c l sd (la, i, z) = Inr (la', i', z') \<Longrightarrow> \<exists>y. z' = z @ [y * c]"
  by (auto simp: lru_step_def np_uint64_def py_bind_Inr split: if_splits)

lemma py_for_collect:
  assumes "py_for f us (la, i, z) = Inr (la', i', z')"
    and "\<And>u la i z la' i' z'. f u (la, i, z) = Inr (la', i', z') \<Longrightarrow> \<exists>y :: nat. z' = z @ [y * c]"
  shows "length z' = length z + length us \<and> (\<forall>x \<in> set z'. x \<in> set z \<or> c dvd x)"
  using assms(1)
proof (induction us arbitrary: la i z)
  case (Cons u us)
  then obtain la1 i1 z1 where s: "f u (la, i, z) = Inr (la1, i1, z1)" "py_for f us (la1, i1, z1) = Inr (la', i', z')"
    by (auto simp: py_bind_Inr)
  from assms(2) [OF s(1)] obtain y where "z1 = z @ [y * c]" by blast
  with Cons.IH [OF s(2)] show ?case by auto
qed simp

lemma trace_generate_shape:
  assumes "trace_generate c factor lines list_sd cumm_sd pad us = Inr z"
  shows "length z = length us \<and> (\<forall>x \<in> set z. c dvd x)"
proof -
  from assms obtain m la i where
    "py_for (\<lambda>u (line_accesses', i, ztrace).
         py_bind (generate_stack_distance u list_sd cumm_sd m i pad) (\<lambda>sd.
         py_bind (py_opt TypeError sd) (\<lambda>sd.
         lru_step c (length lines) (sd * factor) (line_accesses', i, ztrace)))) us (lines, 0, []) = Inr (la, i, z)"
    by (auto simp: trace_generate_def py_bind_Inr)
  from py_for_collect [OF this, of c] show ?thesis by (auto simp: py_bind_Inr dest!: lru_step_shape)
qed

text \<open>A trace for every table, with the addresses of its lines in the range of int32.\<close>

definition table_traces ::
  "(nat \<Rightarrow> (nat list \<times> nat list \<times> 'f :: {linorder, one, plus, minus, times} list) py) \<Rightarrow> (nat \<Rightarrow> nat \<Rightarrow> 'f) \<Rightarrow> bool \<Rightarrow> nat \<Rightarrow> nat \<Rightarrow> nat \<Rightarrow> bool" where
  "table_traces dists draw pad npl num tables \<longleftrightarrow>
     (\<forall>i<tables. case py_bind (dists i) (\<lambda>(line_accesses, list_sd, cumm_sd).
          dlrm_trace_generate_lru npl line_accesses list_sd cumm_sd pad (map (draw i) [0..<2 * num])) of
        Inl _ \<Rightarrow> False | Inr tr \<Rightarrow> \<forall>x \<in> set tr. x < 2147483648)"

lemma per_table_run:
  assumes "table_traces dists draw pad npl num tables"
  shows "\<exists>per. per_table_indices dists draw pad npl num tables = Inr per \<and> length per = tables \<and> (\<forall>i<tables. table_refs num (per ! i))"
  unfolding per_table_indices_def
proof (rule py_for_range [where P = "\<lambda>n per. length per = n \<and> (\<forall>i<n. table_refs num (per ! i))"])
  fix i per
  assume i: "i < tables" and per: "length per = i \<and> (\<forall>i'<i. table_refs num (per ! i'))"
  from assms [unfolded table_traces_def, rule_format, OF i] obtain la ls cs tr where d: "dists i = Inr (la, ls, cs)"
    and tr: "dlrm_trace_generate_lru npl la ls cs pad (map (draw i) [0..<2 * num]) = Inr tr" "\<forall>x \<in> set tr. x < 2147483648"
    by (cases "dists i") (auto split: sum.splits prod.splits)
  from trace_generate_shape [OF tr(1) [unfolded dlrm_trace_generate_lru_def]] tr(2) have "table_refs num (drop num tr)"
    by (auto simp: table_refs_def dest: in_set_dropD)
  then show "\<exists>per'. py_bind (dists i) (\<lambda>(line_accesses, list_sd, cumm_sd).
       py_bind (dlrm_trace_generate_lru npl line_accesses list_sd cumm_sd pad (map (draw i) [0..<2 * num])) (\<lambda>indices.
       Inr (per @ [drop num indices]))) = Inr per' \<and> length per' = Suc i \<and> (\<forall>i'<Suc i. table_refs num (per' ! i'))"
    using per tr(1) by (simp add: d nth_append less_Suc_eq)
qed simp

lemma synthetic_run:
  assumes "table_traces dists draw pad npl (nb * npl * mbs) (length ln_emb)" "0 < npl" "\<forall>sz \<in> set ln_emb. 0 < sz \<and> sz < 2147483648"
  shows "\<exists>inds. generate_synthetic_input_data dists draw nb mbs npl True ln_emb pad =
       Inr (replicate nb (replicate (length ln_emb) (replicate mbs npl)), inds) \<and>
     length inds = nb \<and> (\<forall>j<nb. good_batch (mbs * npl) ln_emb (inds ! j))"
proof -
  from per_table_run [OF assms(1)] obtain per where per: "per_table_indices dists draw pad npl (nb * npl * mbs) (length ln_emb) = Inr per"
    "length per = length ln_emb" "\<forall>i<length ln_emb. table_refs (nb * npl * mbs) (per ! i)" by blast
  let ?ls = "replicate (length ln_emb) (replicate mbs npl)"
  let ?P = "\<lambda>j (g, l, ls). g = npl \<and> l = replicate j ?ls \<and> length ls = j \<and> (\<forall>j'<j. good_batch (mbs * npl) ln_emb (ls ! j'))"
  have "\<exists>r. py_for (synthetic_batch per ln_emb mbs) [0..<nb] (npl, [], []) = Inr r \<and> ?P nb r"
  proof (rule py_for_range [where P = ?P])
    fix j r
    assume j: "j < nb" and "?P j r"
    then obtain ls where r: "r = (npl, replicate j ?ls, ls)" "length ls = j" "\<forall>j'<j. good_batch (mbs * npl) ln_emb (ls ! j')" by auto
    from synthetic_batch_run [OF per(3,2) assms(3) j assms(2), of "replicate j ?ls" ls] r
    show "\<exists>r'. synthetic_batch per ln_emb mbs j r = Inr r' \<and> ?P (Suc j) r'"
      by (auto simp: replicate_append_same nth_append less_Suc_eq)
  qed simp
  then show ?thesis using per(1) by (auto simp: generate_synthetic_input_data_def)
qed

section \<open>Properties\<close>

lemma div_mult_less: "x < n \<Longrightarrow> x div c * c < (n :: nat)"
  by (metis div_times_less_eq_dividend le_less_trans)





text \<open>
  A generated trace never fails: the distribution computed from the profile of a trace that is not
  empty gives, for any draws from the unit interval, with or without padding, a trace with one reference
  for each draw, and every reference is the address of a line of the profiled trace.
\<close>

lemma profile_generate_total:
  fixes us :: "'f :: linordered_field list"
  assumes "trace \<noteq> []" "trace_profile c False trace = Inr (rstack, sds, lines)" "\<forall>x \<in> set trace. x < 2 ^ 64"
    and "sd_distribution (rev sds) = (list_sd, cumm_sd)" "\<forall>u \<in> set us. 0 \<le> u \<and> u \<le> 1"
  shows "\<exists>ztrace. trace_generate c 1 (rev lines) list_sd cumm_sd enable_padding us = Inr ztrace \<and>
    length ztrace = length us \<and> set ztrace \<subseteq> (\<lambda>x. x div c * c) ` set trace"
proof -
  let ?ys = "map (\<lambda>x. x div c) trace"
  have p: "rev sds = stack_dists ?ys" "rev lines = firsts ?ys" using assms(2) by (auto simp: trace_profile_eq Let_def)
  have f: "length (firsts ?ys) = card (set ?ys)" "set (firsts ?ys) = set ?ys" by simp_all
  have "sd_dist (length (rev lines)) list_sd cumm_sd"
    unfolding p(2) f(1) using assms(1,4) p(1) stack_dists_zero [of ?ys] stack_dists_le [of _ ?ys] by (intro distribution_sd_dist) auto
  moreover have "rev lines \<noteq> []" unfolding p(2) using f(2) assms(1) by force
  moreover have "\<forall>x \<in> set (rev lines). x * c < 2 ^ 64" unfolding p(2) f(2) using assms(3) div_mult_less by auto
  ultimately have "\<exists>z. trace_generate c 1 (rev lines) list_sd cumm_sd enable_padding us = Inr z \<and> length z = length us \<and>
      set z \<subseteq> (\<lambda>x. x * c) ` set (rev lines)" by (rule trace_generate_run) (use assms(5) in simp_all)
  moreover have "(\<lambda>x. x * c) ` set (rev lines) = (\<lambda>x. x div c * c) ` set trace" unfolding p(2) f(2) by (simp add: image_image)
  ultimately show ?thesis by simp
qed

text \<open>
  Long distances in \<open>dlrm_data_caffe2.py\<close>: its generator multiplies the distance with the number of
  indices per lookup. A product above the number of lines indexes the list from its other end, so it
  acts as the distance that is smaller by the number of lines; a product of more than twice the number
  of lines raises IndexError.
\<close>

lemma long_distances_wrap:
  assumes "length la = l" "l < sd"
  shows "lru_step c l sd (la, i, z) = (if sd \<le> 2 * l then lru_step c l (sd - l) (la, i, z) else Inl IndexError)"
proof (cases "sd \<le> 2 * l")
  case True
  have "py_nth la (int l - int sd) = py_nth la (int l - int (sd - l))" "py_pop la (int l - int sd) = py_pop la (int l - int (sd - l))"
    using True assms by (simp_all add: py_nth_def py_pop_def of_nat_diff)
  then show ?thesis using True assms(2) by (simp add: lru_step_def)
next
  case False
  then have "py_nth la (int l - int sd) = Inl IndexError" using assms(1) by (simp add: py_nth_def)
  then show ?thesis using False by (simp add: lru_step_def)
qed

end
