(* ===== verification/Python_Numbers.thy ===== *)
theory Python_Numbers
  imports Complex_Main Python_Prelude
begin

text \<open>
  Numbers in Python: cutting off the fraction of a float, and numbers and lists as text, with what is read back from it.
\<close>

text \<open>\<open>int(x)\<close> of a float\<close>

definition py_int :: "'f :: floor_ceiling \<Rightarrow> int" where
  "py_int x = (if 0 \<le> x then \<lfloor>x\<rfloor> else \<lceil>x\<rceil>)"

section \<open>Numbers as text\<close>

fun py_str :: "nat \<Rightarrow> string" where
  "py_str n = (if n < 10 then [char_of (48 + n)] else py_str (n div 10) @ [char_of (48 + n mod 10)])"

declare py_str.simps [simp del]

definition is_digit :: "char \<Rightarrow> bool" where
  "is_digit c \<longleftrightarrow> 48 \<le> (of_char c :: nat) \<and> (of_char c :: nat) \<le> 57"

definition is_space :: "char \<Rightarrow> bool" where
  "is_space c \<longleftrightarrow> c = CHR '' '' \<or> 9 \<le> (of_char c :: nat) \<and> (of_char c :: nat) \<le> 13"

definition py_strip :: "string \<Rightarrow> string" where
  "py_strip s = rev (dropWhile is_space (rev (dropWhile is_space s)))"

definition digits_value :: "string \<Rightarrow> nat" where
  "digits_value s = foldl (\<lambda>v c. 10 * v + (of_char c - 48)) 0 s"

text \<open>\<open>int(s)\<close>\<close>

definition int_of_str :: "string \<Rightarrow> nat py" where
  "int_of_str s = (let t = py_strip s in if t \<noteq> [] \<and> list_all is_digit t then Inr (digits_value t) else Inl ValueError)"

text \<open>\<open>s.split(", ")\<close> and \<open>s.splitlines()\<close>\<close>

fun comma_split :: "string \<Rightarrow> string list" where
  "comma_split [] = [[]]"
| "comma_split (c # s) =
     (if c = CHR '','' \<and> s \<noteq> [] \<and> hd s = CHR '' '' then [] # comma_split (tl s)
      else case comma_split s of [] \<Rightarrow> [[c]] | p # ps \<Rightarrow> (c # p) # ps)"

fun py_splitlines :: "string \<Rightarrow> string list" where
  "py_splitlines [] = []"
| "py_splitlines (c # s) =
     (if c = CHR ''\<newline>'' then [] # py_splitlines s
      else if c = CHR 0x0D then [] # py_splitlines (if s \<noteq> [] \<and> hd s = CHR ''\<newline>'' then tl s else s)
      else case py_splitlines s of [] \<Rightarrow> [[c]] | p # ps \<Rightarrow> (c # p) # ps)"

text \<open>\<open>str\<close> of a list, and \<open>s[1 : len(s) - 1]\<close>\<close>

fun comma_join :: "string list \<Rightarrow> string" where
  "comma_join [] = []"
| "comma_join [x] = x"
| "comma_join (x # y # ys) = x @ '', '' @ comma_join (y # ys)"

definition list_str :: "('a \<Rightarrow> string) \<Rightarrow> 'a list \<Rightarrow> string" where
  "list_str f xs = ''['' @ comma_join (map f xs) @ '']''"

definition inner :: "string \<Rightarrow> string" where
  "inner s = drop 1 (take (length s - 1) s)"

primrec py_map :: "('a \<Rightarrow> 'b py) \<Rightarrow> 'a list \<Rightarrow> 'b list py" where
  "py_map f [] = Inr []"
| "py_map f (x # xs) = py_bind (f x) (\<lambda>y. py_bind (py_map f xs) (\<lambda>ys. Inr (y # ys)))"

section \<open>Numbers and their text\<close>

lemma py_str_digits: "c \<in> set (py_str n) \<Longrightarrow> is_digit c"
proof (induction n arbitrary: c rule: py_str.induct)
  case (1 n)
  have d: "is_digit (char_of (48 + m))" if "m < 10" for m :: nat using that by (simp add: is_digit_def)
  show ?case
  proof (cases "n < 10")
    case True
    then show ?thesis using 1(2) d [of n] by (simp add: py_str.simps [of n])
  next
    case False
    then have "c \<in> set (py_str (n div 10)) \<or> c = char_of (48 + n mod 10)" using 1(2) by (auto simp: py_str.simps [of n])
    then show ?thesis using 1(1) [OF False] d [of "n mod 10"] by auto
  qed
qed

lemma py_str_value: "digits_value (py_str n) = n"
proof (induction n rule: py_str.induct)
  case (1 n)
  show ?case
  proof (cases "n < 10")
    case False
    have m: "n mod 10 < 10" by simp
    have "digits_value (py_str (n div 10) @ [char_of (48 + n mod 10)]) = 10 * (n div 10) + n mod 10"
      using 1 [OF False] m by (simp add: digits_value_def)
    then show ?thesis using False by (simp add: py_str.simps [of n])
  qed (simp add: py_str.simps [of n] digits_value_def)
qed

lemma py_str_Nil [simp]: "py_str n \<noteq> []"
  by (subst py_str.simps) simp

lemma py_str_chars: "c \<in> set (py_str n) \<Longrightarrow> c \<noteq> CHR '','' \<and> c \<noteq> CHR ''\<newline>'' \<and> c \<noteq> CHR 0x0D \<and> c \<noteq> CHR ''/'' \<and> \<not> is_space c"
  using py_str_digits [of c n] by (auto simp: is_digit_def is_space_def)

lemma strip_id:
  assumes "\<forall>c \<in> set s. \<not> is_space c"
  shows "py_strip s = s"
proof -
  have d: "dropWhile is_space t = t" if "\<forall>c \<in> set t. \<not> is_space c" for t using that by (cases t) simp_all
  have "dropWhile is_space s = s" "dropWhile is_space (rev s) = rev s" using assms by (simp_all add: d)
  then show ?thesis by (simp add: py_strip_def)
qed

lemma int_of_py_str [simp]: "int_of_str (py_str n) = Inr n"
proof -
  have "py_strip (py_str n) = py_str n" by (rule strip_id) (blast dest: py_str_chars)
  moreover have "list_all is_digit (py_str n)" unfolding list_all_iff by (blast dest: py_str_digits)
  ultimately show ?thesis by (simp add: int_of_str_def py_str_value)
qed

section \<open>Lists as text\<close>

lemma comma_split_plain: "CHR '','' \<notin> set x \<Longrightarrow> comma_split x = [x]"
  by (induction x) auto

lemma comma_split_cons: "CHR '','' \<notin> set x \<Longrightarrow> comma_split (x @ '', '' @ s) = x # comma_split s"
  by (induction x) auto

lemma comma_split_join:
  "xs \<noteq> [] \<Longrightarrow> \<forall>x \<in> set xs. CHR '','' \<notin> set x \<Longrightarrow> comma_split (comma_join xs) = xs"
proof (induction xs rule: comma_join.induct)
  case (3 x y ys)
  then have "comma_split (x @ '', '' @ comma_join (y # ys)) = x # y # ys" by (subst comma_split_cons) simp_all
  then show ?case by (simp only: comma_join.simps)
qed (simp_all add: comma_split_plain)

lemma comma_join_chars: "c \<in> set (comma_join xs) \<Longrightarrow> c = CHR '','' \<or> c = CHR '' '' \<or> (\<exists>x \<in> set xs. c \<in> set x)"
  by (induction xs rule: comma_join.induct) auto

lemma inner_list_str [simp]: "inner (list_str f xs) = comma_join (map f xs)"
  by (simp add: inner_def list_str_def)

lemma splitlines_cons: "\<forall>c \<in> set x. c \<noteq> CHR ''\<newline>'' \<and> c \<noteq> CHR 0x0D \<Longrightarrow> py_splitlines (x @ CHR ''\<newline>'' # s) = x # py_splitlines s"
  by (induction x) auto

text \<open>A line of a file, and what is read back from it.\<close>

definition plain :: "('a \<Rightarrow> string) \<Rightarrow> bool" where
  "plain f \<longleftrightarrow> (\<forall>x. \<forall>c \<in> set (f x). c \<noteq> CHR '','' \<and> c \<noteq> CHR ''\<newline>'' \<and> c \<noteq> CHR 0x0D)"

lemma plain_py_str [simp]: "plain py_str"
  using py_str_chars by (auto simp: plain_def)

lemma join_line:
  assumes "plain f"
  shows "py_splitlines (comma_join (map f xs) @ CHR ''\<newline>'' # s) = comma_join (map f xs) # py_splitlines s"
proof (rule splitlines_cons, rule ballI)
  fix c
  assume "c \<in> set (comma_join (map f xs))"
  from comma_join_chars [OF this] consider "c = CHR '',''" | "c = CHR '' ''" | x where "c \<in> set (f x)" by auto
  then show "c \<noteq> CHR ''\<newline>'' \<and> c \<noteq> CHR 0x0D"
  proof cases
    case (3 x)
    with assms show ?thesis unfolding plain_def by blast
  qed simp_all
qed

lemma read_line:
  assumes "plain f" "xs \<noteq> []" "\<And>x. g (f x) = Inr (h x)"
  shows "py_map g (comma_split (comma_join (map f xs))) = Inr (map h xs)"
proof -
  have "comma_split (comma_join (map f xs)) = map f xs" using assms(1,2) by (intro comma_split_join) (auto simp: plain_def)
  moreover have "py_map g (map f xs) = Inr (map h xs)" using assms(3) by (induction xs) simp_all
  ultimately show ?thesis by simp
qed

end
