(* ===== verification/Rec_Files.thy ===== *)
theory Rec_Files
  imports Rec_Trace Python_Numbers
begin

text \<open>
  The files of the programs under \<open>src/RecSSD-RecInfra-fixed.32/data_generator\<close> and \<open>models/input\<close>: traces and
  distributions of stack distances as text, and the main programs that write and read them. A file
  system maps paths to contents.

  Lines and distances are natural numbers; a text with a sign, which none of the programs writes, counts as malformed.
  How Python and numpy convert floats and 64 bit integers is an argument, with the documented behaviour as the laws
  of a locale. An open that fails is reported by a message and leaves the files as they are.
\<close>

section \<open>Files\<close>

type_synonym files = "string \<Rightarrow> string option"

definition write_file :: "(string \<Rightarrow> bool) \<Rightarrow> string \<Rightarrow> string \<Rightarrow> files \<Rightarrow> files" where
  "write_file can path txt fs = (if can path then fs(path \<mapsto> txt) else fs)"

text \<open>
  The distributions. When the file cannot be opened, the variable \<open>lines\<close> has no value. The program of \<open>trace_profile.py\<close>
  writes what \<open>trace_generator.py\<close> reads; the functions of \<open>dlrm_data_caffe2.py\<close> have the lines in front.
\<close>

definition write_dist_to_file :: "(string \<Rightarrow> bool) \<Rightarrow> ('f \<Rightarrow> string) \<Rightarrow> string \<Rightarrow> nat list \<Rightarrow> 'f list \<Rightarrow> files \<Rightarrow> files" where
  "write_dist_to_file can repr path list_sd cumm_sd =
     write_file can path (inner (list_str py_str list_sd) @ ''\<newline>'' @ inner (list_str repr cumm_sd) @ ''\<newline>'')"

definition read_dist_from_file :: "(string \<Rightarrow> 'f py) \<Rightarrow> string \<Rightarrow> files \<Rightarrow> (nat list \<times> 'f list) py" where
  "read_dist_from_file float_of path fs =
     (case fs path of None \<Rightarrow> Inl NameError | Some txt \<Rightarrow>
        let lines = py_splitlines txt in
        py_bind (py_nth lines 0) (\<lambda>l0.
        py_bind (py_map int_of_str (comma_split l0)) (\<lambda>list_sd.
        py_bind (py_nth lines 1) (\<lambda>l1.
        py_bind (py_map float_of (comma_split l1)) (\<lambda>cumm_sd.
        Inr (list_sd, cumm_sd))))))"

definition dlrm_write_dist_to_file ::
  "(string \<Rightarrow> bool) \<Rightarrow> ('f \<Rightarrow> string) \<Rightarrow> string \<Rightarrow> nat list \<Rightarrow> nat list \<Rightarrow> 'f list \<Rightarrow> files \<Rightarrow> files" where
  "dlrm_write_dist_to_file can repr path unique_accesses list_sd cumm_sd =
     write_file can path (inner (list_str py_str unique_accesses) @ ''\<newline>'' @ inner (list_str py_str list_sd) @ ''\<newline>'' @
       inner (list_str repr cumm_sd) @ ''\<newline>'')"

definition dlrm_read_dist_from_file :: "(string \<Rightarrow> 'f py) \<Rightarrow> string \<Rightarrow> files \<Rightarrow> (nat list \<times> nat list \<times> 'f list) py" where
  "dlrm_read_dist_from_file float_of path fs =
     (case fs path of None \<Rightarrow> Inl NameError | Some txt \<Rightarrow>
        let lines = py_splitlines txt in
        py_bind (py_nth lines 0) (\<lambda>l0.
        py_bind (py_map int_of_str (comma_split l0)) (\<lambda>unique_accesses.
        py_bind (py_nth lines 1) (\<lambda>l1.
        py_bind (py_map int_of_str (comma_split l1)) (\<lambda>list_sd.
        py_bind (py_nth lines 2) (\<lambda>l2.
        py_bind (py_map float_of (comma_split l2)) (\<lambda>cumm_sd.
        Inr (unique_accesses, list_sd, cumm_sd))))))))"

text \<open>
  The traces: text, or little-endian integers of eight bytes. Reading returns nothing after any exception. Writing an
  integer that needs more bytes raises when the file is already empty.
\<close>

primrec le_bytes :: "nat \<Rightarrow> nat \<Rightarrow> string" where
  "le_bytes 0 n = []"
| "le_bytes (Suc k) n = char_of (n mod 256) # le_bytes k (n div 256)"

primrec le_nat :: "string \<Rightarrow> nat" where
  "le_nat [] = 0"
| "le_nat (c # cs) = of_char c + 256 * le_nat cs"

function fromfile :: "string \<Rightarrow> nat list" where
  "fromfile s = (if length s < 8 then [] else le_nat (take 8 s) # fromfile (drop 8 s))"
  by auto
termination by (relation "measure length") simp_all

declare fromfile.simps [simp del]

definition write_trace_to_file :: "(string \<Rightarrow> bool) \<Rightarrow> string \<Rightarrow> nat list \<Rightarrow> files \<Rightarrow> files" where
  "write_trace_to_file can path syn_trace = write_file can path (inner (list_str py_str syn_trace) @ ''\<newline>'')"

definition dlrm_write_trace_to_file :: "(string \<Rightarrow> bool) \<Rightarrow> bool \<Rightarrow> string \<Rightarrow> nat list \<Rightarrow> files \<Rightarrow> files" where
  "dlrm_write_trace_to_file can binary path trace =
     (if binary then write_file can path (if \<forall>x \<in> set trace. x < 2 ^ 64 then concat (map (le_bytes 8) trace) else [])
      else write_file can path (inner (list_str py_str trace)))"

definition dlrm_read_trace_from_file :: "(string \<Rightarrow> nat py) \<Rightarrow> bool \<Rightarrow> string \<Rightarrow> files \<Rightarrow> nat list option" where
  "dlrm_read_trace_from_file uint64_of binary path fs =
     (case fs path of None \<Rightarrow> None | Some txt \<Rightarrow>
        if binary then Some (fromfile txt)
        else let line = takeWhile (\<lambda>c. c \<noteq> CHR ''\<newline>'') txt @ take 1 (dropWhile (\<lambda>c. c \<noteq> CHR ''\<newline>'') txt)
             in case py_map uint64_of (comma_split line) of Inl _ \<Rightarrow> None | Inr trace \<Rightarrow> Some trace)"

section \<open>Programs\<close>

text \<open>
  \<open>trace_profile.py\<close>: \<open>drawn\<close> is the random trace it profiles. The branch that reads a trace uses a variable that is never
  assigned.
\<close>

definition profile_main ::
  "(string \<Rightarrow> bool) \<Rightarrow> ('f :: field \<Rightarrow> string) \<Rightarrow> bool \<Rightarrow> nat \<Rightarrow> string \<Rightarrow> string \<Rightarrow> nat list \<Rightarrow> files \<Rightarrow> files py" where
  "profile_main can repr profile_trace_random max_stack_distance sd_file_prob sd_file_cumm drawn fs =
     (if \<not> profile_trace_random then Inl NameError
      else
        let (stack_distances, _) = window_profile drawn max_stack_distance;
            l = of_nat (length stack_distances);
            (list_sd, cumm_sd) = sd_distribution stack_distances;
            prob_sd = map (\<lambda>(_, k). of_nat k / l) (sd_counts stack_distances)
        in Inr (write_dist_to_file can repr sd_file_cumm list_sd cumm_sd (write_dist_to_file can repr sd_file_prob list_sd prob_sd fs)))"

text \<open>\<open>trace_generator.py\<close>: \<open>perm\<close> is the sample of the table and \<open>draw\<close> the random numbers.\<close>

definition generator_main ::
  "(string \<Rightarrow> bool) \<Rightarrow> (string \<Rightarrow> 'f :: {linorder, one, plus, minus, times} py) \<Rightarrow> string \<Rightarrow> string \<Rightarrow> nat \<Rightarrow> nat \<Rightarrow> nat \<Rightarrow>
   nat list \<Rightarrow> (nat \<Rightarrow> 'f) \<Rightarrow> files \<Rightarrow> files py" where
  "generator_main can float_of cumm_file gen_trace_file n_batches batch_size pooling_factor perm draw fs =
     py_bind (read_dist_from_file float_of cumm_file fs) (\<lambda>(list_sd, cumm_sd).
     let gen_len = n_batches * batch_size * pooling_factor in
     py_bind (trace_generate_lru perm list_sd cumm_sd False (map draw [0..<gen_len])) (\<lambda>synthetic_trace.
     if synthetic_trace = [] then Inl ValueError
     else Inr (write_trace_to_file can gen_trace_file synthetic_trace fs)))"

text \<open>
  \<open>gen_dist.py\<close> in the directory \<open>dir\<close>: \<open>counts\<close> is the histogram that numpy computes. \<open>create_dist.sh\<close> runs it and copies the
  file for every table.
\<close>

definition dist_line :: "('a \<Rightarrow> string) \<Rightarrow> 'a list \<Rightarrow> string py" where
  "dist_line f xs = py_bind (py_nth xs (-1)) (\<lambda>x. Inr (concat (map (\<lambda>x. f x @ '', '') (butlast xs)) @ f x @ ''\<newline>''))"

definition gen_cumm :: "'f :: field list \<Rightarrow> nat list \<times> 'f list" where
  "gen_cumm counts =
     (case fold (\<lambda>i (cumm_count, list_sd, cumm_sd).
          let cumm_count = cumm_count + counts ! i
          in (cumm_count, list_sd @ [i], cumm_sd @ [cumm_count / sum_list counts])) [0..<length counts] (0, [], []) of
        (_, list_sd, cumm_sd) \<Rightarrow> (list_sd, cumm_sd[length cumm_sd - 1 := 1]))"

definition gen_dist_main :: "('f :: floor_ceiling \<Rightarrow> string) \<Rightarrow> nat \<Rightarrow> 'f list \<Rightarrow> string \<Rightarrow> files \<Rightarrow> files py" where
  "gen_dist_main str k counts dir fs =
     py_bind (py_nth counts 0) (\<lambda>c.
     let (list_sd, cumm_sd) = gen_cumm (counts[0 := c + of_int (py_int (sum_list counts * of_nat k))]) in
     py_bind (dist_line py_str list_sd) (\<lambda>list_sd_str.
     py_bind (dist_line str cumm_sd) (\<lambda>cumm_sd_str.
     py_bind (dist_line py_str [0..<1000000 div 128]) (\<lambda>access_str.
     Inr (fs(dir @ ''dist.log'' \<mapsto> access_str @ list_sd_str @ cumm_sd_str))))))"

definition dist_emb :: "string \<Rightarrow> nat \<Rightarrow> string" where
  "dist_emb dir i = dir @ ''dist_emb_'' @ py_str i @ ''.log''"

definition create_dist :: "('f :: floor_ceiling \<Rightarrow> string) \<Rightarrow> nat \<Rightarrow> 'f list \<Rightarrow> string \<Rightarrow> files \<Rightarrow> files py" where
  "create_dist str k counts dir fs =
     py_bind (gen_dist_main str k counts dir fs) (\<lambda>fs.
     Inr (fold (\<lambda>i fs. case fs (dir @ ''dist.log'') of None \<Rightarrow> fs | Some txt \<Rightarrow> fs(dist_emb dir i \<mapsto> txt))
       (concat (replicate 3 [0..<32])) fs))"

text \<open>The distribution of a table: \<open>file_path.replace("j", str(i))\<close>.\<close>

definition table_dist :: "(string \<Rightarrow> 'f py) \<Rightarrow> string \<Rightarrow> files \<Rightarrow> nat \<Rightarrow> (nat list \<times> nat list \<times> 'f list) py" where
  "table_dist float_of trace_file fs i =
     dlrm_read_dist_from_file float_of (concat (map (\<lambda>c. if c = CHR ''j'' then py_str i else [c]) trace_file)) fs"

section \<open>Lines\<close>

lemma dist_line_join: "xs \<noteq> [] \<Longrightarrow> dist_line f xs = Inr (comma_join (map f xs) @ ''\<newline>'')"
proof -
  have "comma_join (map f (ys @ [y])) = concat (map (\<lambda>x. f x @ '', '') ys) @ f y" for ys y
  proof (induction ys)
    case (Cons a ys)
    then show ?case by (cases ys) simp_all
  qed simp
  moreover assume "xs \<noteq> []"
  then obtain ys y where "xs = ys @ [y]" by (cases xs rule: rev_cases) auto
  ultimately show ?thesis by (simp add: dist_line_def py_nth_last)
qed

section \<open>Floats as text\<close>

text \<open>
  What Python documents: a float is printed without separators, and reading it back rounds, keeping the order and the numbers 0
  and 1. \<open>repr\<close>, which \<open>str\<close> of a list uses, loses nothing.
\<close>

locale float_text =
  fixes str :: "'f :: linordered_field \<Rightarrow> string" and float_of :: "string \<Rightarrow> 'f py" and rnd :: "'f \<Rightarrow> 'f"
  assumes float_of_str: "float_of (str x) = Inr (rnd x)"
    and rnd_mono: "x \<le> y \<Longrightarrow> rnd x \<le> rnd y"
    and rnd_0: "rnd 0 = 0"
    and rnd_1: "rnd 1 = 1"
    and plain_str: "plain str"
begin

text \<open>The three lines of a distribution file.\<close>

lemma read_three_lines:
  assumes "fs path = Some (comma_join (map py_str lines) @ ''\<newline>'' @ comma_join (map py_str list_sd) @ ''\<newline>'' @ comma_join (map str cumm_sd) @ ''\<newline>'')"
    and "lines \<noteq> []" "list_sd \<noteq> []" "cumm_sd \<noteq> []"
  shows "dlrm_read_dist_from_file float_of path fs = Inr (lines, list_sd, map rnd cumm_sd)"
proof -
  have l: "py_splitlines (comma_join (map py_str lines) @ ''\<newline>'' @ comma_join (map py_str list_sd) @ ''\<newline>'' @ comma_join (map str cumm_sd) @ ''\<newline>'') =
      [comma_join (map py_str lines), comma_join (map py_str list_sd), comma_join (map str cumm_sd)]"
    using plain_str by (simp add: join_line)
  have r: "py_map int_of_str (comma_split (comma_join (map py_str xs))) = Inr xs" if "xs \<noteq> []" for xs
    using read_line [of py_str xs int_of_str "\<lambda>x. x"] that by simp
  have "py_map float_of (comma_split (comma_join (map str cumm_sd))) = Inr (map rnd cumm_sd)"
    using assms(4) by (intro read_line plain_str float_of_str)
  then show ?thesis unfolding dlrm_read_dist_from_file_def assms(1) option.case l Let_def
    using r [OF assms(2)] r [OF assms(3)] by (simp add: py_nth_def)
qed

lemma read_two_lines:
  assumes "fs path = Some (comma_join (map py_str list_sd) @ ''\<newline>'' @ comma_join (map str cumm_sd) @ ''\<newline>'')" "list_sd \<noteq> []" "cumm_sd \<noteq> []"
  shows "read_dist_from_file float_of path fs = Inr (list_sd, map rnd cumm_sd)"
proof -
  have l: "py_splitlines (comma_join (map py_str list_sd) @ ''\<newline>'' @ comma_join (map str cumm_sd) @ ''\<newline>'') =
      [comma_join (map py_str list_sd), comma_join (map str cumm_sd)]"
    using plain_str by (simp add: join_line)
  have r: "py_map int_of_str (comma_split (comma_join (map py_str list_sd))) = Inr list_sd"
    using read_line [of py_str list_sd int_of_str "\<lambda>x. x"] assms(2) by simp
  have "py_map float_of (comma_split (comma_join (map str cumm_sd))) = Inr (map rnd cumm_sd)"
    using assms(3) by (intro read_line plain_str float_of_str)
  then show ?thesis unfolding read_dist_from_file_def assms(1) option.case l Let_def
    using r by (simp add: py_nth_def)
qed

text \<open>Rounding keeps a distribution.\<close>

lemma sd_dist_rnd: "sd_dist l list_sd cumm_sd \<Longrightarrow> sd_dist l list_sd (map rnd cumm_sd)"
  using rnd_mono [of 0] rnd_mono [of _ 1] by (cases "cumm_sd = []") (auto simp: sd_dist_def rnd_0 rnd_1 last_map)

end

text \<open>An instance: a rational number as its numerator and denominator.\<close>

definition rat_str :: "rat \<Rightarrow> string" where
  "rat_str r = (case quotient_of r of (a, b) \<Rightarrow> (if a < 0 then ''-'' else []) @ py_str (nat \<bar>a\<bar>) @ ''/'' @ py_str (nat b))"

definition rat_of :: "string \<Rightarrow> rat py" where
  "rat_of s =
     (let neg = (s \<noteq> [] \<and> hd s = CHR ''-''); t = (if neg then tl s else s) in
      py_bind (int_of_str (takeWhile (\<lambda>c. c \<noteq> CHR ''/'') t)) (\<lambda>a.
      py_bind (int_of_str (drop 1 (dropWhile (\<lambda>c. c \<noteq> CHR ''/'') t))) (\<lambda>b.
      Inr ((if neg then - of_nat a else of_nat a) / of_nat b))))"

lemma plain_rat_str: "plain rat_str"
  unfolding plain_def rat_str_def using py_str_chars by (auto split: prod.splits if_splits)

lemma rat_of_str: "rat_of (rat_str r) = Inr r"
proof -
  obtain a b where q: "quotient_of r = (a, b)" by force
  have b: "0 < b" "r = of_int a / of_int b" using q quotient_of_denom_pos quotient_of_div by blast+
  let ?x = "py_str (nat \<bar>a\<bar>)" and ?y = "py_str (nat b)"
  have t: "takeWhile (\<lambda>c. c \<noteq> CHR ''/'') (?x @ ''/'' @ ?y) = ?x" "dropWhile (\<lambda>c. c \<noteq> CHR ''/'') (?x @ ''/'' @ ?y) = ''/'' @ ?y"
    using py_str_chars by (simp_all add: takeWhile_append2 dropWhile_append2)
  have "is_digit (hd ?x)" by (rule py_str_digits [of _ "nat \<bar>a\<bar>"]) simp
  then have h: "hd (?x @ ''/'' @ ?y) \<noteq> CHR ''-''" by (auto simp: is_digit_def)
  have n: "of_nat (nat \<bar>a\<bar>) = (of_int \<bar>a\<bar> :: rat)" "of_nat (nat b) = (of_int b :: rat)" using b(1) by simp_all
  show ?thesis
  proof (cases "a < 0")
    case True
    then have s: "rat_str r = CHR ''-'' # (?x @ ''/'' @ ?y)" by (simp add: rat_str_def q)
    show ?thesis unfolding rat_of_def s using True t n b(2) by simp
  next
    case False
    then have s: "rat_str r = ?x @ ''/'' @ ?y" by (simp add: rat_str_def q)
    show ?thesis unfolding rat_of_def s using False t n b(2) h by simp
  qed
qed

interpretation rt: float_text rat_str rat_of "\<lambda>x. x"
  by unfold_locales (simp_all add: rat_of_str plain_rat_str)

section \<open>Binary traces\<close>

lemma le_bytes_length [simp]: "length (le_bytes k n) = k"
  by (induction k arbitrary: n) simp_all

lemma le_roundtrip: "n < 256 ^ k \<Longrightarrow> le_nat (le_bytes k n) = n"
proof (induction k arbitrary: n)
  case (Suc k)
  have "n div 256 < 256 ^ k" using Suc.prems by (simp add: less_mult_imp_div_less mult.commute)
  then show ?case using Suc.IH by simp
qed simp

lemma fromfile_bytes: "\<forall>x \<in> set xs. x < 2 ^ 64 \<Longrightarrow> fromfile (concat (map (le_bytes 8) xs)) = xs"
proof (induction xs)
  case (Cons x xs)
  have "le_nat (le_bytes 8 x) = x" using Cons.prems by (intro le_roundtrip) simp
  then show ?case using Cons by (subst fromfile.simps) simp
qed (simp add: fromfile.simps)

section \<open>Window profiles\<close>

text \<open>Whatever the window, the distances count different lines of the trace, and the first access has distance 0.\<close>

lemma window_distances:
  "fst (window_profile trace m) = map (\<lambda>i. hd (fst (window_step trace m i ([], [])))) [0..<length trace]"
proof -
  have "fst (if P then (sds @ [v], ls) else (sds @ [0], ls @ [x])) = sds @ [hd (fst (if P then ([] @ [v], []) else ([] @ [0], [] @ [x])))]"
    for P and sds ls :: "nat list" and v x :: nat by simp
  then have e: "fst (window_step trace m i (sds, ls)) = sds @ [hd (fst (window_step trace m i ([], [])))]" for i sds ls
    unfolding window_step_def split_conv Let_def by blast
  have "fst (fold (window_step trace m) is (sds, ls)) = sds @ map (\<lambda>i. hd (fst (window_step trace m i ([], [])))) is" for "is" sds ls
  proof (induction "is" arbitrary: sds ls)
    case (Cons i "is")
    obtain sds' ls' where w: "window_step trace m i (sds, ls) = (sds', ls')" by force
    with e [of i sds ls] Cons.IH [of sds' ls'] show ?case by simp
  qed simp
  then show ?thesis by (simp add: window_profile_def)
qed

lemma window_distance_le:
  assumes "i < length trace"
  shows "hd (fst (window_step trace m i ([], []))) \<le> card (set trace)" "hd (fst (window_step trace m i ([], []))) \<le> m"
proof -
  let ?w = "if i < m then take i trace else take m (drop (i - m) trace)"
  have c: "card (set (take a (drop b ?w))) \<le> card (set trace)" for a b
    by (intro card_mono) (auto dest!: in_set_takeD in_set_dropD split: if_splits)
  have "card (set (take a (drop b ?w))) \<le> m" for a b
  proof -
    have "card (set (take a (drop b ?w))) \<le> length (take a (drop b ?w))" by (rule card_length)
    also have "\<dots> \<le> length ?w" by simp
    also have "\<dots> \<le> m" by (simp add: min.coboundedI2)
    finally show ?thesis .
  qed
  moreover have "hd (fst (if P then ([] @ [v], []) else ([] @ [0], [] @ [x]))) \<in> {0, v}" for P and v x :: nat by simp
  then have "\<exists>a b. hd (fst (window_step trace m i ([], []))) \<in> {0, card (set (take a (drop b ?w)))}"
    unfolding window_step_def split_conv Let_def by blast
  ultimately show "hd (fst (window_step trace m i ([], []))) \<le> card (set trace)" "hd (fst (window_step trace m i ([], []))) \<le> m"
    using c by (metis empty_iff insert_iff le0)+
qed

lemma window_distribution:
  assumes "trace \<noteq> []" "sd_distribution (fst (window_profile trace m)) = (list_sd, cumm_sd)" "min m (card (set trace)) \<le> l"
  shows "sd_dist l list_sd (cumm_sd :: 'f :: linordered_field list)"
proof (rule distribution_sd_dist [OF _ assms(2)])
  have "hd (fst (window_step trace m 0 ([], []))) = 0" by (simp add: window_step_def Let_def)
  then show "0 \<in> set (fst (window_profile trace m))" using assms(1) unfolding window_distances by (force intro: image_eqI [of _ _ 0])
  show "\<forall>sd \<in> set (fst (window_profile trace m)). sd \<le> l"
    using order_trans [OF min.boundedI [OF window_distance_le(2,1)] assms(3)] unfolding window_distances by auto
qed

section \<open>The distribution of gen_dist.py\<close>

lemma gen_cumm_eq:
  "gen_cumm counts = ([0..<length counts], (map (\<lambda>i. sum_list (take (Suc i) counts) / sum_list counts) [0..<length counts])[length counts - 1 := 1])"
proof -
  have "fold (\<lambda>i (cumm_count, list_sd, cumm_sd).
      let cumm_count = cumm_count + counts ! i in (cumm_count, list_sd @ [i], cumm_sd @ [cumm_count / sum_list counts])) [0..<n] (0, [], []) =
    (sum_list (take n counts), [0..<n], map (\<lambda>i. sum_list (take (Suc i) counts) / sum_list counts) [0..<n])" if "n \<le> length counts" for n
    using that by (induction n) (simp_all add: take_Suc_conv_app_nth Let_def)
  from this [of "length counts"] show ?thesis by (simp add: gen_cumm_def)
qed

lemma sum_take_le: "\<forall>c \<in> set xs. 0 \<le> c \<Longrightarrow> 0 \<le> sum_list (take n xs) \<and> sum_list (take n xs) \<le> sum_list xs"
  for xs :: "'f :: linordered_field list"
proof -
  assume a: "\<forall>c \<in> set xs. 0 \<le> c"
  have "sum_list xs = sum_list (take n xs) + sum_list (drop n xs)" by (metis append_take_drop_id sum_list_append)
  moreover have "0 \<le> sum_list (take n xs)" "0 \<le> sum_list (drop n xs)" using a by (auto intro!: sum_list_nonneg dest: in_set_takeD in_set_dropD)
  ultimately show ?thesis by simp
qed

lemma gen_cumm_dist:
  fixes counts :: "'f :: linordered_field list"
  assumes "counts \<noteq> []" "\<forall>c \<in> set counts. 0 \<le> c" "0 < sum_list counts"
  shows "sd_dist (length counts - 1) (fst (gen_cumm counts)) (snd (gen_cumm counts))"
proof -
  let ?cs = "map (\<lambda>i. sum_list (take (Suc i) counts) / sum_list counts) [0..<length counts]"
  have n: "0 < length counts" using assms(1) by simp
  have "0 \<le> f \<and> f \<le> 1" if "f \<in> set ?cs" for f
    using that sum_take_le [OF assms(2)] assms(3) by (auto simp: divide_le_eq_1)
  then have "\<forall>f \<in> set (?cs[length counts - 1 := 1]). 0 \<le> f \<and> f \<le> 1" by (auto dest: set_update_subset_insert [THEN subsetD])
  moreover have "last (?cs[length counts - 1 := 1]) = 1" using n by (simp add: last_list_update)
  ultimately show ?thesis using n by (simp add: sd_dist_def gen_cumm_eq)
qed

lemma copies:
  assumes "fs D = Some t" "\<And>i. f i \<noteq> D" "g = fold (\<lambda>i fs. case fs D of None \<Rightarrow> fs | Some t \<Rightarrow> fs(f i \<mapsto> t)) ns fs"
  shows "g D = Some t \<and> (\<forall>i \<in> set ns. g (f i) = Some t)"
proof -
  have "fold (\<lambda>i fs. case fs D of None \<Rightarrow> fs | Some t \<Rightarrow> fs(f i \<mapsto> t)) ns fs D = Some t \<and>
    (\<forall>i \<in> set ns. fold (\<lambda>i fs. case fs D of None \<Rightarrow> fs | Some t \<Rightarrow> fs(f i \<mapsto> t)) ns fs (f i) = Some t)"
    using assms(1)
  proof (induction ns rule: rev_induct)
    case (snoc i ns)
    then show ?case using assms(2) by simp
  qed simp
  then show ?thesis using assms(3) by simp
qed

lemma table_path: "CHR ''j'' \<notin> set dir \<Longrightarrow>
    concat (map (\<lambda>c. if c = CHR ''j'' then py_str i else [c]) (dir @ ''dist_emb_j.log'')) = dist_emb dir i"
proof -
  have "CHR ''j'' \<notin> set dir \<Longrightarrow> concat (map (\<lambda>c. if c = CHR ''j'' then py_str i else [c]) dir) = dir" by (induction dir) auto
  moreover assume "CHR ''j'' \<notin> set dir"
  ultimately show ?thesis by (simp add: dist_emb_def)
qed

lemma trace_in_range:
  fixes us :: "'f :: linordered_field list"
  assumes "sd_dist m list_sd cumm_sd" "m * npl \<le> 7812" "\<forall>u \<in> set us. 0 \<le> u \<and> u \<le> 1"
  shows "\<exists>tr. dlrm_trace_generate_lru npl [0..<7812] list_sd cumm_sd pad us = Inr tr \<and> (\<forall>x \<in> set tr. x < 2147483648)"
proof -
  have l: "[0..<7812] \<noteq> []" "\<forall>x \<in> set [0..<7812]. x * 128 < (2 :: nat) ^ 64" "m * npl \<le> length [0..<7812]"
    using assms(2) by (simp_all del: upt_Suc upt_rec_numeral)
  from trace_generate_run [OF assms(1) l(1,2) assms(3) l(3), of pad] show ?thesis
    unfolding dlrm_trace_generate_lru_def by fastforce
qed

lemma gen_dist_run:
  fixes counts :: "'f :: floor_ceiling list"
  assumes "counts \<noteq> []" "\<forall>c \<in> set counts. 0 \<le> c" "0 < sum_list counts"
  shows "\<exists>cumm_sd. gen_dist_main str k counts dir fs =
      Inr (fs(dir @ ''dist.log'' \<mapsto> comma_join (map py_str [0..<7812]) @ ''\<newline>'' @ comma_join (map py_str [0..<length counts]) @ ''\<newline>'' @
        comma_join (map str cumm_sd) @ ''\<newline>'')) \<and>
    sd_dist (length counts - 1) [0..<length counts] cumm_sd \<and> cumm_sd \<noteq> []"
proof -
  obtain c cs where c: "counts = c # cs" using assms(1) by (cases counts) auto
  let ?d = "of_int (py_int (sum_list counts * of_nat k)) :: 'f"
  let ?cs = "(c + ?d) # cs"
  have d: "0 \<le> ?d" using assms(3) by (simp add: py_int_def)
  have "sd_dist (length ?cs - 1) (fst (gen_cumm ?cs)) (snd (gen_cumm ?cs))"
  proof (rule gen_cumm_dist)
    have "sum_list ?cs = sum_list counts + ?d" by (simp add: c)
    then show "0 < sum_list ?cs" using add_pos_nonneg [OF assms(3) d] by simp
  qed (use assms(2) d c in auto)
  moreover have "fst (gen_cumm ?cs) = [0..<length counts]" by (simp add: gen_cumm_eq c)
  ultimately have g: "gen_cumm ?cs = ([0..<length counts], snd (gen_cumm ?cs))"
    "sd_dist (length counts - 1) [0..<length counts] (snd (gen_cumm ?cs))" by (metis prod.collapse, simp add: c)
  then have ne: "snd (gen_cumm ?cs) \<noteq> []" "[0..<length counts] \<noteq> []" using c by (auto simp: sd_dist_def)
  have l: "[0..<7812] \<noteq> []" "(1000000 :: nat) div 128 = 7812" by (simp_all del: upt_rec_numeral)
  have n: "py_nth counts 0 = Inr c" "counts[0 := c + ?d] = ?cs" by (simp_all add: c py_nth_def)
  show ?thesis
    unfolding gen_dist_main_def n py_bind_simps n(2) Let_def
    by (rule exI [of _ "snd (gen_cumm ?cs)"], subst g(1)) (use g(2) ne in \<open>simp add: dist_line_join l(1) l(2) del: upt_Suc upt_rec_numeral\<close>)
qed

lemma create_dist_run:
  fixes counts :: "'f :: floor_ceiling list"
  assumes "counts \<noteq> []" "\<forall>c \<in> set counts. 0 \<le> c" "0 < sum_list counts"
  shows "\<exists>fs' cumm_sd. create_dist str k counts dir fs = Inr fs' \<and>
    (\<forall>i<32. fs' (dist_emb dir i) = Some (comma_join (map py_str [0..<7812]) @ ''\<newline>'' @ comma_join (map py_str [0..<length counts]) @ ''\<newline>'' @
        comma_join (map str cumm_sd) @ ''\<newline>'')) \<and>
    sd_dist (length counts - 1) [0..<length counts] cumm_sd \<and> cumm_sd \<noteq> []"
proof -
  from gen_dist_run [OF assms, of str k dir fs] obtain cumm_sd fs1 where
    g: "gen_dist_main str k counts dir fs = Inr fs1" "sd_dist (length counts - 1) [0..<length counts] cumm_sd" "cumm_sd \<noteq> []"
    and t: "fs1 (dir @ ''dist.log'') = Some (comma_join (map py_str [0..<7812]) @ ''\<newline>'' @ comma_join (map py_str [0..<length counts]) @ ''\<newline>'' @
        comma_join (map str cumm_sd) @ ''\<newline>'')" by fastforce
  have "dist_emb dir i \<noteq> dir @ ''dist.log''" for i by (simp add: dist_emb_def)
  from copies [where fs = fs1 and D = "dir @ ''dist.log''" and f = "dist_emb dir" and ns = "concat (replicate 3 [0..<32])", OF t this refl] g show ?thesis
    unfolding create_dist_def g(1) py_bind_simps by (intro exI conjI) (auto simp: set_replicate_conv_if)
qed

text \<open>With these files there is a trace for every table.\<close>

lemma gen_dist_traces:
  fixes counts :: "'f :: floor_ceiling list"
  assumes "float_text str float_of rnd" "length counts = 50" "\<forall>c \<in> set counts. 0 \<le> c" "0 < sum_list counts"
    and "CHR ''j'' \<notin> set dir" "tables \<le> 32" "npl \<le> 159" "\<forall>i k. 0 \<le> draw i k \<and> draw i k \<le> 1"
  shows "\<exists>fs'. create_dist str k counts dir fs = Inr fs' \<and>
    table_traces (table_dist float_of (dir @ ''dist_emb_j.log'') fs') draw pad npl num tables"
proof -
  have ne: "counts \<noteq> []" using assms(2) by auto
  from create_dist_run [OF ne assms(3,4), of str k dir fs, unfolded assms(2)] obtain fs' cumm_sd where
    f: "create_dist str k counts dir fs = Inr fs'" "\<forall>i<32. fs' (dist_emb dir i) = Some (comma_join (map py_str [0..<7812]) @ ''\<newline>'' @
        comma_join (map py_str [0..<50]) @ ''\<newline>'' @ comma_join (map str cumm_sd) @ ''\<newline>'')"
    and d: "sd_dist (50 - 1) [0..<50] cumm_sd" "cumm_sd \<noteq> []" by blast
  have m: "(50 - 1) * npl \<le> 7812" using assms(7) by simp
  have "table_traces (table_dist float_of (dir @ ''dist_emb_j.log'') fs') draw pad npl num tables"
    unfolding table_traces_def
  proof (intro allI impI)
    fix i
    assume "i < tables"
    then have "i < 32" using assms(6) by simp
    from float_text.read_three_lines [of str float_of rnd fs' "dist_emb dir i" "[0..<7812]" "[0..<50]" cumm_sd, OF assms(1) f(2) [rule_format, OF this] _ _ d(2)]
    have t: "table_dist float_of (dir @ ''dist_emb_j.log'') fs' i = Inr ([0..<7812], [0..<50], map rnd cumm_sd)"
      unfolding table_dist_def table_path [OF assms(5)] by (simp del: upt_Suc upt_rec_numeral)
    have "\<forall>u \<in> set (map (draw i) [0..<2 * num]). 0 \<le> u \<and> u \<le> 1" using assms(8) by auto
    from trace_in_range [OF float_text.sd_dist_rnd [OF assms(1) d(1)] m this, of pad] obtain tr where
      "dlrm_trace_generate_lru npl [0..<7812] [0..<50] (map rnd cumm_sd) pad (map (draw i) [0..<2 * num]) = Inr tr" "\<forall>x \<in> set tr. x < 2147483648" by blast
    then show "case py_bind (table_dist float_of (dir @ ''dist_emb_j.log'') fs' i) (\<lambda>(line_accesses, list_sd, cumm_sd).
        dlrm_trace_generate_lru npl line_accesses list_sd cumm_sd pad (map (draw i) [0..<2 * num])) of
      Inl _ \<Rightarrow> False | Inr tr \<Rightarrow> \<forall>x \<in> set tr. x < 2147483648"
      unfolding t py_bind_simps split_conv by (simp only: sum.case)
  qed
  with f(1) show ?thesis by blast
qed

section \<open>Properties\<close>





text \<open>
  C21: A trace is read back as it was written, as text and as binary, by the functions of \<open>dlrm_data_caffe2.py\<close>: for
  every trace of 64 bit numbers, but not for the empty trace as text, which is reported as a missing file.
\<close>

theorem trace_file_roundtrip:
  assumes "\<forall>n<2 ^ 64. uint64_of (py_str n) = Inr n" "uint64_of [] = Inl ValueError" "can path" "\<forall>x \<in> set trace. x < 2 ^ 64"
  shows "dlrm_read_trace_from_file uint64_of binary path (dlrm_write_trace_to_file can binary path trace fs) =
    (if binary \<or> trace \<noteq> [] then Some trace else None)"
proof (cases binary)
  case True
  then show ?thesis using assms(3,4)
    by (simp add: dlrm_read_trace_from_file_def dlrm_write_trace_to_file_def write_file_def fromfile_bytes)
next
  case False
  let ?t = "comma_join (map py_str trace)"
  have "CHR ''\<newline>'' \<notin> set ?t" using comma_join_chars [of "CHR ''\<newline>''" "map py_str trace"] py_str_chars by auto
  then have l: "takeWhile (\<lambda>c. c \<noteq> CHR ''\<newline>'') ?t @ take 1 (dropWhile (\<lambda>c. c \<noteq> CHR ''\<newline>'') ?t) = ?t"
    by (subst takeWhile_eq_all_conv [THEN iffD2], blast, subst dropWhile_eq_Nil_conv [THEN iffD2], blast, simp)
  have "py_map uint64_of (comma_split ?t) = (if trace = [] then Inl ValueError else Inr trace)"
  proof (cases "trace = []")
    case False
    then have "comma_split ?t = map py_str trace" using py_str_chars by (intro comma_split_join) auto
    moreover have "py_map uint64_of (map py_str trace) = Inr trace" using assms(1,4) by (induction trace) simp_all
    ultimately show ?thesis using False by simp
  qed (simp add: assms(2))
  then show ?thesis using False assms(3) l
    by (simp add: dlrm_read_trace_from_file_def dlrm_write_trace_to_file_def write_file_def Let_def)
qed

theorem trace_file_roundtrip_witness:
  "dlrm_read_trace_from_file int_of_str False ''t'' (dlrm_write_trace_to_file (\<lambda>_. True) False ''t'' [384, 0, 18446744073709551615] Map.empty) =
     Some [384, 0, 18446744073709551615] \<and>
   dlrm_read_trace_from_file int_of_str True ''t'' (dlrm_write_trace_to_file (\<lambda>_. True) True ''t'' [384, 0, 18446744073709551615] Map.empty) =
     Some [384, 0, 18446744073709551615]"
proof -
  have "int_of_str [] = Inl ValueError" by (simp add: int_of_str_def py_strip_def)
  then show ?thesis
    using trace_file_roundtrip [of int_of_str "\<lambda>_. True" "''t''" "[384, 0, 18446744073709551615]" False Map.empty]
      trace_file_roundtrip [of int_of_str "\<lambda>_. True" "''t''" "[384, 0, 18446744073709551615]" True Map.empty] by simp
qed

end
