(* ===== verification/Rec_Random.thy ===== *)
theory Rec_Random
  imports Python_Prelude
begin

text \<open>
  The random input of the recommendation models, \<open>generate_random_input_data\<close> of
  \<open>src/RecSSD-RecInfra-fixed.32/data_generator/dlrm_data_caffe2.py\<close>: each lookup of a table gets a group of different
  indices. The group is drawn anew until there are no duplicates, so the program may run forever: \<open>None\<close>.

  The draws are those of numpy, an argument: \<open>pick p g sz\<close> are the indices of draw \<open>p\<close>, for a group of \<open>g\<close> and a
  table of \<open>sz\<close> rows, \<open>np.round(ra.random(g) * (sz - 1)).astype(np.int32)\<close>. The dense features are left out.
\<close>

section \<open>The generator\<close>

definition np_unique :: "int list \<Rightarrow> int list" where
  "np_unique xs = sorted_list_of_set (set xs)"

partial_function (option) draw_group :: "(nat \<Rightarrow> nat \<Rightarrow> nat \<Rightarrow> int list) \<Rightarrow> nat \<Rightarrow> nat \<Rightarrow> nat \<Rightarrow> (int list \<times> nat) option" where
  "draw_group pick sz sparse_group_size p =
     (let sparse_group = np_unique (pick p sparse_group_size sz)
      in if length sparse_group \<noteq> sparse_group_size then draw_group pick sz sparse_group_size (p + 1)
         else Some (sparse_group, p + 1))"

definition random_table ::
  "(nat \<Rightarrow> nat \<Rightarrow> nat \<Rightarrow> int list) \<Rightarrow> nat \<Rightarrow> nat \<Rightarrow> nat \<Rightarrow> nat \<Rightarrow> (nat \<times> nat list \<times> int list) option" where
  "random_table pick mini_batch_size num_indices_per_lookup sz p =
     for_loop mini_batch_size (\<lambda>_ (p, lens, inds). do {
       (sparse_group, p) \<leftarrow> draw_group pick sz num_indices_per_lookup p;
       Some (p, lens @ [length sparse_group], inds @ sparse_group) }) (p, [], [])"

definition random_batch ::
  "(nat \<Rightarrow> nat \<Rightarrow> nat \<Rightarrow> int list) \<Rightarrow> nat \<Rightarrow> nat \<Rightarrow> nat list \<Rightarrow> nat \<Rightarrow> (nat \<times> nat list list \<times> int list list) option" where
  "random_batch pick mini_batch_size num_indices_per_lookup ln_emb p =
     for_loop (length ln_emb) (\<lambda>i (p, emb_lengths, emb_indices). do {
       (p, lens, inds) \<leftarrow> random_table pick mini_batch_size num_indices_per_lookup (ln_emb ! i) p;
       Some (p, emb_lengths @ [lens], emb_indices @ [inds]) }) (p, [], [])"

definition generate_random_input_data ::
  "(nat \<Rightarrow> nat \<Rightarrow> nat \<Rightarrow> int list) \<Rightarrow> nat \<Rightarrow> nat \<Rightarrow> nat \<Rightarrow> nat list \<Rightarrow> nat \<Rightarrow> (nat \<times> nat list list list \<times> int list list list) option" where
  "generate_random_input_data pick nbatches mini_batch_size num_indices_per_lookup ln_emb p =
     for_loop nbatches (\<lambda>j (p, lS_lengths, lS_indices). do {
       (p, ls, is) \<leftarrow> random_batch pick mini_batch_size num_indices_per_lookup ln_emb p;
       Some (p, lS_lengths @ [ls], lS_indices @ [is]) }) (p, [], [])"

section \<open>Groups\<close>

lemma length_np_unique: "length (np_unique xs) = card (set xs)"
  by (simp add: np_unique_def)

text \<open>An accepted group: different indices of the table, in order.\<close>

definition good_group :: "nat \<Rightarrow> nat \<Rightarrow> int list \<Rightarrow> bool" where
  "good_group g sz xs \<longleftrightarrow> length xs = g \<and> sorted_wrt (<) xs \<and> (\<forall>e \<in> set xs. 0 \<le> e \<and> e < int sz)"

definition good_lookups :: "nat \<Rightarrow> nat \<Rightarrow> nat \<Rightarrow> int list \<Rightarrow> bool" where
  "good_lookups n g sz xs \<longleftrightarrow> (\<exists>gs. length gs = n \<and> xs = concat gs \<and> (\<forall>x \<in> set gs. good_group g sz x))"

lemma for_loop_stuck:
  assumes "i < n" "\<And>s. f i s = None"
  shows "for_loop n f s = None"
proof (rule for_loop_fail)
  show "for_loop (Suc i) f s = None" using assms(2) by (cases "for_loop i f s") simp_all
qed (use assms(1) in simp)

locale uniform_draws =
  fixes pick :: "nat \<Rightarrow> nat \<Rightarrow> nat \<Rightarrow> int list"
  assumes length_pick: "length (pick p g sz) = g"
    and pick_range: "0 < sz \<Longrightarrow> e \<in> set (pick p g sz) \<Longrightarrow> 0 \<le> e \<and> e < int sz"
begin

lemma draw_group_run:
  assumes "q \<ge> p" "distinct (pick q g sz)" "0 < sz"
  shows "\<exists>xs p'. draw_group pick sz g p = Some (xs, p') \<and> good_group g sz xs"
  using assms(1)
proof (induction "q - p" arbitrary: p)
  case 0
  then have "p = q" by simp
  then have "length (np_unique (pick p g sz)) = g" using assms(2) length_pick by (simp add: length_np_unique distinct_card)
  moreover from this have "good_group g sz (np_unique (pick p g sz))"
    using pick_range [OF assms(3)] by (auto simp: good_group_def np_unique_def)
  ultimately show ?case by (subst draw_group.simps) simp
next
  case (Suc n)
  show ?case
  proof (cases "length (np_unique (pick p g sz)) = g")
    case True
    then have "good_group g sz (np_unique (pick p g sz))" using pick_range [OF assms(3)] by (auto simp: good_group_def np_unique_def)
    with True show ?thesis by (subst draw_group.simps) simp
  next
    case False
    have "\<exists>xs p'. draw_group pick sz g (p + 1) = Some (xs, p') \<and> good_group g sz xs" using Suc by simp
    with False show ?thesis by (subst draw_group.simps) simp
  qed
qed

lemma draw_group_diverges:
  assumes "0 < sz" "sz < g"
  shows "draw_group pick sz g p = None"
proof (rule ccontr)
  assume "draw_group pick sz g p \<noteq> None"
  then obtain r where "draw_group pick sz g p = Some r" by blast
  then have "\<exists>q. card (set (pick q g sz)) = g"
  proof (rule draw_group.raw_induct [rotated, where P = "\<lambda>pick sz g p r. \<exists>q. card (set (pick q g sz)) = g"])
    fix f :: "(nat \<Rightarrow> nat \<Rightarrow> nat \<Rightarrow> int list) \<Rightarrow> nat \<Rightarrow> nat \<Rightarrow> nat \<Rightarrow> (int list \<times> nat) option" and pick' sz' g' p' r'
    assume "\<And>pick sz g p r. f pick sz g p = Some r \<Longrightarrow> \<exists>q. card (set (pick q g sz)) = g"
      and "(let sparse_group = np_unique (pick' p' g' sz') in if length sparse_group \<noteq> g' then f pick' sz' g' (p' + 1) else Some (sparse_group, p' + 1)) = Some r'"
    then show "\<exists>q. card (set (pick' q g' sz')) = g'" by (auto simp: length_np_unique split: if_splits)
  qed
  then obtain q where q: "card (set (pick q g sz)) = g" by blast
  have "set (pick q g sz) \<subseteq> {0..<int sz}" using pick_range [OF assms(1)] by auto
  from card_mono [OF _ this] q assms(2) show False by simp
qed

lemma random_table_run:
  assumes "\<And>p. \<exists>q\<ge>p. distinct (pick q g sz)" "0 < sz"
  shows "\<exists>p' xs. random_table pick n g sz p = Some (p', replicate n g, xs) \<and> good_lookups n g sz xs"
proof -
  let ?P = "\<lambda>i (p :: nat, lens, inds). lens = replicate i g \<and> good_lookups i g sz inds"
  have "\<exists>s. random_table pick n g sz p = Some s \<and> ?P n s"
    unfolding random_table_def
  proof (rule for_loop_inv [where P = ?P])
    fix i s
    assume "?P i s"
    then obtain p inds gs where s: "s = (p, replicate i g, inds)" "length gs = i" "inds = concat gs" "\<forall>x \<in> set gs. good_group g sz x"
      by (auto simp: good_lookups_def)
    from assms(1) obtain q where "q \<ge> p" "distinct (pick q g sz)" by blast
    from draw_group_run [OF this assms(2)] obtain xs p' where x: "draw_group pick sz g p = Some (xs, p')" "good_group g sz xs" by blast
    have "length xs = g" using x(2) by (simp add: good_group_def)
    moreover have "good_lookups (Suc i) g sz (inds @ xs)" unfolding good_lookups_def using s(2-4) x(2) by (intro exI [of _ "gs @ [xs]"]) auto
    ultimately show "\<exists>s'. (case s of (p, lens, inds) \<Rightarrow> do {
       (sparse_group, p) \<leftarrow> draw_group pick sz g p;
       Some (p, lens @ [length sparse_group], inds @ sparse_group) }) = Some s' \<and> ?P (Suc i) s'"
      using s(1) x(1) by (simp add: replicate_append_same)
  qed (simp add: good_lookups_def)
  then show ?thesis by auto
qed

lemma random_batch_run:
  assumes "\<And>sz p. sz \<in> set ln_emb \<Longrightarrow> \<exists>q\<ge>p. distinct (pick q g sz)" "\<forall>sz \<in> set ln_emb. 0 < sz"
  shows "\<exists>p' iss. random_batch pick n g ln_emb p = Some (p', replicate (length ln_emb) (replicate n g), iss) \<and> list_all2 (good_lookups n g) ln_emb iss"
proof -
  let ?m = "length ln_emb"
  let ?P = "\<lambda>i (p :: nat, ls, iss). ls = replicate i (replicate n g) \<and> list_all2 (good_lookups n g) (take i ln_emb) iss"
  have "\<exists>s. random_batch pick n g ln_emb p = Some s \<and> ?P ?m s"
    unfolding random_batch_def
  proof (rule for_loop_inv [where P = ?P])
    fix i s
    assume i: "i < ?m" and "?P i s"
    then obtain p iss where s: "s = (p, replicate i (replicate n g), iss)" "list_all2 (good_lookups n g) (take i ln_emb) iss" by auto
    have sz: "ln_emb ! i \<in> set ln_emb" using i by simp
    from random_table_run [OF assms(1) [OF sz], of n p] assms(2) sz obtain p' xs where
      x: "random_table pick n g (ln_emb ! i) p = Some (p', replicate n g, xs)" "good_lookups n g (ln_emb ! i) xs" by auto
    have "list_all2 (good_lookups n g) (take (Suc i) ln_emb) (iss @ [xs])"
      using s(2) x(2) i by (simp add: take_Suc_conv_app_nth list_all2_appendI)
    then show "\<exists>s'. (case s of (p, emb_lengths, emb_indices) \<Rightarrow> do {
       (p, lens, inds) \<leftarrow> random_table pick n g (ln_emb ! i) p;
       Some (p, emb_lengths @ [lens], emb_indices @ [inds]) }) = Some s' \<and> ?P (Suc i) s'"
      using s(1) x(1) by (simp add: replicate_append_same)
  qed simp
  then show ?thesis by auto
qed

lemma random_input_run:
  assumes "\<And>sz p. sz \<in> set ln_emb \<Longrightarrow> \<exists>q\<ge>p. distinct (pick q g sz)" "\<forall>sz \<in> set ln_emb. 0 < sz"
  shows "\<exists>p' inds. generate_random_input_data pick nb n g ln_emb p = Some (p', replicate nb (replicate (length ln_emb) (replicate n g)), inds) \<and>
    length inds = nb \<and> (\<forall>iss \<in> set inds. list_all2 (good_lookups n g) ln_emb iss)"
proof -
  let ?P = "\<lambda>i (p :: nat, ls, inds). ls = replicate i (replicate (length ln_emb) (replicate n g)) \<and> length inds = i \<and> (\<forall>iss \<in> set inds. list_all2 (good_lookups n g) ln_emb iss)"
  have "\<exists>s. generate_random_input_data pick nb n g ln_emb p = Some s \<and> ?P nb s"
    unfolding generate_random_input_data_def
  proof (rule for_loop_inv [where P = ?P])
    fix i s
    assume "?P i s"
    then obtain p inds where s: "s = (p, replicate i (replicate (length ln_emb) (replicate n g)), inds)" "length inds = i"
      "\<forall>iss \<in> set inds. list_all2 (good_lookups n g) ln_emb iss" by auto
    from random_batch_run [OF assms, of n p] obtain p' iss where
      x: "random_batch pick n g ln_emb p = Some (p', replicate (length ln_emb) (replicate n g), iss)" "list_all2 (good_lookups n g) ln_emb iss" by blast
    then show "\<exists>s'. (case s of (p, lS_lengths, lS_indices) \<Rightarrow> do {
       (p, ls, is) \<leftarrow> random_batch pick n g ln_emb p;
       Some (p, lS_lengths @ [ls], lS_indices @ [is]) }) = Some s' \<and> ?P (Suc i) s'"
      using s by (simp add: replicate_append_same)
  qed simp
  then show ?thesis by auto
qed

text \<open>A table with fewer rows than a group has indices: the first group is drawn forever.\<close>

lemma random_input_diverges:
  assumes "sz \<in> set ln_emb" "0 < sz" "sz < g" "0 < n" "0 < nb"
  shows "generate_random_input_data pick nb n g ln_emb p = None"
proof -
  have table: "random_table pick n g sz p = None" for p
    unfolding random_table_def using assms(4) by (intro for_loop_stuck [of 0]) (auto simp: draw_group_diverges [OF assms(2,3)])
  from assms(1) obtain i where i: "i < length ln_emb" "ln_emb ! i = sz" by (auto simp: in_set_conv_nth)
  have "random_batch pick n g ln_emb p = None" for p
    unfolding random_batch_def using i by (intro for_loop_stuck [of i]) (auto simp: table)
  then show ?thesis unfolding generate_random_input_data_def using assms(5) by (intro for_loop_stuck [of 0]) auto
qed

end

section \<open>A reference for the draws\<close>

definition cyclic_pick :: "nat \<Rightarrow> nat \<Rightarrow> nat \<Rightarrow> int list" where
  "cyclic_pick p g sz = map (\<lambda>k. int ((p + k) mod sz)) [0..<g]"

interpretation cyc: uniform_draws cyclic_pick
  by unfold_locales (auto simp: cyclic_pick_def)

section \<open>Properties\<close>

text \<open>
  C18: Random input ends exactly when it can. For a table with fewer rows than a lookup has indices the draws are
  repeated forever. If for every table draws without duplicates keep coming, the program returns: for
  each batch and each table the given number of lookups, each with the given number of different indices of the
  table, in ascending order.
\<close>

theorem random_input_returns:
  assumes "uniform_draws pick" "\<forall>sz \<in> set ln_emb. 0 < sz" "0 < nbatches" "0 < mini_batch_size"
  shows "((\<exists>sz \<in> set ln_emb. sz < num_indices_per_lookup) \<longrightarrow>
       generate_random_input_data pick nbatches mini_batch_size num_indices_per_lookup ln_emb p = None) \<and>
    ((\<forall>sz \<in> set ln_emb. \<forall>p. \<exists>q\<ge>p. distinct (pick q num_indices_per_lookup sz)) \<longrightarrow>
       (\<exists>p' lS_indices. generate_random_input_data pick nbatches mini_batch_size num_indices_per_lookup ln_emb p =
           Some (p', replicate nbatches (replicate (length ln_emb) (replicate mini_batch_size num_indices_per_lookup)), lS_indices) \<and>
         length lS_indices = nbatches \<and> (\<forall>iss \<in> set lS_indices. list_all2 (good_lookups mini_batch_size num_indices_per_lookup) ln_emb iss)))"
  using uniform_draws.random_input_diverges [OF assms(1) _ _ _ assms(4,3)] uniform_draws.random_input_run [OF assms(1)] assms(2) by metis

theorem random_input_returns_witness:
  "generate_random_input_data cyclic_pick 1 2 5 [7, 4] 0 = None \<and>
   (\<exists>p' lS_indices. generate_random_input_data cyclic_pick 1 2 3 [7, 4] 0 = Some (p', [[[3, 3], [3, 3]]], lS_indices) \<and> length lS_indices = 1 \<and>
     (\<forall>iss \<in> set lS_indices. list_all2 (good_lookups 2 3) [7, 4] iss))"
proof -
  have d: "distinct (cyclic_pick p 3 sz)" if "3 \<le> sz" for p sz
  proof -
    have inj: "i = j" if "i \<le> j" "j < 3" "(p + j) mod sz = (p + i) mod sz" for i j
    proof -
      have "sz dvd j - i" using that mod_eq_dvd_iff_nat [of "p + i" "p + j" sz] by simp
      moreover have "j - i < sz" using that(2) \<open>3 \<le> sz\<close> by simp
      ultimately show ?thesis using that(1) nat_dvd_not_less [of "j - i" sz] by fastforce
    qed
    have "inj_on (\<lambda>k. (p + k) mod sz) {0..<3}"
    proof (rule inj_onI)
      fix x y :: nat
      assume "x \<in> {0..<3}" "y \<in> {0..<3}" "(p + x) mod sz = (p + y) mod sz"
      then show "x = y" using inj [of x y] inj [of y x] by (cases "x \<le> y") simp_all
    qed
    then show ?thesis by (simp add: cyclic_pick_def distinct_map inj_on_def)
  qed
  have a: "\<forall>sz \<in> set [7, 4 :: nat]. 0 < sz" by simp
  have D: "\<forall>sz \<in> set [7, 4]. \<forall>p. \<exists>q\<ge>p. distinct (cyclic_pick q 3 sz)" using d by (intro ballI allI exI conjI order_refl) auto
  have l: "\<exists>sz \<in> set [7, 4 :: nat]. sz < 5" by simp
  have r: "replicate 1 (replicate (length [7, 4 :: nat]) (replicate 2 3)) = [[[3, 3], [3, 3 :: nat]]]" by code_simp
  note ret = random_input_returns [OF cyc.uniform_draws_axioms a, of 1 2, OF zero_less_one zero_less_numeral]
  show ?thesis using mp [OF conjunct1 [OF ret] l] mp [OF conjunct2 [OF ret] D, unfolded r] by blast
qed

end
