(* ===== verification/Load_Generator.thy ===== *)
theory Load_Generator
  imports Python_Numbers
begin

text \<open>
  The load generator of the inference service, \<open>src/RecSSD-RecInfra-fixed.32/loadGenerator.py\<close>: the sizes of
  the requests, their partition into tasks, the search for the best configuration (\<open>HillClimbing\<close>) and the
  operations on the request queues.

  Random numbers and the arrivals in the queue of measured latencies are arguments, and so are the
  functions of numpy, with the documented behaviour as the laws of a locale. Waiting times are left out.
\<close>

section \<open>Arguments\<close>

record 'f load_args =
  num_batches :: nat
  nepochs :: nat
  inference_engines :: nat
  mini_batch_size :: int
  max_mini_batch_size :: int
  sub_task_batch_size :: int
  model_gpu :: bool
  tune_batch_qps :: bool
  tune_gpu_qps :: bool
  batch_configs :: "int list"
  gpu_configs :: "int list"
  avg_arrival_rate :: 'f
  target_latency :: 'f
  stable_region :: 'f
  sched_timeout :: nat
  arr_steps :: nat

text \<open>\<open>np.argmin\<close>, \<open>np.median\<close>, and the value of \<open>np.logspace\<close> for the range of the arguments.\<close>

record 'f climb_np =
  np_argmin :: "'f list \<Rightarrow> nat"
  np_median :: "'f list \<Rightarrow> 'f"
  arrival_rates :: "'f list"

text \<open>
  A computation that may also run forever, which is \<open>None\<close>.
\<close>

type_synonym 'a run = "'a py option"

definition run_bind :: "'a run \<Rightarrow> ('a \<Rightarrow> 'b run) \<Rightarrow> 'b run" where
  "run_bind m f = Option.bind m (\<lambda>r. case r of Inl e \<Rightarrow> Some (Inl e) | Inr x \<Rightarrow> f x)"

primrec run_for :: "('x \<Rightarrow> 's \<Rightarrow> 's run) \<Rightarrow> 'x list \<Rightarrow> 's \<Rightarrow> 's run" where
  "run_for f [] s = Some (Inr s)"
| "run_for f (x # xs) s = run_bind (f x s) (run_for f xs)"

section \<open>Sizes of the requests\<close>

definition clamp_sizes :: "'f :: floor_ceiling load_args \<Rightarrow> 'f list \<Rightarrow> int list py" where
  "clamp_sizes args sizes =
     py_for (\<lambda>i out.
       py_bind (py_nth sizes (int i)) (\<lambda>x.
       Inr (out @ [py_int (max (min x (of_int (max_mini_batch_size args))) 1)]))) [0..<num_batches args] []"

text \<open>
  \<open>draws\<close> are the numbers drawn from the normal or lognormal distribution, \<open>percentiles\<close> the lines of the
  file and \<open>picks\<close> the numbers drawn to select from them.
\<close>

definition model_batch_size_distribution ::
  "string \<Rightarrow> 'f :: floor_ceiling list \<Rightarrow> 'f list \<Rightarrow> 'f list \<Rightarrow> 'f load_args \<Rightarrow> int list py" where
  "model_batch_size_distribution distribution draws percentiles picks args =
     py_bind
       (if distribution = ''normal'' \<or> distribution = ''lognormal'' then Inr draws
        else if distribution = ''fixed'' then Inr (map (\<lambda>_. of_int (mini_batch_size args)) [0..<num_batches args])
        else if distribution = ''file'' then
          py_for (\<lambda>i sizes.
            py_bind (py_nth picks (int i)) (\<lambda>u.
            py_bind (py_nth percentiles (py_int u)) (\<lambda>p.
            Inr (sizes @ [of_int (py_int p)])))) [0..<num_batches args] []
        else Inl NameError)
       (clamp_sizes args)"

partial_function (option) partition_requests :: "int \<Rightarrow> int \<Rightarrow> int list \<Rightarrow> int list option" where
  "partition_requests sub_task batch_size batch_sizes =
     (if batch_size > 0 then
        let mini_batch = min sub_task batch_size
        in partition_requests sub_task (batch_size - mini_batch) (batch_sizes @ [mini_batch])
      else Some batch_sizes)"

section \<open>Hill climbing\<close>

text \<open>
  The variables of the search. \<open>sub_task\<close> and \<open>gpu_thres\<close> are the arguments \<open>sub_task_batch_size\<close> and
  \<open>gpu_request_size_thres\<close> that it assigns; \<open>config_qps\<close> and \<open>config_attempt\<close> are those of the
  configurations that are searched, of batch sizes or of the GPU.
\<close>

record 'f climb =
  sub_task :: int
  gpu_thres :: int
  arrival_rate :: 'f
  arr_id :: int
  tried_arrival_rates :: "'f list"
  config_qps :: "'f list"
  config_attempt :: nat
  tuning_batch_qps :: bool
  tuning_gpu_qps :: bool
  qps_tried :: nat

definition nearest_rate :: "'f :: linordered_field climb_np \<Rightarrow> 'f load_args \<Rightarrow> int" where
  "nearest_rate np args = int (np_argmin np (map (\<lambda>r. \<bar>r - avg_arrival_rate args\<bar>) (arrival_rates np)))"

definition next_rate :: "'f :: linordered_field climb_np \<Rightarrow> 'f load_args \<Rightarrow> 'f \<Rightarrow> int \<Rightarrow> int" where
  "next_rate np args running_latency i =
     (if running_latency > target_latency args * (1 + stable_region args)
      then min (int (length (arrival_rates np)) - 1) (i + 1)
      else if running_latency \<ge> target_latency args then i
      else if running_latency < target_latency args / (1 + stable_region args) then max 0 (i - 1)
      else i)"

text \<open>\<open>xs[-1 * n:]\<close>\<close>

definition last_n :: "nat \<Rightarrow> 'a list \<Rightarrow> 'a list" where
  "last_n n xs = (if n = 0 then xs else drop (length xs - n) xs)"

text \<open>The measurement of a configuration is over: take the next one, or the best one when all were tried.\<close>

definition next_config ::
  "'f :: linordered_field climb_np \<Rightarrow> 'f load_args \<Rightarrow> int list \<Rightarrow> 'f climb \<Rightarrow> 'f climb py" where
  "next_config np args configs c =
     (let rate = np_median np (last_n (arr_steps args) (tried_arrival_rates c));
          c = c\<lparr>config_qps := config_qps c @ [rate], config_attempt := config_attempt c + 1\<rparr>
      in if length (config_qps c) = length configs then
           let c = c\<lparr>arrival_rate := Min (set (config_qps c)), qps_tried := 0\<rparr>;
               best_attempt = int (np_argmin np (config_qps c))
           in if tuning_batch_qps c then
                py_bind (py_nth configs best_attempt) (\<lambda>b. Inr (c\<lparr>sub_task := b, tuning_batch_qps := False\<rparr>))
              else if tuning_gpu_qps c then
                py_bind (py_nth configs best_attempt) (\<lambda>b. Inr (c\<lparr>gpu_thres := b, tuning_gpu_qps := False\<rparr>))
              else Inr c
         else
           py_bind
             (if tuning_batch_qps c then
                py_bind (py_nth configs (int (config_attempt c))) (\<lambda>b. Inr (c\<lparr>sub_task := b\<rparr>))
              else if tuning_gpu_qps c then
                py_bind (py_nth configs (int (config_attempt c))) (\<lambda>b. Inr (c\<lparr>gpu_thres := b\<rparr>))
              else Inr c) (\<lambda>c.
           Inr (c\<lparr>tried_arrival_rates := [], qps_tried := 0, arrival_rate := avg_arrival_rate args, arr_id := nearest_rate np args\<rparr>)))"

text \<open>One step of the search. The flag of the result says that the queues were drained.\<close>

definition HillClimbing ::
  "'f :: linordered_field climb_np \<Rightarrow> 'f load_args \<Rightarrow> int list \<Rightarrow> 'f \<Rightarrow> 'f climb \<Rightarrow> ('f climb \<times> bool) py" where
  "HillClimbing np args configs running_latency c =
     (let i = next_rate np args running_latency (arr_id c) in
      py_bind (py_nth (arrival_rates np) i) (\<lambda>rate.
      let c = c\<lparr>arr_id := i, arrival_rate := rate, tried_arrival_rates := tried_arrival_rates c @ [rate], qps_tried := qps_tried c + 1\<rparr>
      in if qps_tried c > sched_timeout args
         then py_bind (next_config np args configs c) (\<lambda>c. Inr (c, True))
         else Inr (c, False)))"

section \<open>The generator\<close>

text \<open>
  \<open>ServiceRequest\<close> of \<open>utils/packets.py\<close>, without the time of its arrival, and the operations on the queues
  in their order: \<open>None\<close> tells an engine to stop. \<open>Drain\<close> drops all but 500 requests and waits until the
  queues are empty.
\<close>

record ServiceRequest =
  req_batch_id :: nat
  req_epoch :: nat
  req_batch_size :: int
  sub_id :: nat
  total_sub_batches :: nat
  exp_packet :: bool

datatype load_event = Put "ServiceRequest option" | Gpu_Put "ServiceRequest option" | Drain

text \<open>The variables of \<open>loadGenerator\<close>; \<open>checks\<close> counts how often it looked into the queue of latencies.\<close>

record 'f gen =
  climb :: "'f climb"
  gpu_config_qps :: "'f list"
  gpu_config_attempt :: nat
  epoch :: nat
  exp_epochs :: nat
  cpu_sub_requests :: nat
  cpu_requests :: nat
  gpu_requests :: nat
  checks :: nat
  events :: "load_event list"

definition drained :: "bool \<Rightarrow> load_event list" where
  "drained b = (if b then [Drain] else [])"

text \<open>The search over the batch sizes, when it is on and a latency has arrived.\<close>

definition climb_batch ::
  "'f :: linordered_field climb_np \<Rightarrow> 'f load_args \<Rightarrow> (nat \<Rightarrow> 'f list) \<Rightarrow> 'f gen \<Rightarrow> 'f gen py" where
  "climb_batch np args pid g =
     (if \<not> tuning_batch_qps (climb g) then Inr g
      else case pid (checks g) of
        [] \<Rightarrow> Inr (g\<lparr>checks := checks g + 1\<rparr>)
      | running_latency # _ \<Rightarrow>
          py_bind (HillClimbing np args (batch_configs args) running_latency (climb g)) (\<lambda>(c, b).
          let g = g\<lparr>climb := c, checks := checks g + 1, events := events g @ drained b\<rparr>
          in if tuning_batch_qps c then Inr g
             else Inr (g\<lparr>climb := c\<lparr>qps_tried := 0, arr_id := nearest_rate np args, tried_arrival_rates := [],
                 tuning_gpu_qps := (if model_gpu args \<and> tune_gpu_qps args then True else tuning_gpu_qps c)\<rparr>,
               gpu_config_qps := [], gpu_config_attempt := 0\<rparr>)))"

text \<open>The search over the threshold of the GPU.\<close>

definition climb_gpu ::
  "'f :: linordered_field climb_np \<Rightarrow> 'f load_args \<Rightarrow> (nat \<Rightarrow> 'f list) \<Rightarrow> 'f gen \<Rightarrow> 'f gen py" where
  "climb_gpu np args pid g =
     (if \<not> (model_gpu args \<and> tuning_gpu_qps (climb g)) then Inr g
      else case pid (checks g) of
        [] \<Rightarrow> Inr (g\<lparr>checks := checks g + 1\<rparr>)
      | running_latency # _ \<Rightarrow>
          py_bind (HillClimbing np args (gpu_configs args) running_latency
            ((climb g)\<lparr>config_qps := gpu_config_qps g, config_attempt := gpu_config_attempt g\<rparr>)) (\<lambda>(c, b).
          Inr (g\<lparr>climb := c\<lparr>config_qps := config_qps (climb g), config_attempt := config_attempt (climb g)\<rparr>,
            gpu_config_qps := config_qps c, gpu_config_attempt := config_attempt c,
            checks := checks g + 1, events := events g @ drained b\<rparr>)))"

definition send_request :: "'f load_args \<Rightarrow> nat \<Rightarrow> int \<Rightarrow> 'f gen \<Rightarrow> 'f gen run" where
  "send_request args batch request_size g =
     (let ex = tuning_batch_qps (climb g) \<or> tuning_gpu_qps (climb g) in
      if model_gpu args \<and> request_size \<ge> gpu_thres (climb g) then
        Some (Inr (g\<lparr>gpu_requests := gpu_requests g + 1, events := events g @
          [Gpu_Put (Some \<lparr>req_batch_id = batch, req_epoch = epoch g, req_batch_size = request_size, sub_id = 0, total_sub_batches = 1, exp_packet = ex\<rparr>)]\<rparr>))
      else Option.bind (partition_requests (sub_task (climb g)) request_size []) (\<lambda>batch_sizes.
        Some (Inr (g\<lparr>cpu_sub_requests := cpu_sub_requests g + length batch_sizes, cpu_requests := cpu_requests g + 1, events := events g @
          map (\<lambda>(i, batch_size). Put (Some \<lparr>req_batch_id = batch, req_epoch = epoch g, req_batch_size = batch_size, sub_id = i,
            total_sub_batches = length batch_sizes, exp_packet = ex\<rparr>)) (enumerate 0 batch_sizes)\<rparr>))))"

definition load_batch ::
  "'f :: linordered_field climb_np \<Rightarrow> 'f load_args \<Rightarrow> (nat \<Rightarrow> 'f list) \<Rightarrow> int list \<Rightarrow> nat \<Rightarrow> 'f gen \<Rightarrow> 'f gen run" where
  "load_batch np args pid sizes batch g =
     run_bind (Some (climb_batch np args pid g)) (\<lambda>g.
     run_bind (Some (climb_gpu np args pid g)) (\<lambda>g.
     run_bind (Some (py_nth sizes (int batch))) (\<lambda>request_size.
     send_request args batch request_size g)))"

definition load_epoch ::
  "'f :: linordered_field climb_np \<Rightarrow> 'f load_args \<Rightarrow> (nat \<Rightarrow> 'f list) \<Rightarrow> int list \<Rightarrow> 'f gen \<Rightarrow> 'f gen run" where
  "load_epoch np args pid sizes g =
     run_bind (run_for (load_batch np args pid sizes) [0..<num_batches args] g) (\<lambda>g.
     Some (Inr (g\<lparr>epoch := epoch g + 1,
       exp_epochs := (if \<not> tuning_batch_qps (climb g) \<and> \<not> tuning_gpu_qps (climb g) then exp_epochs g + 1 else exp_epochs g)\<rparr>)))"

partial_function (option) load_loop ::
  "'f :: linordered_field climb_np \<Rightarrow> 'f load_args \<Rightarrow> (nat \<Rightarrow> 'f list) \<Rightarrow> int list \<Rightarrow> 'f gen \<Rightarrow> 'f gen run" where
  "load_loop np args pid sizes g =
     (if tuning_batch_qps (climb g) \<or> exp_epochs g < nepochs args
      then Option.bind (load_epoch np args pid sizes g) (\<lambda>r.
        case r of Inl e \<Rightarrow> Some (Inl e) | Inr g \<Rightarrow> load_loop np args pid sizes g)
      else Some (Inr g))"

text \<open>One \<open>None\<close> for each engine; with a GPU the last engine is the one that reads the other queue.\<close>

definition done_signals :: "'f load_args \<Rightarrow> load_event list" where
  "done_signals args =
     map (\<lambda>i. if model_gpu args \<and> i = inference_engines args - 1 then Gpu_Put None else Put None) [0..<inference_engines args]"

definition start_gen :: "'f :: linordered_field climb_np \<Rightarrow> 'f load_args \<Rightarrow> int \<Rightarrow> 'f gen" where
  "start_gen np args sub =
     \<lparr>climb = \<lparr>sub_task = sub, gpu_thres = 1024, arrival_rate = avg_arrival_rate args, arr_id = nearest_rate np args,
        tried_arrival_rates = [], config_qps = [], config_attempt = 0, tuning_batch_qps = tune_batch_qps args,
        tuning_gpu_qps = False, qps_tried = 0\<rparr>,
      gpu_config_qps = [], gpu_config_attempt = 0, epoch = 0, exp_epochs = 0, cpu_sub_requests = 0, cpu_requests = 0,
      gpu_requests = 0, checks = 0, events = []\<rparr>"

definition loadGenerator ::
  "'f :: linordered_field climb_np \<Rightarrow> 'f load_args \<Rightarrow> (nat \<Rightarrow> 'f list) \<Rightarrow> int list \<Rightarrow> (load_event list \<times> nat \<times> nat \<times> nat) run" where
  "loadGenerator np args pid sizes =
     run_bind (Some (if tune_batch_qps args then py_nth (batch_configs args) 0 else Inr (sub_task_batch_size args))) (\<lambda>sub.
     run_bind (load_loop np args pid sizes (start_gen np args sub)) (\<lambda>g.
     Some (Inr (events g @ done_signals args, cpu_sub_requests g, cpu_requests g, gpu_requests g))))"

section \<open>Runs\<close>

lemma run_bind_simps [simp]:
  "run_bind None f = None" "run_bind (Some (Inl e)) f = Some (Inl e)" "run_bind (Some (Inr x)) f = f x"
  by (simp_all add: run_bind_def)

lemma run_bind_assoc: "run_bind (run_bind m f) g = run_bind m (\<lambda>x. run_bind (f x) g)"
  by (cases m) (simp_all add: run_bind_def split: sum.split)

lemma run_for_append: "run_for f (xs @ ys) = (\<lambda>s. run_bind (run_for f xs s) (run_for f ys))"
proof (induction xs)
  case (Cons x xs)
  then show ?case by (intro ext) (simp add: run_bind_assoc)
qed (simp add: fun_eq_iff)

text \<open>The rule for a loop that neither raises nor runs forever.\<close>

lemma run_for_range:
  assumes "P 0 s" "\<And>i s. i < n \<Longrightarrow> P i s \<Longrightarrow> \<exists>s'. f i s = Some (Inr s') \<and> P (Suc i) s'"
  shows "\<exists>s'. run_for f [0..<n] s = Some (Inr s') \<and> P n s'"
  using assms(2)
proof (induction n)
  case (Suc n)
  then obtain s' where "run_for f [0..<n] s = Some (Inr s')" "P n s'" by (auto simp: less_Suc_eq)
  moreover from Suc.prems [of n s'] this(2) obtain s'' where "f n s' = Some (Inr s'')" "P (Suc n) s''" by auto
  ultimately show ?case by (simp add: run_for_append)
qed (use assms(1) in simp)

section \<open>The partition of a request\<close>

definition parts :: "int \<Rightarrow> int \<Rightarrow> int list" where
  "parts sub n = replicate (nat (n div sub)) sub @ (if n mod sub = 0 then [] else [n mod sub])"

lemma partition_run:
  assumes "0 < sub" "0 \<le> n"
  shows "partition_requests sub n acc = Some (acc @ parts sub n)"
  using assms(2)
proof (induction "nat n" arbitrary: n acc rule: less_induct)
  case less
  show ?case
  proof (cases "n < sub")
    case True
    have e: "partition_requests sub 0 xs = Some xs" for xs by (subst partition_requests.simps) simp
    have "n div sub = 0" "n mod sub = n" using True less.prems by simp_all
    then have "parts sub n = (if n = 0 then [] else [n])" by (simp add: parts_def)
    moreover have "partition_requests sub n acc = (if n = 0 then Some acc else partition_requests sub (n - n) (acc @ [n]))"
      using True less.prems by (subst partition_requests.simps) (auto simp: Let_def min_def)
    ultimately show ?thesis by (simp add: e)
  next
    case False
    then have le: "sub \<le> n" by simp
    have "partition_requests sub (n - sub) (acc @ [sub]) = Some ((acc @ [sub]) @ parts sub (n - sub))"
      using assms(1) le by (intro less.hyps) auto
    moreover have "partition_requests sub n acc = partition_requests sub (n - sub) (acc @ [sub])"
      using assms(1) le by (subst partition_requests.simps) (simp add: Let_def min_def)
    moreover have "parts sub n = sub # parts sub (n - sub)"
    proof -
      have "n div sub = (n - sub) div sub + 1" using assms(1) le by (rule div_pos_geq)
      moreover have "n mod sub = (n - sub) mod sub" using assms(1) le by (rule mod_pos_geq)
      moreover have "0 \<le> (n - sub) div sub" using assms(1) le by (simp add: pos_imp_zdiv_nonneg_iff)
      ultimately show ?thesis unfolding parts_def by (simp only: nat_add_distrib) simp
    qed
    ultimately show ?thesis by simp
  qed
qed

lemma partition_diverges:
  assumes "sub \<le> 0" "0 < n"
  shows "partition_requests sub n acc = None"
proof (rule ccontr)
  assume "partition_requests sub n acc \<noteq> None"
  then obtain r where "partition_requests sub n acc = Some r" by blast
  then have "sub \<le> 0 \<longrightarrow> 0 < n \<longrightarrow> False"
  proof (rule partition_requests.raw_induct [rotated, where P = "\<lambda>sub n acc r. sub \<le> 0 \<longrightarrow> 0 < n \<longrightarrow> False"], intro impI)
    fix f :: "int \<Rightarrow> int \<Rightarrow> int list \<Rightarrow> int list option" and sub n acc r
    assume IH: "\<And>sub n acc r. f sub n acc = Some r \<Longrightarrow> sub \<le> 0 \<longrightarrow> 0 < n \<longrightarrow> False"
      and eq: "(if n > 0 then let mini_batch = min sub n in f sub (n - mini_batch) (acc @ [mini_batch]) else Some acc) = Some r"
      and s: "sub \<le> 0" "0 < n"
    from eq s have "f sub (n - sub) (acc @ [sub]) = Some r" by (simp add: min_def)
    from IH [OF this] s show False by simp
  qed
  with assms show False by simp
qed

lemma sum_parts: "0 < sub \<Longrightarrow> 0 \<le> n \<Longrightarrow> sum_list (parts sub n) = n"
  by (auto simp: parts_def sum_list_replicate pos_imp_zdiv_nonneg_iff mult.commute [of _ sub])

lemma length_parts: "0 < sub \<Longrightarrow> 0 \<le> n \<Longrightarrow> length (parts sub n) = nat ((n + sub - 1) div sub)"
proof -
  assume s: "0 < sub" "0 \<le> n"
  have "n + sub - 1 = (n mod sub + sub - 1) + sub * (n div sub)" using div_mult_mod_eq [of n sub] by (simp add: algebra_simps)
  then have "(n + sub - 1) div sub = ((n mod sub + sub - 1) + sub * (n div sub)) div sub" by (rule arg_cong)
  also have "\<dots> = n div sub + (n mod sub + sub - 1) div sub" using s(1) by (subst div_mult_self2) simp_all
  finally have "(n + sub - 1) div sub = n div sub + (n mod sub + sub - 1) div sub" .
  moreover have "(n mod sub + sub - 1) div sub = (if n mod sub = 0 then 0 else 1)"
  proof (cases "n mod sub = 0")
    case False
    then have "0 < n mod sub" "n mod sub < sub" using s(1) by (simp_all add: le_neq_trans)
    then have "(n mod sub - 1) div sub = 0" by (intro div_pos_pos_trivial) linarith+
    then show ?thesis using \<open>0 < n mod sub\<close> s(1) div_pos_geq [of sub "n mod sub + sub - 1"] by simp
  qed (use s(1) in simp)
  moreover have "0 \<le> n div sub" using s by (simp add: pos_imp_zdiv_nonneg_iff)
  ultimately show ?thesis by (simp add: parts_def nat_add_distrib)
qed

lemma set_parts: "0 < sub \<Longrightarrow> 0 \<le> n \<Longrightarrow> x \<in> set (parts sub n) \<Longrightarrow> 0 < x \<and> x \<le> sub"
  using pos_mod_bound [of sub n] pos_mod_sign [of sub n] by (auto simp: parts_def split: if_splits simp del: pos_mod_sign pos_mod_bound)

section \<open>The sizes\<close>

lemma py_int_clamp:
  fixes x :: "'f :: floor_ceiling"
  shows "1 \<le> py_int (max (min x (of_int m)) 1)" "py_int (max (min x (of_int m)) 1) \<le> max m 1"
proof -
  let ?y = "max (min x (of_int m)) (1 :: 'f)"
  have y: "1 \<le> ?y" "?y \<le> of_int (max m 1)"
    unfolding of_int_max of_int_1 by (simp, intro max.mono min.cobounded2 order_refl)
  then have "py_int ?y = \<lfloor>?y\<rfloor>" unfolding py_int_def using order_trans [OF zero_le_one y(1)] by (simp only: if_True)
  moreover have "1 \<le> \<lfloor>?y\<rfloor>" using y(1) by (simp add: le_floor_iff)
  moreover have "\<lfloor>?y\<rfloor> \<le> max m 1" using floor_mono [OF y(2)] by simp
  ultimately show "1 \<le> py_int ?y" "py_int ?y \<le> max m 1" by simp_all
qed

lemma py_for_map_range:
  "py_for (\<lambda>i out. py_bind (py_nth xs (int i)) (\<lambda>x. Inr (out @ [c x]))) ns acc = Inr out \<Longrightarrow>
   length out = length acc + length ns \<and> set out \<subseteq> set acc \<union> range c"
proof (induction ns arbitrary: acc)
  case (Cons k ns)
  then obtain x where "py_for (\<lambda>i out. py_bind (py_nth xs (int i)) (\<lambda>x. Inr (out @ [c x]))) ns (acc @ [c x]) = Inr out"
    by (auto simp: py_bind_Inr)
  from Cons.IH [OF this] show ?case by auto
qed simp

lemma clamp_sizes_run:
  assumes "clamp_sizes args xs = Inr sizes"
  shows "length sizes = num_batches args \<and> (\<forall>x \<in> set sizes. 1 \<le> x \<and> x \<le> max (max_mini_batch_size args) 1)"
  using py_for_map_range [OF assms [unfolded clamp_sizes_def]] py_int_clamp [of _ "max_mini_batch_size args"] by fastforce

lemma sizes_clamped:
  assumes "model_batch_size_distribution distribution draws percentiles picks args = Inr sizes"
  shows "length sizes = num_batches args \<and> (\<forall>x \<in> set sizes. 1 \<le> x \<and> x \<le> max (max_mini_batch_size args) 1)"
proof -
  from assms obtain xs where "clamp_sizes args xs = Inr sizes" unfolding model_batch_size_distribution_def py_bind_Inr by blast
  then show ?thesis by (rule clamp_sizes_run)
qed

section \<open>Without a search\<close>

text \<open>The requests for one batch: one for the GPU, or the tasks of the partition.\<close>

definition task_requests :: "nat \<Rightarrow> nat \<Rightarrow> bool \<Rightarrow> int list \<Rightarrow> ServiceRequest list" where
  "task_requests e b ex bs =
     map (\<lambda>(i, x). \<lparr>req_batch_id = b, req_epoch = e, req_batch_size = x, sub_id = i, total_sub_batches = length bs, exp_packet = ex\<rparr>) (enumerate 0 bs)"

definition batch_events :: "bool \<Rightarrow> int \<Rightarrow> int \<Rightarrow> bool \<Rightarrow> nat \<Rightarrow> nat \<Rightarrow> int \<Rightarrow> load_event list" where
  "batch_events gpu thres sub ex e b n =
     (if gpu \<and> thres \<le> n
      then [Gpu_Put (Some \<lparr>req_batch_id = b, req_epoch = e, req_batch_size = n, sub_id = 0, total_sub_batches = 1, exp_packet = ex\<rparr>)]
      else map (\<lambda>r. Put (Some r)) (task_requests e b ex (parts sub n)))"

lemma length_task_requests [simp]: "length (task_requests e b ex bs) = length bs"
  by (simp add: task_requests_def)

lemma send_request_run:
  assumes "0 < sub_task (climb g)" "0 \<le> n"
  shows "\<exists>cs c u. send_request args b n g = Some (Inr (g\<lparr>cpu_sub_requests := cpu_sub_requests g + cs, cpu_requests := cpu_requests g + c, gpu_requests := gpu_requests g + u,
      events := events g @ batch_events (model_gpu args) (gpu_thres (climb g)) (sub_task (climb g)) (tuning_batch_qps (climb g) \<or> tuning_gpu_qps (climb g)) (epoch g) b n\<rparr>)) \<and>
    c + u = 1 \<and> cs + u = length (batch_events (model_gpu args) (gpu_thres (climb g)) (sub_task (climb g)) (tuning_batch_qps (climb g) \<or> tuning_gpu_qps (climb g)) (epoch g) b n)"
proof (cases "model_gpu args \<and> gpu_thres (climb g) \<le> n")
  case True
  then show ?thesis by (intro exI [of _ 0] exI [of _ 1]) (simp add: send_request_def batch_events_def)
next
  case False
  then show ?thesis using partition_run [OF assms, of "[]"]
    by (intro exI [of _ "length (parts (sub_task (climb g)) n)"] exI [of _ 1] exI [of _ 0])
      (auto simp: send_request_def batch_events_def task_requests_def split_def o_def)
qed

definition epoch_events :: "'f load_args \<Rightarrow> int list \<Rightarrow> nat \<Rightarrow> load_event list" where
  "epoch_events args sizes e =
     concat (map (\<lambda>b. batch_events (model_gpu args) 1024 (sub_task_batch_size args) False e b (sizes ! b)) [0..<num_batches args])"

text \<open>A state without a search, from which the epochs follow that are still to come.\<close>

definition untuned :: "'f load_args \<Rightarrow> 'f gen \<Rightarrow> bool" where
  "untuned args g \<longleftrightarrow> \<not> tuning_batch_qps (climb g) \<and> \<not> tuning_gpu_qps (climb g) \<and>
     sub_task (climb g) = sub_task_batch_size args \<and> gpu_thres (climb g) = 1024"

definition sizes_ok :: "'f load_args \<Rightarrow> int list \<Rightarrow> bool" where
  "sizes_ok args sizes \<longleftrightarrow> num_batches args \<le> length sizes \<and> (\<forall>x \<in> set sizes. 0 \<le> x)"

definition counted :: "'f gen \<Rightarrow> nat \<Rightarrow> bool" where
  "counted g n \<longleftrightarrow> cpu_requests g + gpu_requests g = n \<and> cpu_sub_requests g + gpu_requests g = length (events g)"

lemma untuned_epoch:
  assumes "untuned args g" "0 < sub_task_batch_size args" "sizes_ok args sizes" "counted g n"
  shows "\<exists>g'. load_epoch np args pid sizes g = Some (Inr g') \<and> untuned args g' \<and> epoch g' = epoch g + 1 \<and> exp_epochs g' = exp_epochs g + 1 \<and>
     events g' = events g @ epoch_events args sizes (epoch g) \<and> counted g' (n + num_batches args)"
proof -
  let ?ev = "\<lambda>b. batch_events (model_gpu args) 1024 (sub_task_batch_size args) False (epoch g) b (sizes ! b)"
  let ?P = "\<lambda>i g'. untuned args g' \<and> epoch g' = epoch g \<and> exp_epochs g' = exp_epochs g \<and>
     events g' = events g @ concat (map ?ev [0..<i]) \<and> counted g' (n + i)"
  have "\<exists>g'. run_for (load_batch np args pid sizes) [0..<num_batches args] g = Some (Inr g') \<and> ?P (num_batches args) g'"
  proof (rule run_for_range [where P = ?P])
    fix i h
    assume i: "i < num_batches args" and P: "?P i h"
    have "i < length sizes" "0 \<le> sizes ! i" using i assms(3) by (auto simp: sizes_ok_def)
    moreover have "climb_batch np args pid h = Inr h" "climb_gpu np args pid h = Inr h"
      using P by (simp_all add: climb_batch_def climb_gpu_def untuned_def)
    moreover have "0 < sub_task (climb h)" using P assms(2) by (simp add: untuned_def)
    ultimately show "\<exists>h'. load_batch np args pid sizes i h = Some (Inr h') \<and> ?P (Suc i) h'"
      using send_request_run [of h "sizes ! i" args i] P by (auto simp: load_batch_def untuned_def counted_def)
  qed (use assms(1,4) in simp)
  then show ?thesis by (auto simp: load_epoch_def epoch_events_def untuned_def counted_def)
qed

lemma untuned_loop:
  assumes "untuned args g" "0 < sub_task_batch_size args" "sizes_ok args sizes" "counted g n" "exp_epochs g = epoch g" "epoch g \<le> nepochs args"
  shows "\<exists>g'. load_loop np args pid sizes g = Some (Inr g') \<and>
     events g' = events g @ concat (map (epoch_events args sizes) [epoch g..<nepochs args]) \<and>
     counted g' (n + (nepochs args - epoch g) * num_batches args)"
  using assms(1,4-6)
proof (induction "nepochs args - epoch g" arbitrary: g n)
  case 0
  then show ?case by (subst load_loop.simps) (simp add: untuned_def)
next
  case (Suc k)
  then have lt: "epoch g < nepochs args" by simp
  from untuned_epoch [OF Suc.prems(1) assms(2,3) Suc.prems(2)] obtain h where
    h: "load_epoch np args pid sizes g = Some (Inr h)" "untuned args h" "epoch h = epoch g + 1" "exp_epochs h = exp_epochs g + 1"
      "events h = events g @ epoch_events args sizes (epoch g)" "counted h (n + num_batches args)" by blast
  have "k = nepochs args - epoch h" using Suc.hyps(2) h(3) by simp
  from Suc.hyps(1) [OF this, of "n + num_batches args"] Suc.prems(3) lt h obtain g' where
    g': "load_loop np args pid sizes h = Some (Inr g')" "events g' = events h @ concat (map (epoch_events args sizes) [epoch h..<nepochs args])"
      "counted g' (n + num_batches args + (nepochs args - epoch h) * num_batches args)" by auto
  have "load_loop np args pid sizes g = Some (Inr g')" using h(1) g'(1) Suc.prems(3) lt by (subst load_loop.simps) simp
  moreover have "[epoch g..<nepochs args] = epoch g # [epoch h..<nepochs args]" using lt h(3) by (simp add: upt_conv_Cons)
  moreover have "nepochs args - epoch g = Suc (nepochs args - epoch h)" using lt h(3) by simp
  ultimately show ?case using g'(2,3) h(5) by (simp add: ac_simps)
qed

lemma generator_run:
  assumes "\<not> tune_batch_qps args" "0 < sub_task_batch_size args" "sizes_ok args sizes"
  shows "\<exists>cpu_sub cpu gpu. loadGenerator np args pid sizes =
      Some (Inr (concat (map (epoch_events args sizes) [0..<nepochs args]) @ done_signals args, cpu_sub, cpu, gpu)) \<and>
    cpu + gpu = nepochs args * num_batches args \<and> cpu_sub + gpu = length (concat (map (epoch_events args sizes) [0..<nepochs args]))"
proof -
  let ?g = "start_gen np args (sub_task_batch_size args)"
  have "untuned args ?g" "counted ?g 0" "epoch ?g = 0" "exp_epochs ?g = 0" "events ?g = []"
    using assms(1) by (simp_all add: untuned_def counted_def start_gen_def)
  with untuned_loop [of args ?g, OF _ assms(2,3), of 0 np pid] obtain g' where
    "load_loop np args pid sizes ?g = Some (Inr g')" "events g' = concat (map (epoch_events args sizes) [0..<nepochs args])"
    "counted g' (nepochs args * num_batches args)" by auto
  then show ?thesis using assms(1) by (simp add: loadGenerator_def counted_def)
qed

section \<open>The search ends\<close>

text \<open>
  The state of a search over \<open>configs\<close>, and an upper bound for the steps that are left.
\<close>

definition climbing :: "'f climb_np \<Rightarrow> 'f load_args \<Rightarrow> int list \<Rightarrow> 'f climb \<Rightarrow> bool" where
  "climbing np args configs c \<longleftrightarrow> 0 \<le> arr_id c \<and> arr_id c < int (length (arrival_rates np)) \<and>
     length (config_qps c) = config_attempt c \<and> config_attempt c < length configs \<and> qps_tried c \<le> sched_timeout args"

definition steps_left :: "'f load_args \<Rightarrow> int list \<Rightarrow> 'f climb \<Rightarrow> nat" where
  "steps_left args configs c = (length configs - config_attempt c) * (sched_timeout args + 1) - qps_tried c"

text \<open>All configurations were measured, and \<open>best\<close> is one with the smallest time between requests.\<close>

definition best_config :: "int list \<Rightarrow> 'f :: linorder list \<Rightarrow> int \<Rightarrow> bool" where
  "best_config configs qps best \<longleftrightarrow> length qps = length configs \<and> (\<exists>i<length configs. best = configs ! i \<and> (\<forall>q \<in> set qps. qps ! i \<le> q))"

lemma steps_left_pos:
  assumes "climbing np args configs c"
  shows "0 < steps_left args configs c"
proof -
  have n: "1 \<le> length configs - config_attempt c" "qps_tried c < 1 * (sched_timeout args + 1)" using assms by (auto simp: climbing_def)
  note n(2)
  also have "1 * (sched_timeout args + 1) \<le> (length configs - config_attempt c) * (sched_timeout args + 1)" using n(1) by (rule mult_le_mono1)
  finally show ?thesis unfolding steps_left_def zero_less_diff .
qed

locale climb_laws =
  fixes np :: "'f :: linordered_field climb_np" and args :: "'f load_args"
  assumes argmin: "xs \<noteq> [] \<Longrightarrow> np_argmin np xs < length xs \<and> (\<forall>x \<in> set xs. xs ! np_argmin np xs \<le> x)"
    and rates: "arrival_rates np \<noteq> []"
begin

lemma nearest_bounds: "0 \<le> nearest_rate np args \<and> nearest_rate np args < int (length (arrival_rates np))"
  using argmin [of "map (\<lambda>r. \<bar>r - avg_arrival_rate args\<bar>) (arrival_rates np)"] rates by (simp add: nearest_rate_def)

lemma next_bounds:
  "0 \<le> i \<Longrightarrow> i < int (length (arrival_rates np)) \<Longrightarrow>
   0 \<le> next_rate np args lat i \<and> next_rate np args lat i < int (length (arrival_rates np))"
  using rates by (auto simp: next_rate_def min_def max_def)

text \<open>The end of the measurement of a configuration.\<close>

lemma next_config_run:
  assumes "climbing np args configs (c\<lparr>qps_tried := 0\<rparr>)" "tuning_batch_qps c \<or> tuning_gpu_qps c"
  shows "\<exists>c'. next_config np args configs c = Inr c' \<and>
     (if config_attempt c + 1 < length configs
      then climbing np args configs c' \<and> config_attempt c' = config_attempt c + 1 \<and> qps_tried c' = 0 \<and>
        tuning_batch_qps c' = tuning_batch_qps c \<and> tuning_gpu_qps c' = tuning_gpu_qps c \<and> 
        (if tuning_batch_qps c then sub_task c' \<in> set configs else sub_task c' = sub_task c)
      else \<not> tuning_batch_qps c' \<and> tuning_gpu_qps c' = (tuning_batch_qps c \<and> tuning_gpu_qps c) \<and>
        (if tuning_batch_qps c then best_config configs (config_qps c') (sub_task c') else sub_task c' = sub_task c))"
proof -
  let ?q = "config_qps c @ [np_median np (last_n (arr_steps args) (tried_arrival_rates c))]"
  have c: "length ?q = config_attempt c + 1" "config_attempt c < length configs" using assms(1) by (simp_all add: climbing_def)
  show ?thesis
  proof (cases "config_attempt c + 1 < length configs")
    case True
    then have n: "py_nth configs (1 + int (config_attempt c)) = Inr (configs ! (config_attempt c + 1))"
      using py_nth_nat [of "config_attempt c + 1" configs] by (simp add: add.commute)
    from True c(1) show ?thesis using assms(2) nearest_bounds n
      by (auto simp: next_config_def Let_def climbing_def add.commute)
  next
    case False
    then have l: "length ?q = length configs" using c by simp
    have a: "np_argmin np ?q < length configs" "\<forall>x \<in> set ?q. ?q ! np_argmin np ?q \<le> x" using argmin [of ?q] l by simp_all
    then have "best_config configs ?q (configs ! np_argmin np ?q)" unfolding best_config_def using l by blast
    then show ?thesis using False l a(1) assms(2) by (auto simp: next_config_def Let_def)
  qed
qed

lemma HillClimbing_run:
  assumes "climbing np args configs c" "tuning_batch_qps c \<or> tuning_gpu_qps c"
  shows "\<exists>c' b. HillClimbing np args configs lat c = Inr (c', b) \<and>
     (if tuning_batch_qps c' = tuning_batch_qps c \<and> tuning_gpu_qps c' = tuning_gpu_qps c
      then climbing np args configs c' \<and> steps_left args configs c' < steps_left args configs c \<and>
        (if tuning_batch_qps c then sub_task c' \<in> insert (sub_task c) (set configs) else sub_task c' = sub_task c)
      else \<not> tuning_batch_qps c' \<and> tuning_gpu_qps c' = (tuning_batch_qps c \<and> tuning_gpu_qps c) \<and>
        (if tuning_batch_qps c then best_config configs (config_qps c') (sub_task c') else sub_task c' = sub_task c))"
proof -
  let ?i = "next_rate np args lat (arr_id c)"
  let ?c = "c\<lparr>arr_id := ?i, arrival_rate := arrival_rates np ! nat ?i, tried_arrival_rates := tried_arrival_rates c @ [arrival_rates np ! nat ?i], qps_tried := qps_tried c + 1\<rparr>"
  have i: "0 \<le> ?i" "?i < int (length (arrival_rates np))" using next_bounds assms(1) by (simp_all add: climbing_def)
  then have nth: "py_nth (arrival_rates np) ?i = Inr (arrival_rates np ! nat ?i)" by (simp add: py_nth_def)
  show ?thesis
  proof (cases "qps_tried c + 1 > sched_timeout args")
    case False
    then have "HillClimbing np args configs lat c = Inr (?c, False)" using nth by (simp add: HillClimbing_def Let_def)
    moreover have "climbing np args configs ?c" using False i assms(1) by (simp add: climbing_def)
    moreover have "steps_left args configs ?c < steps_left args configs c"
      using steps_left_pos [OF assms(1)] by (simp add: steps_left_def)
    ultimately show ?thesis by (intro exI [of _ ?c] exI [of _ False]) simp
  next
    case True
    have "climbing np args configs (?c\<lparr>qps_tried := 0\<rparr>)" using i assms(1) by (simp add: climbing_def)
    from next_config_run [OF this] assms(2) obtain c' where c': "next_config np args configs ?c = Inr c'"
      "if config_attempt c + 1 < length configs
      then climbing np args configs c' \<and> config_attempt c' = config_attempt c + 1 \<and> qps_tried c' = 0 \<and>
        tuning_batch_qps c' = tuning_batch_qps c \<and> tuning_gpu_qps c' = tuning_gpu_qps c \<and> 
        (if tuning_batch_qps c then sub_task c' \<in> set configs else sub_task c' = sub_task c)
      else \<not> tuning_batch_qps c' \<and> tuning_gpu_qps c' = (tuning_batch_qps c \<and> tuning_gpu_qps c) \<and>
        (if tuning_batch_qps c then best_config configs (config_qps c') (sub_task c') else sub_task c' = sub_task c)" by auto
    have "HillClimbing np args configs lat c = Inr (c', True)" using True nth c'(1) by (simp add: HillClimbing_def Let_def)
    moreover have "steps_left args configs c' < steps_left args configs c"
      if "config_attempt c' = config_attempt c + 1" "qps_tried c' = 0" "config_attempt c + 1 < length configs"
    proof -
      define m where "m = (length configs - config_attempt c') * (sched_timeout args + 1)"
      have "length configs - config_attempt c = Suc (length configs - config_attempt c')" using that by simp
      then have e: "(length configs - config_attempt c) * (sched_timeout args + 1) = (sched_timeout args + 1) + m" by (simp add: m_def)
      have "qps_tried c \<le> sched_timeout args" using assms(1) by (simp add: climbing_def)
      then show ?thesis unfolding steps_left_def e m_def [symmetric] that(2) by linarith
    qed
    ultimately show ?thesis using c'(2) assms(2) by (intro exI conjI) (assumption, auto split: if_splits)
  qed
qed

text \<open>A state of the generator, and the steps of both searches that are left.\<close>

definition gpu_climb :: "'f gen \<Rightarrow> 'f climb" where
  "gpu_climb g = (climb g)\<lparr>config_qps := gpu_config_qps g, config_attempt := gpu_config_attempt g\<rparr>"

definition gen_ok :: "'f gen \<Rightarrow> bool" where
  "gen_ok g \<longleftrightarrow> (if tuning_batch_qps (climb g) then climbing np args (batch_configs args) (climb g) \<and> \<not> tuning_gpu_qps (climb g) \<and> sub_task (climb g) \<in> set (batch_configs args)
     else best_config (batch_configs args) (config_qps (climb g)) (sub_task (climb g)) \<and>
       (tuning_gpu_qps (climb g) \<longrightarrow> model_gpu args \<and> climbing np args (gpu_configs args) (gpu_climb g)))"

definition potential :: "'f gen \<Rightarrow> nat" where
  "potential g =
     (if tuning_batch_qps (climb g) then steps_left args (batch_configs args) (climb g) + length (gpu_configs args) * (sched_timeout args + 1)
      else if tuning_gpu_qps (climb g) then steps_left args (gpu_configs args) (gpu_climb g) else 0)"

text \<open>Either a search makes a step, or it looked for a latency and there was none.\<close>

definition waits :: "(nat \<Rightarrow> 'f list) \<Rightarrow> 'f gen \<Rightarrow> 'f gen \<Rightarrow> bool" where
  "waits pid g g' \<longleftrightarrow> potential g' < potential g \<or>
     potential g' = potential g \<and> checks g \<le> checks g' \<and> (\<forall>k. checks g \<le> k \<and> k < checks g' \<longrightarrow> pid k = []) \<and>
     tuning_batch_qps (climb g') = tuning_batch_qps (climb g) \<and> tuning_gpu_qps (climb g') = tuning_gpu_qps (climb g)"

definition looks :: "'f gen \<Rightarrow> 'f gen \<Rightarrow> bool" where
  "looks g g' \<longleftrightarrow> potential g' < potential g \<or> checks g < checks g' \<or> \<not> tuning_batch_qps (climb g) \<and> \<not> tuning_gpu_qps (climb g)"

lemma waits_refl [simp]: "waits pid g g"
  by (auto simp: waits_def)

lemma waits_trans: "waits pid g h \<Longrightarrow> waits pid h k \<Longrightarrow> waits pid g k"
  unfolding waits_def by (smt (verit) le_trans less_trans not_less)

lemma climb_batch_run:
  assumes "gen_ok g" "model_gpu args \<and> tune_gpu_qps args \<longrightarrow> gpu_configs args \<noteq> []"
  shows "\<exists>g'. climb_batch np args pid g = Inr g' \<and> gen_ok g' \<and> waits pid g g' \<and> (tuning_batch_qps (climb g) \<longrightarrow> looks g g') \<and>
     epoch g' = epoch g \<and> exp_epochs g' = exp_epochs g"
proof (cases "tuning_batch_qps (climb g)")
  case False
  then show ?thesis using assms(1) by (simp add: climb_batch_def)
next
  case True
  note t = this
  show ?thesis
  proof (cases "pid (checks g)")
    case Nil
    let ?g = "g\<lparr>checks := checks g + 1\<rparr>"
    have "climb_batch np args pid g = Inr ?g" using t Nil by (simp add: climb_batch_def)
    moreover have "gen_ok ?g" "potential ?g = potential g" using assms(1) unfolding gen_ok_def potential_def gpu_climb_def by simp_all
    moreover from this(2) have "waits pid g ?g" "looks g ?g" using Nil by (auto simp: waits_def looks_def less_Suc_eq)
    ultimately show ?thesis by simp
  next
    case (Cons lat rest)
    have c: "climbing np args (batch_configs args) (climb g)" "\<not> tuning_gpu_qps (climb g)" "sub_task (climb g) \<in> set (batch_configs args)"
      using assms(1) t by (simp_all add: gen_ok_def)
    from HillClimbing_run [OF c(1), of lat] t c obtain c' b where h: "HillClimbing np args (batch_configs args) lat (climb g) = Inr (c', b)"
      "if tuning_batch_qps c' \<and> \<not> tuning_gpu_qps c'
       then climbing np args (batch_configs args) c' \<and> steps_left args (batch_configs args) c' < steps_left args (batch_configs args) (climb g) \<and> sub_task c' \<in> set (batch_configs args)
       else \<not> tuning_batch_qps c' \<and> \<not> tuning_gpu_qps c' \<and> best_config (batch_configs args) (config_qps c') (sub_task c')"
      by (auto split: if_splits)
    let ?g = "g\<lparr>climb := c', checks := checks g + 1, events := events g @ drained b\<rparr>"
    show ?thesis
    proof (cases "tuning_batch_qps c'")
      case True
      then have "climb_batch np args pid g = Inr ?g" using t Cons h(1) by (simp add: climb_batch_def)
      moreover have "gen_ok ?g" "potential ?g < potential g" using True t h(2) by (auto simp: gen_ok_def potential_def split: if_splits)
      ultimately show ?thesis by (simp add: waits_def looks_def)
    next
      case False
      let ?t = "model_gpu args \<and> tune_gpu_qps args"
      let ?h = "?g\<lparr>climb := c'\<lparr>qps_tried := 0, arr_id := nearest_rate np args, tried_arrival_rates := [], tuning_gpu_qps := ?t\<rparr>,
        gpu_config_qps := [], gpu_config_attempt := 0\<rparr>"
      have f: "\<not> tuning_gpu_qps c'" "best_config (batch_configs args) (config_qps c') (sub_task c')" using False h(2) by (simp_all split: if_splits)
      have "climb_batch np args pid g = Inr ?h" using t Cons h(1) False f(1) by (simp add: climb_batch_def)
      moreover have "gen_ok ?h" using False f(2) assms(2) nearest_bounds by (auto simp: gen_ok_def climbing_def gpu_climb_def)
      moreover have "potential ?h \<le> length (gpu_configs args) * (sched_timeout args + 1)"
        using False by (simp add: potential_def steps_left_def gpu_climb_def)
      moreover have "length (gpu_configs args) * (sched_timeout args + 1) < potential g"
        using t steps_left_pos [OF c(1)] by (simp add: potential_def)
      ultimately show ?thesis by (simp add: waits_def looks_def)
    qed
  qed
qed

lemma climb_gpu_run:
  assumes "gen_ok g"
  shows "\<exists>g'. climb_gpu np args pid g = Inr g' \<and> gen_ok g' \<and> waits pid g g' \<and> (\<not> tuning_batch_qps (climb g) \<longrightarrow> looks g g') \<and>
     epoch g' = epoch g \<and> exp_epochs g' = exp_epochs g"
proof (cases "model_gpu args \<and> tuning_gpu_qps (climb g)")
  case False
  then have "\<not> tuning_batch_qps (climb g) \<longrightarrow> \<not> tuning_gpu_qps (climb g)" using assms by (auto simp: gen_ok_def)
  then show ?thesis using False assms by (auto simp: climb_gpu_def looks_def)
next
  case True
  then have t: "\<not> tuning_batch_qps (climb g)" using assms by (auto simp: gen_ok_def)
  with True assms have c: "best_config (batch_configs args) (config_qps (climb g)) (sub_task (climb g))" "climbing np args (gpu_configs args) (gpu_climb g)"
    by (simp_all add: gen_ok_def)
  show ?thesis
  proof (cases "pid (checks g)")
    case Nil
    let ?g = "g\<lparr>checks := checks g + 1\<rparr>"
    have "climb_gpu np args pid g = Inr ?g" using True Nil by (simp add: climb_gpu_def)
    moreover have "gen_ok ?g" "potential ?g = potential g" using assms unfolding gen_ok_def potential_def gpu_climb_def by simp_all
    moreover from this(2) have "waits pid g ?g" "looks g ?g" using Nil by (auto simp: waits_def looks_def less_Suc_eq)
    ultimately show ?thesis by simp
  next
    case (Cons lat rest)
    have f: "\<not> tuning_batch_qps (gpu_climb g)" "tuning_gpu_qps (gpu_climb g)" "sub_task (gpu_climb g) = sub_task (climb g)"
      using True t by (simp_all add: gpu_climb_def)
    from HillClimbing_run [OF c(2), of lat] f obtain c' b where h: "HillClimbing np args (gpu_configs args) lat (gpu_climb g) = Inr (c', b)"
      "\<not> tuning_batch_qps c'" "sub_task c' = sub_task (climb g)"
      "tuning_gpu_qps c' \<longrightarrow> climbing np args (gpu_configs args) c' \<and> steps_left args (gpu_configs args) c' < steps_left args (gpu_configs args) (gpu_climb g)"
      by (auto split: if_splits)
    let ?g = "g\<lparr>climb := c'\<lparr>config_qps := config_qps (climb g), config_attempt := config_attempt (climb g)\<rparr>,
      gpu_config_qps := config_qps c', gpu_config_attempt := config_attempt c', checks := checks g + 1, events := events g @ drained b\<rparr>"
    have e: "gpu_climb ?g = c'" by (simp add: gpu_climb_def)
    have "climb_gpu np args pid g = Inr ?g" using True Cons h(1) by (simp add: climb_gpu_def gpu_climb_def)
    moreover have "gen_ok ?g" using True h(2-4) c(1) unfolding gen_ok_def e by simp
    moreover have "potential ?g < potential g"
      using True t h(2,4) steps_left_pos [OF c(2)] unfolding potential_def e by auto
    ultimately show ?thesis by (simp add: waits_def looks_def)
  qed
qed

lemma looks_waits: "looks g h \<Longrightarrow> waits pid g h \<Longrightarrow> waits pid h k \<Longrightarrow> looks g k"
  by (auto simp: waits_def looks_def)

lemma waits_looks: "waits pid g h \<Longrightarrow> looks h k \<Longrightarrow> waits pid h k \<Longrightarrow> looks g k"
  by (auto simp: waits_def looks_def)

text \<open>The batch sizes and the configurations are positive, so no partition runs forever.\<close>

lemma load_batch_run:
  assumes "gen_ok g" "model_gpu args \<and> tune_gpu_qps args \<longrightarrow> gpu_configs args \<noteq> []" "sizes_ok args sizes" "\<forall>x \<in> set (batch_configs args). 0 < x"
    and "b < num_batches args"
  shows "\<exists>g'. load_batch np args pid sizes b g = Some (Inr g') \<and> gen_ok g' \<and> waits pid g g' \<and> looks g g' \<and> epoch g' = epoch g \<and> exp_epochs g' = exp_epochs g"
proof -
  from climb_batch_run [OF assms(1,2), of pid] obtain h where
    h: "climb_batch np args pid g = Inr h" "gen_ok h" "waits pid g h" "tuning_batch_qps (climb g) \<longrightarrow> looks g h" "epoch h = epoch g" "exp_epochs h = exp_epochs g" by blast
  from climb_gpu_run [OF h(2), of pid] obtain k where
    k: "climb_gpu np args pid h = Inr k" "gen_ok k" "waits pid h k" "\<not> tuning_batch_qps (climb h) \<longrightarrow> looks h k" "epoch k = epoch h" "exp_epochs k = exp_epochs h" by blast
  have l: "looks g k"
  proof (cases "tuning_batch_qps (climb g)")
    case True
    then show ?thesis using h(3,4) k(3) looks_waits by blast
  next
    case False
    then have "h = g" using h(1) by (simp add: climb_batch_def)
    then show ?thesis using False k(4) by simp
  qed
  have n: "b < length sizes" "0 \<le> sizes ! b" using assms(3,5) by (auto simp: sizes_ok_def)
  have "sub_task (climb k) \<in> set (batch_configs args)"
    using k(2) by (auto simp: gen_ok_def best_config_def split: if_splits)
  then have "0 < sub_task (climb k)" using assms(4) by blast
  from send_request_run [OF this n(2), of args b] obtain cs c u ev where
    s: "send_request args b (sizes ! b) k = Some (Inr (k\<lparr>cpu_sub_requests := cpu_sub_requests k + cs, cpu_requests := cpu_requests k + c, gpu_requests := gpu_requests k + u, events := ev\<rparr>))"
    (is "_ = Some (Inr ?g)") by blast
  have e: "gen_ok ?g = gen_ok k" "waits pid g ?g = waits pid g k" "looks g ?g = looks g k"
    by (simp_all add: gen_ok_def waits_def looks_def potential_def gpu_climb_def)
  have "load_batch np args pid sizes b g = Some (Inr ?g)" using h(1) k(1) n(1) s by (simp add: load_batch_def)
  then show ?thesis using e k(2,5,6) l waits_trans [OF h(3) k(3)] h(5,6) by (intro exI [of _ ?g]) simp
qed

lemma load_epoch_run:
  assumes "gen_ok g" "model_gpu args \<and> tune_gpu_qps args \<longrightarrow> gpu_configs args \<noteq> []" "sizes_ok args sizes" "\<forall>x \<in> set (batch_configs args). 0 < x"
    and "0 < num_batches args"
  shows "\<exists>g'. load_epoch np args pid sizes g = Some (Inr g') \<and> gen_ok g' \<and> waits pid g g' \<and> looks g g' \<and>
     exp_epochs g' = (if tuning_batch_qps (climb g') \<or> tuning_gpu_qps (climb g') then exp_epochs g else exp_epochs g + 1)"
proof -
  let ?P = "\<lambda>i h. gen_ok h \<and> waits pid g h \<and> (if i = 0 then h = g else looks g h) \<and> exp_epochs h = exp_epochs g"
  have "\<exists>h. run_for (load_batch np args pid sizes) [0..<num_batches args] g = Some (Inr h) \<and> ?P (num_batches args) h"
  proof (rule run_for_range [where P = ?P])
    fix i h
    assume i: "i < num_batches args" and P: "?P i h"
    from load_batch_run [OF _ assms(2-4) i, of h pid] P obtain k where
      k: "load_batch np args pid sizes i h = Some (Inr k)" "gen_ok k" "waits pid h k" "looks h k" "exp_epochs k = exp_epochs h" by auto
    have "waits pid g k" using P k(3) waits_trans by blast
    moreover have "looks g k" using P k(3,4) looks_waits by (cases "i = 0") auto
    ultimately show "\<exists>k. load_batch np args pid sizes i h = Some (Inr k) \<and> ?P (Suc i) k" using k P by auto
  qed (use assms(1) in simp)
  then obtain h where h: "run_for (load_batch np args pid sizes) [0..<num_batches args] g = Some (Inr h)"
    "gen_ok h" "waits pid g h" "looks g h" "exp_epochs h = exp_epochs g" using assms(5) by auto
  let ?g = "h\<lparr>epoch := epoch h + 1, exp_epochs := (if \<not> tuning_batch_qps (climb h) \<and> \<not> tuning_gpu_qps (climb h) then exp_epochs h + 1 else exp_epochs h)\<rparr>"
  have e: "gen_ok ?g = gen_ok h" "waits pid g ?g = waits pid g h" "looks g ?g = looks g h"
    by (simp_all add: gen_ok_def waits_def looks_def potential_def gpu_climb_def)
  have "load_epoch np args pid sizes g = Some (Inr ?g)" using h(1) by (simp add: load_epoch_def)
  then show ?thesis using e h(2-5) by (intro exI [of _ ?g]) simp
qed

text \<open>The next look into the queue of latencies that finds one.\<close>

definition next_pid :: "(nat \<Rightarrow> 'f list) \<Rightarrow> nat \<Rightarrow> nat" where
  "next_pid pid n = (LEAST k. n \<le> k \<and> pid k \<noteq> [])"

lemma next_pid_le:
  assumes "\<forall>n. \<exists>k\<ge>n. pid k \<noteq> []"
  shows "n \<le> next_pid pid n"
  using LeastI_ex [of "\<lambda>k. n \<le> k \<and> pid k \<noteq> []"] assms by (auto simp: next_pid_def)

lemma next_pid_same:
  assumes "n \<le> m" "\<forall>k. n \<le> k \<and> k < m \<longrightarrow> pid k = []"
  shows "next_pid pid m = next_pid pid n"
proof -
  have "(\<lambda>k. m \<le> k \<and> pid k \<noteq> []) = (\<lambda>k. n \<le> k \<and> pid k \<noteq> [])" using assms by (intro ext) (meson le_trans not_le)
  then show ?thesis by (simp add: next_pid_def)
qed

definition load_measure :: "(nat \<Rightarrow> 'f list) \<Rightarrow> 'f gen \<Rightarrow> nat \<times> nat \<times> nat" where
  "load_measure pid g = (potential g, next_pid pid (checks g) - checks g, nepochs args - exp_epochs g)"

lemma epoch_decreases:
  assumes "waits pid g g'" "looks g g'" "tuning_batch_qps (climb g) \<or> exp_epochs g < nepochs args" "\<forall>n. \<exists>k\<ge>n. pid k \<noteq> []"
    and "exp_epochs g' = (if tuning_batch_qps (climb g') \<or> tuning_gpu_qps (climb g') then exp_epochs g else exp_epochs g + 1)"
  shows "(load_measure pid g', load_measure pid g) \<in> less_than <*lex*> less_than <*lex*> less_than"
proof (cases "potential g' < potential g")
  case True
  then show ?thesis by (simp add: load_measure_def)
next
  case False
  then have w: "potential g' = potential g" "checks g \<le> checks g'" "\<forall>k. checks g \<le> k \<and> k < checks g' \<longrightarrow> pid k = []"
    "tuning_batch_qps (climb g') = tuning_batch_qps (climb g)" "tuning_gpu_qps (climb g') = tuning_gpu_qps (climb g)"
    using assms(1) by (simp_all add: waits_def)
  have n: "next_pid pid (checks g') = next_pid pid (checks g)" "checks g' \<le> next_pid pid (checks g)"
    using next_pid_same [OF w(2,3)] next_pid_le [OF assms(4), of "checks g'"] by simp_all
  show ?thesis
  proof (cases "tuning_batch_qps (climb g) \<or> tuning_gpu_qps (climb g)")
    case True
    then have "checks g < checks g'" using assms(2) w(1) by (auto simp: looks_def)
    then show ?thesis using w(1) n by (simp add: load_measure_def) linarith
  next
    case False
    then have "exp_epochs g' = exp_epochs g + 1" "exp_epochs g < nepochs args" using assms(3,5) w(4,5) by auto
    then show ?thesis using w(1,2) n by (simp add: load_measure_def) linarith
  qed
qed

lemma load_loop_returns:
  assumes "model_gpu args \<and> tune_gpu_qps args \<longrightarrow> gpu_configs args \<noteq> []" "sizes_ok args sizes" "\<forall>x \<in> set (batch_configs args). 0 < x"
    and "0 < num_batches args" "\<forall>n. \<exists>k\<ge>n. pid k \<noteq> []" "gen_ok g"
  shows "\<exists>g'. load_loop np args pid sizes g = Some (Inr g') \<and> gen_ok g' \<and> \<not> tuning_batch_qps (climb g') \<and> nepochs args \<le> exp_epochs g'"
  using assms(6)
proof (induction "load_measure pid g" arbitrary: g rule: wf_induct_rule [OF wf_lex_prod [OF wf_less_than wf_lex_prod [OF wf_less_than wf_less_than]]])
  case 1
  show ?case
  proof (cases "tuning_batch_qps (climb g) \<or> exp_epochs g < nepochs args")
    case False
    then show ?thesis using 1(2) by (subst load_loop.simps) simp
  next
    case True
    from load_epoch_run [OF 1(2) assms(1-4), of pid] obtain h where
      h: "load_epoch np args pid sizes g = Some (Inr h)" "gen_ok h" "waits pid g h" "looks g h"
        "exp_epochs h = (if tuning_batch_qps (climb h) \<or> tuning_gpu_qps (climb h) then exp_epochs g else exp_epochs g + 1)" by blast
    from 1(1) [OF epoch_decreases [OF h(3,4) True assms(5) h(5)] h(2)] h(1) True show ?thesis by (subst load_loop.simps) simp
  qed
qed

lemma start_gen_ok:
  assumes "tune_batch_qps args" "batch_configs args \<noteq> []"
  shows "gen_ok (start_gen np args (batch_configs args ! 0))"
  using assms nearest_bounds by (simp add: gen_ok_def start_gen_def climbing_def)

lemma search_run:
  assumes "tune_batch_qps args" "batch_configs args \<noteq> []" "\<forall>x \<in> set (batch_configs args). 0 < x"
    and "model_gpu args \<and> tune_gpu_qps args \<longrightarrow> gpu_configs args \<noteq> []" "sizes_ok args sizes" "0 < num_batches args" "\<forall>n. \<exists>k\<ge>n. pid k \<noteq> []"
  shows "\<exists>g. load_loop np args pid sizes (start_gen np args (batch_configs args ! 0)) = Some (Inr g) \<and>
     best_config (batch_configs args) (config_qps (climb g)) (sub_task (climb g)) \<and>
     loadGenerator np args pid sizes = Some (Inr (events g @ done_signals args, cpu_sub_requests g, cpu_requests g, gpu_requests g))"
proof -
  from load_loop_returns [OF assms(4,5,3,6,7) start_gen_ok [OF assms(1,2)]] obtain g where
    g: "load_loop np args pid sizes (start_gen np args (batch_configs args ! 0)) = Some (Inr g)" "gen_ok g" "\<not> tuning_batch_qps (climb g)" by blast
  moreover have "py_nth (batch_configs args) 0 = Inr (batch_configs args ! 0)" using assms(2) py_nth_nat [of 0 "batch_configs args"] by simp
  ultimately show ?thesis using assms(1) by (simp add: loadGenerator_def gen_ok_def)
qed

end

section \<open>A reference for numpy\<close>

definition list_np :: "'f \<Rightarrow> 'f list \<Rightarrow> 'f :: linordered_field climb_np" where
  "list_np r rs = \<lparr>np_argmin = (\<lambda>xs. length (takeWhile (\<lambda>x. x \<noteq> Min (set xs)) xs)),
     np_median = (\<lambda>xs. let s = sort xs; n = length xs in if odd n then s ! (n div 2) else (s ! (n div 2 - 1) + s ! (n div 2)) / 2),
     arrival_rates = r # rs\<rparr>"

lemma takeWhile_less: "\<exists>x \<in> set xs. \<not> P x \<Longrightarrow> length (takeWhile P xs) < length xs"
  by (induction xs) auto

lemma list_argmin:
  fixes xs :: "'f :: linorder list"
  assumes "xs \<noteq> []"
  shows "length (takeWhile (\<lambda>x. x \<noteq> Min (set xs)) xs) < length xs \<and> xs ! length (takeWhile (\<lambda>x. x \<noteq> Min (set xs)) xs) = Min (set xs)"
proof -
  have "Min (set xs) \<in> set xs" using assms by simp
  then have "length (takeWhile (\<lambda>x. x \<noteq> Min (set xs)) xs) < length xs" by (intro takeWhile_less) auto
  moreover from nth_length_takeWhile [OF this] have "xs ! length (takeWhile (\<lambda>x. x \<noteq> Min (set xs)) xs) = Min (set xs)" by simp
  ultimately show ?thesis by blast
qed

interpretation lnp: climb_laws "list_np r rs" args for r rs args
  by unfold_locales (use list_argmin in \<open>auto simp: list_np_def\<close>)

section \<open>Properties\<close>

text \<open>
  C27: The partition of a request returns exactly for a positive task size, or for an empty request; a task size
  of zero or less makes the loop run forever. What it returns are tasks of at least one and at most the
  task size, as few as possible, that add up to the request.
\<close>

theorem partition_exact:
  assumes "0 \<le> n"
  shows "((\<exists>bs. partition_requests sub n [] = Some bs) \<longleftrightarrow> 0 < sub \<or> n = 0) \<and>
    (\<forall>bs. partition_requests sub n [] = Some bs \<longrightarrow> sum_list bs = n \<and> (\<forall>x \<in> set bs. 0 < x \<and> x \<le> sub) \<and>
      (0 < sub \<longrightarrow> length bs = nat ((n + sub - 1) div sub)))"
proof (cases "0 < sub")
  case True
  have p: "partition_requests sub n [] = Some (parts sub n)" using partition_run [OF True assms, of "[]"] by simp
  have "\<forall>x \<in> set (parts sub n). 0 < x \<and> x \<le> sub" using set_parts [OF True assms] by blast
  then show ?thesis unfolding p using True sum_parts [OF True assms] length_parts [OF True assms] by blast
next
  case False
  show ?thesis
  proof (cases "n = 0")
    case True
    then have "partition_requests sub n [] = Some []" by (subst partition_requests.simps) simp
    then show ?thesis using True False by simp
  next
    case n: False
    then have "partition_requests sub n [] = None" using False assms by (intro partition_diverges) simp_all
    then show ?thesis using False n by simp
  qed
qed

theorem partition_exact_witness:
  "(\<exists>bs. partition_requests 16 40 [] = Some bs \<and> sum_list bs = 40 \<and> length bs = 3) \<and> partition_requests 0 40 [] = None"
  using partition_exact [of 40 16] partition_exact [of 40 0] by auto

definition demo_load :: "rat load_args" where
  "demo_load = \<lparr>num_batches = 2, nepochs = 1, inference_engines = 2, mini_batch_size = 4, max_mini_batch_size = 64, sub_task_batch_size = 16,
     model_gpu = False, tune_batch_qps = False, tune_gpu_qps = False, batch_configs = [8, 32], gpu_configs = [], avg_arrival_rate = 10,
     target_latency = 10, stable_region = 1 / 10, sched_timeout = 3, arr_steps = 2\<rparr>"



end
