(* ===== verification/Engine_Pool.thy ===== *)
theory Engine_Pool
  imports Load_Generator "HOL-Library.Multiset"
begin

text \<open>
  The inference engines of \<open>src/RecSSD-RecInfra-fixed.32/inferenceEngine.py\<close> that serve the requests of the
  load generator. The generator, the engines and the thread of each engine that runs its model are
  processes that communicate through queues; a state holds the queues and the position of each process,
  and a step relation lets any of them go on.

  The model itself is Caffe2: what it is fed is recorded. Times, the size of its output and the pauses
  of the engines are left out, so a daemon thread may be stopped by the end of its process at any point.
\<close>

section \<open>Requests and responses\<close>

text \<open>
  \<open>ServiceResponse\<close> of \<open>utils/packets.py\<close>, without the times and the size of the output. The engine does not
  pass on the number of the task.
\<close>

record ServiceResponse =
  consumer_id :: nat
  resp_epoch :: nat
  resp_batch_id :: nat
  resp_batch_size :: int
  resp_total_sub_batches :: nat
  resp_exp_packet :: bool

definition response :: "nat \<Rightarrow> ServiceRequest \<Rightarrow> ServiceResponse" where
  "response i r = \<lparr>consumer_id = i, resp_epoch = req_epoch r, resp_batch_id = req_batch_id r, resp_batch_size = req_batch_size r,
     resp_total_sub_batches = total_sub_batches r, resp_exp_packet = exp_packet r\<rparr>"

text \<open>
  What an engine feeds to its model for a request: the first lengths, indices and dense rows of the batch.
  \<open>lS_l\<close> and \<open>lS_i\<close> are lists of batches of tables.
\<close>

definition engine_input ::
  "nat \<Rightarrow> 'x list list \<Rightarrow> nat list list list \<Rightarrow> int list list list \<Rightarrow> ServiceRequest \<Rightarrow> (int list list \<times> nat list list \<times> 'x list) py" where
  "engine_input num_indices_per_lookup lX lS_l lS_i r =
     (let b = int (req_batch_id r); n = nat (req_batch_size r) in
      py_bind (py_nth lS_l b) (\<lambda>lens.
      py_bind (py_nth lS_i b) (\<lambda>ids.
      py_bind (py_nth lX b) (\<lambda>X.
      Inr (map (take (n * num_indices_per_lookup)) ids, map (take n) lens, take n X)))))"

section \<open>Processes\<close>

text \<open>
  An engine is about to signal that it is ready, to get a request, to stop after it got \<open>None\<close>, to return,
  or its process has ended.
\<close>

datatype engine_pc = At_Ready | At_Get | At_Stop | At_Return | Gone

text \<open>\<open>logging\<close> is the queue \<open>q_inference_logging\<close> between the engine and its thread.\<close>

record 'i engine =
  pc :: engine_pc
  served :: "ServiceRequest list"
  fed :: "'i list"
  logging :: "ServiceResponse option list"

record 'i pool =
  todo :: "load_event list"
  missing :: nat
  ready :: nat
  requestQueue :: "ServiceRequest option list"
  gpuRequestQueue :: "ServiceRequest option list"
  engines :: "'i engine list"
  responseQueue :: "ServiceResponse option list"

definition set_engine :: "nat \<Rightarrow> 'i engine \<Rightarrow> 'i pool \<Rightarrow> 'i pool" where
  "set_engine i e s = s\<lparr>engines := (engines s)[i := e]\<rparr>"

text \<open>
  The generator waits for as many ready signals as there are engines and then goes on with its operations.
  An engine that cannot prepare its input raises, and its process ends. The thread passes the responses on
  until it gets \<open>None\<close> or its process ends.
\<close>

inductive pool_step :: "(ServiceRequest \<Rightarrow> 'i py) \<Rightarrow> 'i pool \<Rightarrow> 'i pool \<Rightarrow> bool" for inp where
  gen_collect: "0 < missing s \<Longrightarrow> 0 < ready s \<Longrightarrow> pool_step inp s (s\<lparr>missing := missing s - 1, ready := ready s - 1\<rparr>)"
| gen_put: "missing s = 0 \<Longrightarrow> todo s = Put r # es \<Longrightarrow> pool_step inp s (s\<lparr>todo := es, requestQueue := requestQueue s @ [r]\<rparr>)"
| gen_gpu_put: "missing s = 0 \<Longrightarrow> todo s = Gpu_Put r # es \<Longrightarrow> pool_step inp s (s\<lparr>todo := es, gpuRequestQueue := gpuRequestQueue s @ [r]\<rparr>)"
| gen_drop: "missing s = 0 \<Longrightarrow> todo s = Drain # es \<Longrightarrow> 500 < length (requestQueue s) \<Longrightarrow> pool_step inp s (s\<lparr>requestQueue := tl (requestQueue s)\<rparr>)"
| gen_gpu_drop: "missing s = 0 \<Longrightarrow> todo s = Drain # es \<Longrightarrow> 500 < length (gpuRequestQueue s) \<Longrightarrow>
    pool_step inp s (s\<lparr>gpuRequestQueue := tl (gpuRequestQueue s)\<rparr>)"
| gen_drained: "missing s = 0 \<Longrightarrow> todo s = Drain # es \<Longrightarrow> requestQueue s = [] \<Longrightarrow> gpuRequestQueue s = [] \<Longrightarrow> pool_step inp s (s\<lparr>todo := es\<rparr>)"
| eng_ready: "i < length (engines s) \<Longrightarrow> e = engines s ! i \<Longrightarrow> pc e = At_Ready \<Longrightarrow>
    pool_step inp s (set_engine i (e\<lparr>pc := At_Get\<rparr>) (s\<lparr>ready := ready s + 1\<rparr>))"
| eng_get: "i < length (engines s) \<Longrightarrow> e = engines s ! i \<Longrightarrow> pc e = At_Get \<Longrightarrow> requestQueue s = Some r # q \<Longrightarrow> inp r = Inr x \<Longrightarrow>
    pool_step inp s (set_engine i (e\<lparr>pc := At_Ready, served := served e @ [r], fed := fed e @ [x], logging := logging e @ [Some (response i r)]\<rparr>)
      (s\<lparr>requestQueue := q\<rparr>))"
| eng_raise: "i < length (engines s) \<Longrightarrow> e = engines s ! i \<Longrightarrow> pc e = At_Get \<Longrightarrow> requestQueue s = Some r # q \<Longrightarrow> inp r = Inl err \<Longrightarrow>
    pool_step inp s (set_engine i (e\<lparr>pc := Gone\<rparr>) (s\<lparr>requestQueue := q\<rparr>))"
| eng_stop: "i < length (engines s) \<Longrightarrow> e = engines s ! i \<Longrightarrow> pc e = At_Get \<Longrightarrow> requestQueue s = None # q \<Longrightarrow>
    pool_step inp s (set_engine i (e\<lparr>pc := At_Stop\<rparr>) (s\<lparr>requestQueue := q\<rparr>))"
| eng_close: "i < length (engines s) \<Longrightarrow> e = engines s ! i \<Longrightarrow> pc e = At_Stop \<Longrightarrow>
    pool_step inp s (set_engine i (e\<lparr>pc := At_Return, logging := logging e @ [None]\<rparr>) (s\<lparr>responseQueue := responseQueue s @ [None]\<rparr>))"
| eng_exit: "i < length (engines s) \<Longrightarrow> e = engines s ! i \<Longrightarrow> pc e = At_Return \<Longrightarrow> pool_step inp s (set_engine i (e\<lparr>pc := Gone\<rparr>) s)"
| thread_respond: "i < length (engines s) \<Longrightarrow> e = engines s ! i \<Longrightarrow> pc e \<noteq> Gone \<Longrightarrow> logging e = Some r # l \<Longrightarrow>
    pool_step inp s (set_engine i (e\<lparr>logging := l\<rparr>) (s\<lparr>responseQueue := responseQueue s @ [Some r]\<rparr>))"
| thread_end: "i < length (engines s) \<Longrightarrow> e = engines s ! i \<Longrightarrow> pc e \<noteq> Gone \<Longrightarrow> logging e = None # l \<Longrightarrow>
    pool_step inp s (set_engine i (e\<lparr>logging := l\<rparr>) s)"

definition start_pool :: "nat \<Rightarrow> load_event list \<Rightarrow> 'i pool" where
  "start_pool n es = \<lparr>todo = es, missing = n, ready = 0, requestQueue = [], gpuRequestQueue = [],
     engines = replicate n \<lparr>pc = At_Ready, served = [], fed = [], logging = []\<rparr>, responseQueue = []\<rparr>"

definition all_served :: "'i pool \<Rightarrow> ServiceRequest list" where
  "all_served s = concat (map served (engines s))"

section \<open>Steps end\<close>

fun pc_weight :: "engine_pc \<Rightarrow> nat" where
  "pc_weight At_Ready = 6"
| "pc_weight At_Get = 5"
| "pc_weight At_Stop = 3"
| "pc_weight At_Return = 1"
| "pc_weight Gone = 0"

definition engine_work :: "'i engine \<Rightarrow> nat" where
  "engine_work e = pc_weight (pc e) + length (logging e)"

definition queue_work :: "'i pool \<Rightarrow> nat" where
  "queue_work s = missing s + 4 * length (todo s) + 3 * length (requestQueue s) + length (gpuRequestQueue s)"

definition pool_work :: "'i pool \<Rightarrow> nat" where
  "pool_work s = queue_work s + sum_list (map engine_work (engines s))"

lemma sum_list_update_at:
  fixes f :: "'e \<Rightarrow> 'a :: comm_monoid_add"
  assumes "i < length es"
  shows "sum_list (map f (es[i := e])) + f (es ! i) = sum_list (map f es) + f e"
  using assms
proof (induction es arbitrary: i)
  case (Cons a es)
  show ?case
  proof (cases i)
    case (Suc j)
    then show ?thesis using Cons.IH [of j] Cons.prems by (simp add: add.assoc)
  qed (simp add: ac_simps)
qed simp

lemma set_engine_work:
  assumes "i < length (engines s)" "engines t = engines s" "queue_work t + engine_work e < queue_work s + engine_work (engines s ! i)"
  shows "pool_work (set_engine i e t) < pool_work s"
proof -
  have "queue_work (set_engine i e t) = queue_work t" by (simp add: queue_work_def set_engine_def)
  moreover have "sum_list (map engine_work (engines (set_engine i e t))) + engine_work (engines s ! i) = sum_list (map engine_work (engines s)) + engine_work e"
    using sum_list_update_at [OF assms(1), of engine_work e] assms(2) by (simp add: set_engine_def)
  ultimately show ?thesis using assms(3) by (simp add: pool_work_def)
qed

lemma pool_step_work: "pool_step inp s s' \<Longrightarrow> pool_work s' < pool_work s"
  by (induction rule: pool_step.induct)
    ((rule set_engine_work; simp add: queue_work_def engine_work_def) | (simp add: pool_work_def queue_work_def))+

section \<open>Invariants\<close>

primrec somes :: "'a option list \<Rightarrow> 'a list" where
  "somes [] = []"
| "somes (x # xs) = (case x of None \<Rightarrow> somes xs | Some y \<Rightarrow> y # somes xs)"

lemma somes_append [simp]: "somes (xs @ ys) = somes xs @ somes ys"
  by (induction xs) (simp_all split: option.split)

lemma somes_map_Some [simp]: "somes (map Some xs) = xs" "somes (replicate n None) = []"
  by (induction xs) (simp_all, induction n, simp_all)

fun stopping :: "engine_pc \<Rightarrow> bool" where
  "stopping At_Ready = False"
| "stopping At_Get = False"
| "stopping _ = True"

definition count_engines :: "(engine_pc \<Rightarrow> bool) \<Rightarrow> 'i pool \<Rightarrow> nat" where
  "count_engines P s = sum_list (map (\<lambda>e. if P (pc e) then 1 else 0) (engines s))"

definition served_mset :: "'i pool \<Rightarrow> ServiceRequest multiset" where
  "served_mset s = sum_list (map (\<lambda>e. mset (served e)) (engines s))"

lemma count_set_engine:
  assumes "i < length (engines s)" "engines t = engines s"
  shows "count_engines P (set_engine i e t) + (if P (pc (engines s ! i)) then 1 else 0) = count_engines P s + (if P (pc e) then 1 else 0)"
  using sum_list_update_at [OF assms(1), of "\<lambda>e. if P (pc e) then 1 else 0 :: nat" e] assms(2) by (simp add: count_engines_def set_engine_def)

lemma served_set_engine:
  assumes "i < length (engines s)" "engines t = engines s"
  shows "served_mset (set_engine i e t) + mset (served (engines s ! i)) = served_mset s + mset (served e)"
  using sum_list_update_at [OF assms(1), of "\<lambda>e. mset (served e)" e] assms(2) by (simp add: served_mset_def set_engine_def)

lemma set_engine_simps [simp]:
  "todo (set_engine i e s) = todo s" "missing (set_engine i e s) = missing s" "ready (set_engine i e s) = ready s"
  "requestQueue (set_engine i e s) = requestQueue s" "responseQueue (set_engine i e s) = responseQueue s"
  "engines (set_engine i e s) = (engines s)[i := e]"
  by (simp_all add: set_engine_def)

lemma pool_rest_simps [simp]:
  "count_engines P (s\<lparr>todo := a\<rparr>) = count_engines P s" "count_engines P (s\<lparr>missing := b\<rparr>) = count_engines P s"
  "count_engines P (s\<lparr>ready := c\<rparr>) = count_engines P s" "count_engines P (s\<lparr>requestQueue := q\<rparr>) = count_engines P s"
  "served_mset (s\<lparr>todo := a\<rparr>) = served_mset s" "served_mset (s\<lparr>missing := b\<rparr>) = served_mset s"
  "served_mset (s\<lparr>ready := c\<rparr>) = served_mset s" "served_mset (s\<lparr>requestQueue := q\<rparr>) = served_mset s"
  by (simp_all add: count_engines_def served_mset_def)

text \<open>
  What was taken from the queue, what is in it and what is still to be put are together the requests
  followed by the stop signals. The engines served what was taken, and one stopped for each signal.
\<close>

definition queue_inv :: "ServiceRequest list \<Rightarrow> nat \<Rightarrow> 'i pool \<Rightarrow> bool" where
  "queue_inv rs n s \<longleftrightarrow> (\<exists>taken xs. todo s = map Put xs \<and> taken @ requestQueue s @ xs = map Some rs @ replicate n None \<and>
     served_mset s = mset (somes taken) \<and> count_engines stopping s = count_list taken None \<and> (0 < missing s \<longrightarrow> taken = []))"

text \<open>Before the generator starts, each engine has sent at most one ready signal and waits for a request.\<close>

definition start_inv :: "nat \<Rightarrow> 'i pool \<Rightarrow> bool" where
  "start_inv n s \<longleftrightarrow> length (engines s) = n \<and>
     (0 < missing s \<longrightarrow> requestQueue s = [] \<and> missing s \<le> n \<and> ready s + (n - missing s) = count_engines (\<lambda>p. p = At_Get) s)"

text \<open>The responses of an engine, sent or waiting for its thread, are those to what it served, in order.\<close>

definition answered :: "nat \<Rightarrow> 'i pool \<Rightarrow> ServiceResponse list" where
  "answered i s = filter (\<lambda>x. consumer_id x = i) (somes (responseQueue s))"

definition answer_inv :: "'i pool \<Rightarrow> bool" where
  "answer_inv s \<longleftrightarrow> (\<forall>i<length (engines s). answered i s @ somes (logging (engines s ! i)) = map (response i) (served (engines s ! i)))"

lemma queue_inv_same:
  assumes "queue_inv rs n s" "i < length (engines s)" "engines t = engines s" "todo t = todo s" "requestQueue t = requestQueue s" "missing t = missing s"
    and "served e = served (engines s ! i)" "stopping (pc e) = stopping (pc (engines s ! i))"
  shows "queue_inv rs n (set_engine i e t)"
proof -
  have "served_mset (set_engine i e t) = served_mset s" using served_set_engine [OF assms(2,3), of e] assms(7) by simp
  moreover have "count_engines stopping (set_engine i e t) = count_engines stopping s"
    using count_set_engine [OF assms(2,3), of stopping e] assms(8) by (simp split: if_splits)
  ultimately show ?thesis using assms(1,4-6) by (simp add: queue_inv_def)
qed

lemma queue_inv_step:
  assumes "pool_step inp s s'" "queue_inv rs n s" "start_inv n s" "\<forall>r \<in> set rs. \<exists>x. inp r = Inr x"
  shows "queue_inv rs n s'"
  using assms(1-3)
proof (induction rule: pool_step.induct)
  case (gen_put s r es)
  then obtain taken xs where t: "es = map Put xs" "taken @ requestQueue s @ r # xs = map Some rs @ replicate n None"
    "served_mset s = mset (somes taken)" "count_engines stopping s = count_list taken None" by (auto simp: queue_inv_def Cons_eq_map_conv)
  then show ?case using gen_put(1) unfolding queue_inv_def by (intro exI [of _ taken] exI [of _ xs]) simp
next
  case (eng_get i s e r q x)
  from eng_get.prems(1) obtain taken xs where t: "todo s = map Put xs" "taken @ requestQueue s @ xs = map Some rs @ replicate n None"
    "served_mset s = mset (somes taken)" "count_engines stopping s = count_list taken None" by (auto simp: queue_inv_def)
  have "missing s = 0" using eng_get(4) eng_get.prems(2) by (auto simp: start_inv_def)
  moreover let ?e = "e\<lparr>pc := At_Ready, served := served e @ [r], fed := fed e @ [x], logging := logging e @ [Some (response i r)]\<rparr>"
    and ?t = "s\<lparr>requestQueue := q\<rparr>"
  have "served_mset (set_engine i ?e ?t) = mset (somes (taken @ [Some r]))"
    using served_set_engine [OF eng_get(1), of ?t ?e] eng_get(2) t(3) by simp
  moreover have "count_engines stopping (set_engine i ?e ?t) = count_list (taken @ [Some r]) None"
    using count_set_engine [OF eng_get(1), of ?t stopping ?e] eng_get(2,3) t(4) by simp
  ultimately show ?case using t(1,2) eng_get(4) unfolding queue_inv_def by (intro exI [of _ "taken @ [Some r]"] exI [of _ xs]) simp
next
  case (eng_raise i s e r q err)
  from eng_raise.prems(1) obtain taken xs where t: "taken @ requestQueue s @ xs = map Some rs @ replicate n None" by (auto simp: queue_inv_def)
  have "Some r \<in> set (taken @ requestQueue s @ xs)" using eng_raise(4) by simp
  then have "r \<in> set rs" unfolding t by auto
  then show ?case using assms(4) eng_raise(5) by force
next
  case (eng_stop i s e q)
  from eng_stop.prems(1) obtain taken xs where t: "todo s = map Put xs" "taken @ requestQueue s @ xs = map Some rs @ replicate n None"
    "served_mset s = mset (somes taken)" "count_engines stopping s = count_list taken None" by (auto simp: queue_inv_def)
  have "missing s = 0" using eng_stop(4) eng_stop.prems(2) by (auto simp: start_inv_def)
  moreover let ?e = "e\<lparr>pc := At_Stop\<rparr>" and ?t = "s\<lparr>requestQueue := q\<rparr>"
  have "served_mset (set_engine i ?e ?t) = mset (somes (taken @ [None]))"
    using served_set_engine [OF eng_stop(1), of ?t ?e] eng_stop(2) t(3) by simp
  moreover have "count_engines stopping (set_engine i ?e ?t) = count_list (taken @ [None]) None"
    using count_set_engine [OF eng_stop(1), of ?t stopping ?e] eng_stop(2,3) t(4) by simp
  ultimately show ?case using t(1,2) eng_stop(4) unfolding queue_inv_def by (intro exI [of _ "taken @ [None]"] exI [of _ xs]) simp
next
  case (gen_collect s)
  then obtain xs where "todo s = map Put xs" "requestQueue s @ xs = map Some rs @ replicate n None" "served_mset s = {#}" "count_engines stopping s = 0"
    by (auto simp: queue_inv_def)
  then show ?case unfolding queue_inv_def by (intro exI [of _ "[]"] exI [of _ xs]) simp
qed ((rule queue_inv_same, auto)[1] | (auto simp: queue_inv_def Cons_eq_map_conv)[1])+

lemma start_inv_step:
  assumes "pool_step inp s s'" "start_inv n s"
  shows "start_inv n s'"
  using assms
proof (induction rule: pool_step.induct)
  case (gen_collect s)
  then show ?case by (auto simp: start_inv_def)
next
  case (eng_ready i s e)
  then show ?case
    using count_set_engine [OF eng_ready(1), of "s\<lparr>ready := ready s + 1\<rparr>" "\<lambda>p. p = At_Get" "e\<lparr>pc := At_Get\<rparr>"] by (auto simp: start_inv_def)
next
  case (eng_close i s e)
  then show ?case
    using count_set_engine [OF eng_close(1), of "s\<lparr>responseQueue := responseQueue s @ [None]\<rparr>" "\<lambda>p. p = At_Get"
        "e\<lparr>pc := At_Return, logging := logging e @ [None]\<rparr>"] by (auto simp: start_inv_def)
next
  case (eng_exit i s e)
  then show ?case using count_set_engine [OF eng_exit(1), of s "\<lambda>p. p = At_Get" "e\<lparr>pc := Gone\<rparr>"] by (auto simp: start_inv_def)
next
  case (thread_respond i s e r l)
  then show ?case
    using count_set_engine [OF thread_respond(1), of "s\<lparr>responseQueue := responseQueue s @ [Some r]\<rparr>" "\<lambda>p. p = At_Get" "e\<lparr>logging := l\<rparr>"]
    by (auto simp: start_inv_def split: if_splits)
next
  case (thread_end i s e l)
  then show ?case using count_set_engine [OF thread_end(1), of s "\<lambda>p. p = At_Get" "e\<lparr>logging := l\<rparr>"] by (auto simp: start_inv_def split: if_splits)
qed (auto simp: start_inv_def)

lemma answer_inv_same:
  assumes "answer_inv s" "i < length (engines s)" "engines t = engines s" "somes (responseQueue t) = somes (responseQueue s)"
    and "map (response i) (served e) = map (response i) (served (engines s ! i)) @ rs" "somes (logging e) = somes (logging (engines s ! i)) @ rs"
  shows "answer_inv (set_engine i e t)"
proof -
  have "answered k (set_engine i e t) = answered k s" for k using assms(4) by (simp add: answered_def)
  moreover have "answered i s @ somes (logging e) = map (response i) (served e)" using assms(1,2,5,6) by (simp add: answer_inv_def)
  ultimately show ?thesis using assms(1-3) by (auto simp: answer_inv_def nth_list_update)
qed

lemma answer_inv_step:
  assumes "pool_step inp s s'" "answer_inv s"
  shows "answer_inv s'"
  using assms
proof (induction rule: pool_step.induct)
  case (thread_respond i s e r l)
  have a: "answered i s @ r # somes l = map (response i) (served e)" using thread_respond by (force simp: answer_inv_def)
  then have "r \<in> set (map (response i) (served e))" by (metis in_set_conv_decomp)
  then have c: "consumer_id r = i" by (auto simp: response_def)
  let ?s = "set_engine i (e\<lparr>logging := l\<rparr>) (s\<lparr>responseQueue := responseQueue s @ [Some r]\<rparr>)"
  have "answered k ?s = (if k = i then answered k s @ [r] else answered k s)" for k using c by (auto simp: answered_def)
  then show ?case using a thread_respond(1,2,5) by (auto simp: answer_inv_def nth_list_update)
next
  case (eng_get i s e r q x)
  then show ?case by (intro answer_inv_same [of s i _ _ "[response i r]"]) simp_all
next
  case (thread_end i s e l)
  then have "somes (logging e) = somes l" by simp
  then show ?case using thread_end(1,2,5) by (intro answer_inv_same [where rs = "[]"]) auto
next
  case (gen_collect s)
  then show ?case by (simp add: answer_inv_def answered_def)
next
  case (gen_put s r es)
  then show ?case by (simp add: answer_inv_def answered_def)
next
  case (gen_gpu_put s r es)
  then show ?case by (simp add: answer_inv_def answered_def)
next
  case (gen_drop s es)
  then show ?case by (simp add: answer_inv_def answered_def)
next
  case (gen_gpu_drop s es)
  then show ?case by (simp add: answer_inv_def answered_def)
next
  case (gen_drained s es)
  then show ?case by (simp add: answer_inv_def answered_def)
qed (rule answer_inv_same [where rs = "[]"], simp_all)+

section \<open>Runs of the pool\<close>

abbreviation pool_events :: "nat \<Rightarrow> ServiceRequest list \<Rightarrow> load_event list" where
  "pool_events n rs \<equiv> map (\<lambda>r. Put (Some r)) rs @ replicate n (Put None)"

definition pool_inv :: "ServiceRequest list \<Rightarrow> nat \<Rightarrow> 'i pool \<Rightarrow> bool" where
  "pool_inv rs n s \<longleftrightarrow> queue_inv rs n s \<and> start_inv n s \<and> answer_inv s"

lemma count_engines_eq: "count_engines P s = length (filter (\<lambda>e. P (pc e)) (engines s))"
proof -
  have "sum_list (map (\<lambda>e. if P (pc e) then 1 else 0) es) = length (filter (\<lambda>e. P (pc e)) es)" for es :: "'i engine list"
    by (induction es) simp_all
  then show ?thesis by (simp add: count_engines_def)
qed

lemma pool_inv_start:
  fixes s :: "'i pool"
  assumes "s = start_pool n (pool_events n rs)"
  shows "pool_inv rs n s"
proof -
  let ?s = "start_pool n (pool_events n rs) :: 'i pool"
  have z: "sum_list (replicate n {#}) = ({#} :: ServiceRequest multiset)" by (induction n) simp_all
  have c: "served_mset ?s = {#}" "count_engines stopping ?s = 0" "count_engines (\<lambda>p. p = At_Get) ?s = 0"
    by (simp_all add: served_mset_def count_engines_eq start_pool_def z)
  have "queue_inv rs n ?s" unfolding queue_inv_def c by (intro exI [of _ "[]"] exI [of _ "map Some rs @ replicate n None"]) (simp add: start_pool_def)
  moreover have "start_inv n ?s" unfolding start_inv_def c by (simp add: start_pool_def)
  moreover have "answer_inv ?s" by (simp add: answer_inv_def answered_def start_pool_def)
  ultimately show ?thesis using assms by (simp add: pool_inv_def)
qed

lemma pool_inv_run:
  fixes inp :: "ServiceRequest \<Rightarrow> 'i py"
  assumes "(pool_step inp ^^ k) (start_pool n (pool_events n rs)) s" "\<forall>r \<in> set rs. \<exists>x. inp r = Inr x"
  shows "pool_inv rs n s \<and> k + pool_work s \<le> pool_work (start_pool n (pool_events n rs) :: 'i pool)"
  using assms(1)
proof (induction k arbitrary: s)
  case 0
  then show ?case using pool_inv_start by auto
next
  case (Suc k)
  then obtain t where t: "(pool_step inp ^^ k) (start_pool n (pool_events n rs)) t" "pool_step inp t s" by auto
  from Suc.IH [OF t(1)] t(2) queue_inv_step [OF t(2) _ _ assms(2)] start_inv_step [OF t(2)] answer_inv_step [OF t(2)] pool_step_work [OF t(2)]
  show ?case by (auto simp: pool_inv_def)
qed

text \<open>All processes have ended and nothing is left in the queue.\<close>

definition finished :: "'i pool \<Rightarrow> bool" where
  "finished s \<longleftrightarrow> missing s = 0 \<and> todo s = [] \<and> requestQueue s = [] \<and> (\<forall>e \<in> set (engines s). pc e = Gone)"

lemma count_requests: "count_list (map Some rs @ replicate n None) None = n"
  by (induction rs) (simp_all, induction n, simp_all)

lemma all_taken:
  assumes "taken @ q = map Some rs @ replicate n None" "count_list taken None = n" "0 < n"
  shows "q = []"
proof (rule ccontr)
  assume "q \<noteq> []"
  then have "last q = last (taken @ q)" by simp
  also have "\<dots> = None" unfolding assms(1) using assms(3) by simp
  finally have "None \<in> set q" using \<open>q \<noteq> []\<close> last_in_set [of q] by simp
  moreover have "count_list (taken @ q) None = n" unfolding assms(1) by (rule count_requests)
  ultimately show False using assms(2) by (simp add: count_list_append count_list_0_iff)
qed

lemma pool_progress:
  assumes "pool_inv rs n s" "0 < n" "\<not> finished s"
  shows "\<exists>s'. pool_step inp s s'"
proof (cases "0 < missing s")
  case True
  have q: "start_inv n s" "count_engines stopping s = 0" using assms(1) True by (auto simp: pool_inv_def queue_inv_def)
  show ?thesis
  proof (cases "0 < ready s")
    case False
    then have "count_engines (\<lambda>p. p = At_Get) s < length (engines s)" using True q(1) by (auto simp: start_inv_def)
    then have "filter (\<lambda>e. pc e = At_Get) (engines s) \<noteq> engines s" unfolding count_engines_eq by auto
    then obtain e where e: "e \<in> set (engines s)" "pc e \<noteq> At_Get" by (auto simp: filter_id_conv)
    have "\<not> stopping (pc e)" using q(2) e(1) unfolding count_engines_eq by (simp add: filter_empty_conv)
    then have "pc e = At_Ready" using e(2) by (cases "pc e") simp_all
    moreover from e(1) obtain i where "i < length (engines s)" "e = engines s ! i" by (auto simp: in_set_conv_nth)
    ultimately show ?thesis using eng_ready [of i s e inp] by blast
  qed (use True gen_collect [of s inp] in blast)
next
  case False
  from assms(1) obtain taken xs where t: "todo s = map Put xs" "taken @ requestQueue s @ xs = map Some rs @ replicate n None"
    "count_engines stopping s = count_list taken None" "length (engines s) = n" by (auto simp: pool_inv_def queue_inv_def start_inv_def)
  show ?thesis
  proof (cases xs)
    case (Cons x ys)
    then have "pool_step inp s (s\<lparr>todo := map Put ys, requestQueue := requestQueue s @ [x]\<rparr>)" using False t(1) by (intro gen_put) simp_all
    then show ?thesis by blast
  next
    case Nil
    then have q: "taken @ requestQueue s = map Some rs @ replicate n None" "todo s = []" using t(1,2) by simp_all
    have empty: "requestQueue s = []" if "\<forall>e \<in> set (engines s). stopping (pc e)"
    proof -
      have "count_list taken None = n" using that t(3,4) by (simp add: count_engines_eq)
      with all_taken [OF q(1) _ assms(2)] show ?thesis by simp
    qed
    have "\<exists>i<length (engines s). pc (engines s ! i) \<noteq> Gone"
    proof (rule ccontr)
      assume "\<not> ?thesis"
      then have "\<forall>e \<in> set (engines s). pc e = Gone" by (auto simp: in_set_conv_nth)
      moreover from this have "requestQueue s = []" by (intro empty) simp
      ultimately show False using assms(3) False q(2) by (simp add: finished_def)
    qed
    then obtain i where i: "i < length (engines s)" "pc (engines s ! i) \<noteq> Gone" by blast
    show ?thesis
    proof (cases "pc (engines s ! i) = At_Get")
      case True
      then have lt: "count_engines stopping s < n"
        using length_filter_less [of "engines s ! i" "engines s" "\<lambda>e. stopping (pc e)"] i(1) t(4) by (simp add: count_engines_eq)
      have "requestQueue s \<noteq> []"
      proof
        assume "requestQueue s = []"
        then have "taken = map Some rs @ replicate n None" using q(1) by simp
        then have "count_list taken None = n" by (simp only: count_requests)
        with lt t(3) show False by simp
      qed
      then obtain x q' where "requestQueue s = x # q'" by (cases "requestQueue s") auto
      then have "pool_step inp s (set_engine i ((engines s ! i)\<lparr>pc := At_Stop\<rparr>) (s\<lparr>requestQueue := q'\<rparr>))" if "x = None"
        using that i(1) True by (intro eng_stop) simp_all
      moreover have "\<exists>s'. pool_step inp s s'" if "x = Some r" for r
      proof (cases "inp r")
        case (Inl err)
        then show ?thesis using eng_raise [OF i(1) refl True, of r q' inp err] that \<open>requestQueue s = x # q'\<close> by blast
      next
        case (Inr y)
        then show ?thesis using eng_get [OF i(1) refl True, of r q' inp y] that \<open>requestQueue s = x # q'\<close> by blast
      qed
      ultimately show ?thesis by (cases x) blast+
    next
      case g: False
      then show ?thesis using i eng_ready [OF i(1) refl, of inp] eng_close [OF i(1) refl, of inp] eng_exit [OF i(1) refl, of inp]
        by (cases "pc (engines s ! i)") blast+
    qed
  qed
qed

lemma served_mset_eq: "served_mset s = mset (all_served s)"
  by (simp add: served_mset_def all_served_def mset_concat o_def)

lemma start_work: "pool_work (start_pool n (pool_events n rs)) = 4 * length rs + 11 * n"
  by (simp add: pool_work_def queue_work_def engine_work_def start_pool_def sum_list_replicate)

lemma finished_served:
  assumes "pool_inv rs n s" "finished s"
  shows "mset (all_served s) = mset rs"
  using assms by (auto simp: pool_inv_def queue_inv_def finished_def served_mset_eq)

lemma taken_subset:
  assumes "pool_inv rs n s"
  shows "mset (all_served s) \<subseteq># mset rs"
proof -
  from assms obtain taken rest where t: "taken @ rest = map Some rs @ replicate n None" "served_mset s = mset (somes taken)"
    by (auto simp: pool_inv_def queue_inv_def)
  from arg_cong [OF t(1), of somes] have "somes taken @ somes rest = rs" by simp
  then have "mset rs = mset (somes taken) + mset (somes rest)" by (metis mset_append)
  then show ?thesis using t(2) by (simp add: served_mset_eq)
qed

text \<open>Every state has a run from it that cannot be continued.\<close>

lemma maximal_run: "\<exists>k t. (pool_step inp ^^ k) s t \<and> \<not> (\<exists>u. pool_step inp t u)"
proof (induction "pool_work s" arbitrary: s rule: less_induct)
  case less
  show ?case
  proof (cases "\<exists>u. pool_step inp s u")
    case True
    then obtain u where u: "pool_step inp s u" by blast
    from less [OF pool_step_work [OF u]] obtain k t where "(pool_step inp ^^ k) u t" "\<not> (\<exists>v. pool_step inp t v)" by blast
    then show ?thesis using relpowp_Suc_I2 [of "pool_step inp" s u k t] u by blast
  qed (intro exI [of _ 0] exI [of _ s], simp)
qed

section \<open>The generator and its engines\<close>

definition load_requests :: "'f load_args \<Rightarrow> int list \<Rightarrow> ServiceRequest list" where
  "load_requests args sizes = concat (map (\<lambda>e. concat (map (\<lambda>b. task_requests e b False (parts (sub_task_batch_size args) (sizes ! b)))
     [0..<num_batches args])) [0..<nepochs args])"

lemma load_events:
  assumes "\<not> model_gpu args"
  shows "concat (map (epoch_events args sizes) es) @ done_signals args =
    map (\<lambda>r. Put (Some r)) (concat (map (\<lambda>e. concat (map (\<lambda>b. task_requests e b False (parts (sub_task_batch_size args) (sizes ! b)))
      [0..<num_batches args])) es)) @ replicate (inference_engines args) (Put None)"
proof -
  have "done_signals args = replicate (inference_engines args) (Put None)"
    using assms by (simp add: done_signals_def map_replicate_const)
  moreover have "epoch_events args sizes e = map (\<lambda>r. Put (Some r)) (concat (map (\<lambda>b. task_requests e b False (parts (sub_task_batch_size args) (sizes ! b)))
      [0..<num_batches args]))" for e
    using assms by (simp add: epoch_events_def batch_events_def map_concat o_def)
  ultimately show ?thesis by (simp add: map_concat o_def cong: map_cong)
qed

lemma sum_task_requests: "sum_list (map req_batch_size (task_requests e b ex bs)) = sum_list bs"
proof -
  have "map req_batch_size (task_requests e b ex bs) = map snd (enumerate 0 bs)" by (simp add: task_requests_def o_def split_def)
  then show ?thesis by simp
qed

lemma sum_list_concat: "sum_list (concat xss) = sum_list (map sum_list xss)" for xss :: "int list list"
  by (induction xss) simp_all

lemma load_requests_sum:
  assumes "0 < sub_task_batch_size args" "length sizes = num_batches args" "\<forall>x \<in> set sizes. 0 \<le> x"
  shows "sum_list (map req_batch_size (load_requests args sizes)) = int (nepochs args) * sum_list sizes"
proof -
  have "sum_list (map req_batch_size (concat (map (\<lambda>b. task_requests e b False (parts (sub_task_batch_size args) (sizes ! b))) [0..<num_batches args]))) =
      sum_list sizes" for e
  proof -
    have "sum_list (map (\<lambda>b. sum_list (parts (sub_task_batch_size args) (sizes ! b))) [0..<num_batches args]) = sum_list (map (\<lambda>b. sizes ! b) [0..<num_batches args])"
      using assms by (intro arg_cong [where f = sum_list] map_cong refl sum_parts) simp_all
    then show ?thesis using map_nth [of sizes] assms(2) by (simp add: map_concat sum_list_concat o_def sum_task_requests)
  qed
  then show ?thesis by (simp add: load_requests_def map_concat sum_list_concat o_def sum_list_triv)
qed

lemma load_requests_batch: "r \<in> set (load_requests args sizes) \<Longrightarrow> req_batch_id r < num_batches args"
  by (auto simp: load_requests_def task_requests_def)

lemma engine_input_run:
  assumes "req_batch_id r < length lX" "req_batch_id r < length lS_l" "req_batch_id r < length lS_i"
  shows "\<exists>x. engine_input npl lX lS_l lS_i r = Inr x"
  using assms by (simp add: engine_input_def Let_def)

lemma finished_load:
  assumes "mset (all_served s) = mset rs"
  shows "length (all_served s) = length rs \<and> sum_list (map req_batch_size (all_served s)) = sum_list (map req_batch_size rs)"
proof -
  from assms have "mset (map req_batch_size (all_served s)) = mset (map req_batch_size rs)" by (simp only: mset_map)
  then have "sum_list (map req_batch_size (all_served s)) = sum_list (map req_batch_size rs)" by (metis sum_mset_sum_list)
  then show ?thesis using mset_eq_length [OF assms] by simp
qed

section \<open>Properties\<close>


definition demo_request :: "nat \<Rightarrow> ServiceRequest" where
  "demo_request i = \<lparr>req_batch_id = 0, req_epoch = 0, req_batch_size = 2, sub_id = i, total_sub_batches = 2, exp_packet = False\<rparr>"






end
