(* ===== verification/Spec2Isabelle.thy ===== *)
theory Spec2Isabelle
  imports Npsum_Mt Process_Trees Rband Ioctl_Tools Fio_Vsync Rec_Sls Rec_Files Rec_Random Engine_Pool
begin

text \<open>
  Verification of the host side of a solid state disk that runs eBPF programs on its data (in-storage
  processing, ISP), of the programs it runs, and of the recommendation benchmark on top of it.

  \<^bold>\<open>The system.\<close> An SSD executes an eBPF program on the blocks of a request. Host programs insert a program,
  submit requests through the ioctl calls of the NVMe driver, and fetch what the program left in a map
  page. They are compared with programs that read the same blocks and compute on the host. The embedding
  driver is a shared library over the same calls; the recommendation program in Python loads it, writes
  its embedding tables to the SSD and lets batches of lookups be summed. The load generator feeds a pool
  of inference engines. fio measures the SSD with its synchronous engines.

  \<^bold>\<open>Theories and sources\<close> (paths under \<open>src\<close>).
  \<^item> \<open>C_Prelude\<close>: integers, byte buffers, counted loops and printed lines of C. \<open>Python_Prelude\<close>: exceptions,
    \<open>for\<close> loops and list indexing of Python. \<open>Python_Numbers\<close>: numbers and lists as text.
  \<^item> \<open>Ebpf_Programs\<close>: \<open>eBPF_program/*.c\<close>. A program is a function of its context, \<open>None\<close> is an access outside
    its memory; all of them satisfy the contract \<open>ebpf_program\<close>.
  \<^item> \<open>Nvme_Ioctl\<close>: the requests, and the kernel and the SSD as a record of functions over an unknown device,
    with the contracts \<open>isp_ssd\<close> and \<open>reliable_ssd\<close>. \<open>Reference_Ssd\<close>: an executable SSD that satisfies them,
    at which the contracts are interpreted and the properties instantiated.
  \<^item> \<open>Npsum_Isp\<close>, \<open>Npsum_Host\<close>, \<open>Npsum_Mt\<close>: \<open>npsum/*.c\<close>, matrix sums in the SSD, on the host, and from child
    processes. \<open>Fork_Model\<close>: children that share the device, as a step relation.
  \<^item> \<open>Pattern_Match\<close>, \<open>Rband\<close>, \<open>Process_Trees\<close>: \<open>pattern_match/*.c\<close> and \<open>rband/*.c\<close>, counting a word and reading in
    bulk; the programs whose children keep forking are step relations over trees of processes.
  \<^item> \<open>Ioctl_Tools\<close>: \<open>ioctl/*.c\<close> and \<open>tpage/gen.c\<close>, the command line tools.
  \<^item> \<open>Unvme_Driver\<close>: \<open>MyDriver-fixed.32/unvme_embed_lib.c\<close> and \<open>rdtsc.h\<close>.
  \<^item> \<open>Lru_Cache\<close>, \<open>Rec_Sls\<close>: \<open>RecSSD-RecInfra-fixed.32/models/dlrm_s_caffe2.py\<close>, the row caches, the sums of a
    batch (\<open>slsload\<close>) and the main program, over \<open>Unvme_Driver\<close>.
  \<^item> \<open>Rec_Trace\<close>, \<open>Rec_Random\<close>: \<open>RecSSD-RecInfra-fixed.32/data_generator\<close>, profiling and generating traces of
    accesses, synthetic and random input. \<open>Rec_Files\<close>: the files of traces and distributions, the main programs of
    \<open>trace_profile.py\<close> and \<open>trace_generator.py\<close>, and \<open>models/input/gen_dist.py\<close> with \<open>create_dist.sh\<close>.
  \<^item> \<open>Load_Generator\<close>, \<open>Engine_Pool\<close>: \<open>loadGenerator.py\<close>, \<open>inferenceEngine.py\<close> and \<open>utils/packets.py\<close> of the same
    directory, the requests of the generator, its search for the best configuration, and the engines that
    serve them; the generator, the engines and their threads are processes over queues.
  \<^item> \<open>Fio_Sync\<close>, \<open>Fio_Vsync\<close>: \<open>fio/engines/sync.c\<close>, over the contract \<open>posix_files\<close> of the system calls.

  \<^bold>\<open>State and operations.\<close> A C program is a function from the device, its buffers and the lines printed so far
  to the same afterwards, in the option monad; a Python program is a function into a sum of exceptions and
  results. The loop bodies, requests and helpers of a program are definitions of their own, and programs
  that differ in constants share them. Machine integers are words, addresses and contents of fresh
  allocations, clocks and random numbers are arguments.

  \<^bold>\<open>What the lemmas show.\<close> For the eBPF programs: what each computes, and exactly when it stays inside its
  memory. For the host programs: what they print and leave on the device for every device that satisfies
  the contract, agreement of the variants that compute the same (in the SSD, on the host, from several
  processes), and the errors on the other paths. For the driver: writing tables, reading rows and summing
  rows are inverse to each other. For the recommendation program: the run from the files of distributions
  to the sums that reach the network. For traces: profiling and replaying are inverse, two profilers agree,
  and the files one program writes are what the next one reads. For the load generator and the engines: the
  search ends, every request is served exactly once in any interleaving, there is no deadlock, and the
  tasks add up to the requests. For random input: exactly when the draws come to an end. For fio: \<open>sync\<close>
  implements \<open>psync\<close>, and the batches of \<open>vsync\<close> are contiguous. Several properties state where the code
  falls short of that, with the condition under which it does.

  \<^bold>\<open>Bounds and fuel.\<close> No definition runs on fuel. Loops whose end depends on the environment (the cycle counter of
  \<open>rdtsc_elapse\<close>, the main loop and the partition of the load generator, the draws of random input) are
  partial functions, whose value \<open>None\<close> is a run that does not end; that they end is proved where it
  holds. Steps of concurrent processes are inductive relations; that they end is proved with a measure. Capacities of the reference SSD in witnesses
  are the smallest that hold the blocks the program touches.

  \<^bold>\<open>Not modelled.\<close> The kernel and the firmware of the SSD, libc, numpy, Caffe2 and lru-dict are not in the
  repository: they are arguments, with what the code relies on as the laws of a locale. fio beyond its
  synchronous engines and nvme-cli are upstream programs that the repository vendors unchanged, and no
  program of it depends on how they work. The construction of the Caffe2 network computes nothing outside of that
  framework; the engine that reads the queue of the GPU is missing in the repository, and so
  are all models but one. Time measurements, log messages and terminal output order are left out, shell scripts
  and Makefiles only call the programs. \<open>pattern_match/submit_op.c\<close> and \<open>page_read.c\<close> are the same files as in \<open>ioctl\<close>.
\<close>

section \<open>The recommendation program on synthetic input\<close>

text \<open>A synthetic index can be read by a call of type base: it is never the last row of a block.\<close>

lemma good_index_fetchable:
  assumes "good_index n e" "table_fits L cap vl s i n W" "vl * s = 1024" "s dvd 128" "1 < s"
  shows "fetchable cap vl s i e"
proof -
  have e: "0 \<le> e" "nat e < n" "gcd 128 n dvd nat e"
    using assms(1) int_dvd_int_iff [of "gcd 128 n" "nat e"] by (auto simp: good_index_def)
  have t: "s dvd n" "4 * vl * n < 2147483648" "table_base i + 4 * vl * n div 4096 \<le> cap" using assms(2) by (auto simp: table_fits_def)
  obtain q where q: "n = s * q" using t(1) by blast
  have "4 * vl * n = 4 * (vl * s) * q" by (simp add: q)
  then have "4 * vl * n div 4096 = q" unfolding assms(3) by simp
  moreover have "nat e div s < q" using e(2) assms(5) unfolding q by (simp add: less_mult_imp_div_less mult.commute)
  moreover have "s dvd nat e" using e(3) assms(4) t(1) by (meson dvd_trans gcd_greatest)
  moreover have "4 * vl * nat e < 2147483648" using mult_le_mono2 [of "nat e" n "4 * vl"] e(2) t(2) by linarith
  ultimately show ?thesis using e(1) t(2,3) assms(5) by (simp add: fetchable_def)
qed

text \<open>What the generator returns, as the input of the program.\<close>

definition synthetic_data :: "'x list list \<Rightarrow> nat list list list \<times> int list list list \<Rightarrow> 'x rec_data" where
  "synthetic_data X r = (case r of (lS_lengths, lS_indices) \<Rightarrow>
     \<lparr>in_X = X, in_lengths = map (map (map int)) lS_lengths, in_indices = lS_indices\<rparr>)"

lemma synthetic_indices_ok:
  assumes "good_batch m sizes is" "n = length sizes" "\<forall>i<n. table_fits L cap vl s i (sizes ! i) (Ws i)" "vl * s = 1024" "s dvd 128" "1 < s"
    and "\<forall>i<n. sizes ! i \<le> sizes ! (n - 1)"
  shows "indices_ok cap vl s is n m \<and> (\<forall>i<n. \<forall>k<m. is ! i ! k < int (sizes ! (n - 1)))"
proof -
  have g: "length (is ! i) = m \<and> (\<forall>k<m. good_index (sizes ! i) (is ! i ! k))" if "i < n" for i
    using assms(1,2) that by (auto simp: good_batch_def)
  have "fetchable cap vl s i (is ! i ! k)" if "i < n" "k < m" for i k
    using g [OF that(1)] that(2) assms(3) that(1) by (intro good_index_fetchable [OF _ _ assms(4-6)]) auto
  moreover have "is ! i ! k < int (sizes ! (n - 1))" if "i < n" "k < m" for i k
    using g [OF that(1)] that(2) assms(7) that(1) by (force simp: good_index_def)
  ultimately show ?thesis using g assms(1,2) by (simp add: indices_ok_def good_batch_def)
qed

text \<open>The program on the input of the generator, whatever the distributions, when there is a trace for every table.\<close>

lemma synthetic_program_run:
  assumes "rec_host K ok blk page prog rest cap C entries room L vl s" "\<And>prof. mset (dict_order prof) = mset prof"
    and "ok (dev d)" "length pg = 4096" "s dvd 128" "1 < s"
    and "arg_sls_type args = ''base''" "\<not> arg_queue args" "arg_sparse_feature_size args = vl"
    and "sizes = arg_embedding_size args" "n = length sizes" "0 < n" "\<forall>i<n. sizes ! i \<le> sizes ! (n - 1)"
    and "\<forall>i<n. table_fits L cap vl s i (sizes ! i) (Ws i)"
    and "mbs = arg_mini_batch_size args" "npl = arg_indices_per_lookup args" "0 < mbs" "0 < npl" "length X = nb"
    and "table_traces dists draw pad npl (nb * npl * mbs) n"
  shows "\<exists>r st' rates. generate_synthetic_input_data dists draw nb mbs npl True sizes pad = Inr r \<and>
      rec_main L N C dict_order Ws args (synthetic_data X r) nb True pg d =
        Inr (st', concat (replicate (arg_nepochs args) (map (base_blobs N vl (Ws (n - 1)) args (synthetic_data X r)) [0..<nb])), rates) \<and>
      \<not> fd_open (drv st') \<and> hits st' + misses st' = arg_nepochs args * (nb * (n * (mbs * npl)))"
proof -
  have pages: "vl * s = 1024" using assms(1) by (rule rec_host.full_pages)
  have "0 < sizes ! i \<and> sizes ! i < 2147483648" if "i < n" for i
  proof -
    have "0 < vl" using pages by (cases vl) simp_all
    then have "sizes ! i \<le> 4 * vl * sizes ! i" by simp
    moreover have "0 < sizes ! i" "4 * vl * sizes ! i < 2147483648" using assms(14) that by (simp_all add: table_fits_def)
    ultimately show ?thesis by linarith
  qed
  then have sz: "\<forall>sz \<in> set sizes. 0 < sz \<and> sz < 2147483648" using assms(11) by (auto simp: in_set_conv_nth)
  from synthetic_run [OF assms(20) [unfolded assms(11)] assms(18) sz] obtain inds where
    inds: "generate_synthetic_input_data dists draw nb mbs npl True sizes pad = Inr (replicate nb (replicate (length sizes) (replicate mbs npl)), inds)"
    "length inds = nb" "\<forall>j<nb. good_batch (mbs * npl) sizes (inds ! j)" by blast
  let ?r = "(replicate nb (replicate (length sizes) (replicate mbs npl)), inds)"
  have ok: "indices_ok cap vl s (inds ! b) n (mbs * npl) \<and> (\<forall>i<n. \<forall>k<mbs * npl. inds ! b ! i ! k < int (sizes ! (n - 1)))" if "b < nb" for b
    using inds(3) that by (intro synthetic_indices_ok [OF _ assms(11,14) pages assms(5,6,13)]) simp
  have "\<forall>b<nb. length (inds ! b) = n" using inds(3) assms(11) by (simp add: good_batch_def)
  then have shape: "data_shape nb n (synthetic_data X ?r)"
    using inds(2) assms(11,19) by (auto simp: data_shape_def synthetic_data_def in_set_conv_nth)
  have lkp: "mbs * npl = arg_mini_batch_size args * arg_indices_per_lookup args" "0 < mbs * npl" using assms(15-18) by simp_all
  have ln: "n = length (arg_embedding_size args)" using assms(10,11) by simp
  have i: "in_indices (synthetic_data X ?r) = inds" by (simp add: synthetic_data_def)
  note run = rec_host.rec_main_run [OF assms(1-4,7-9) ln assms(12) _ lkp shape, of Ws N, folded assms(10), unfolded i]
  have "\<exists>st' rates. rec_main L N C dict_order Ws args (synthetic_data X ?r) nb True pg d =
        Inr (st', concat (replicate (arg_nepochs args) (map (base_blobs N vl (Ws (n - 1)) args (synthetic_data X ?r)) [0..<nb])), rates) \<and>
      \<not> fd_open (drv st') \<and> length rates = nb \<and> hits st' + misses st' = arg_nepochs args * (nb * (n * (mbs * npl)))"
    by (rule run) (use assms(14) ok in blast)+
  with inds(1) show ?thesis by blast
qed



end
